(* ===== verification/Exchange_Prelude.thy ===== *)
theory Exchange_Prelude
  imports Main "HOL-Library.Word"
begin

text \<open>
  Shared vocabulary of the development.

  \<^item> The outcome of a C++ member function that may index an array, dereference a pointer,
    throw, or loop: \<open>'a res\<close>. \<open>None\<close> is a run that does not return, \<open>fail e\<close> is a run
    that stops at the fault \<open>e\<close> (undefined behaviour or an exception), \<open>ok x\<close> is a normal
    return. \<open>rbind\<close> sequences two such computations.
  \<^item> The machine integers of the program: \<open>size_t\<close> and the 8/32/64-bit unsigned types are
    words, so every \<open>+\<close> and \<open>-\<close> of the model wraps exactly as the C++ does.
  \<^item> Generic facts on lists, maps and words the components share.
\<close>

named_theorems book_simps \<open>selector-of-update equations of the order book state\<close>
named_theorems ring_simps \<open>ring buffer index arithmetic\<close>
named_theorems spec_simps \<open>unfolding equations of the abstract price-time book\<close>

type_synonym size_t = "64 word"
type_synonym byte = "8 word"

section \<open>Outcomes\<close>

datatype fault =
    Index_Out_Of_Range   \<comment> \<open>\<open>std::array::operator[]\<close> past the end (undefined behaviour)\<close>
  | Null_Pointer         \<comment> \<open>access through a null or uninitialised pointer\<close>
  | Map_At_Missing       \<comment> \<open>\<open>std::unordered_map::at\<close> throws \<open>std::out_of_range\<close>\<close>
  | Fill_Too_Large       \<comment> \<open>\<open>Order::fill\<close> throws \<open>std::logic_error\<close>\<close>
  | Division_By_Zero     \<comment> \<open>integer division by zero\<close>
  | Conversion_Overflow  \<comment> \<open>a value outside the range of the integer type it is converted to\<close>

type_synonym 'a res = "(fault + 'a) option"

abbreviation ok :: "'a \<Rightarrow> 'a res" where
  "ok x \<equiv> Some (Inr x)"

abbreviation fail :: "fault \<Rightarrow> 'a res" where
  "fail e \<equiv> Some (Inl e)"

definition rbind :: "'a res \<Rightarrow> ('a \<Rightarrow> 'b res) \<Rightarrow> 'b res" where
  "rbind m f = (case m of None \<Rightarrow> None | Some (Inl e) \<Rightarrow> fail e | Some (Inr x) \<Rightarrow> f x)"

lemma rbind_simps [simp]:
  "rbind None f = None"
  "rbind (fail e) f = fail e"
  "rbind (ok x) f = f x"
  by (simp_all add: rbind_def)

lemma rbind_ok_iff: "rbind m f = ok y \<longleftrightarrow> (\<exists>x. m = ok x \<and> f x = ok y)"
  by (auto simp: rbind_def split: option.splits sum.splits)

lemma rbind_assoc: "rbind (rbind m f) g = rbind m (\<lambda>x. rbind (f x) g)"
  by (auto simp: rbind_def split: option.splits sum.splits)

lemma rbind_cong [fundef_cong]:
  "m = m' \<Longrightarrow> (\<And>x. m' = ok x \<Longrightarrow> f x = f' x) \<Longrightarrow> rbind m f = rbind m' f'"
  by (auto simp: rbind_def split: option.splits sum.splits)

lemma rbind_as_bind:
  "rbind m g = Option.bind m (\<lambda>z. case z of Inl e \<Rightarrow> fail e | Inr y \<Rightarrow> g y)"
  by (auto simp: rbind_def split: option.splits sum.splits)

lemma rbind_mono [partial_function_mono]:
  assumes "mono_option B" and "\<And>y. mono_option (\<lambda>f. C y f)"
  shows "mono_option (\<lambda>f. rbind (B f) (\<lambda>y. C y f))"
proof -
  have "mono_option (\<lambda>f. case z of Inl e \<Rightarrow> fail e | Inr y \<Rightarrow> C y f)" for z
    using assms(2) by (cases z) (auto intro: partial_function_mono)
  then show ?thesis
    unfolding rbind_as_bind by (rule bind_mono [OF assms(1)])
qed

section \<open>Words\<close>

text \<open>The smaller of two unsigned words, as \<open>std::min\<close> returns it.\<close>

lemma unat_min: "unat (min a b) = min (unat a) (unat b)"
  by (simp add: min_def word_le_nat_alt)

lemma word_sub_min_left [simp]: "(a :: 'a :: len word) - min a b = (if a \<le> b then 0 else a - b)"
  by (auto simp: min_def)

lemma unat_sub_min:
  "unat ((a :: 'a :: len word) - min a b) = unat a - min (unat a) (unat b)"
proof -
  have "min a b \<le> a" by simp
  then show ?thesis by (simp add: unat_sub unat_min del: word_sub_min_left)
qed

lemma of_nat_size_pos [simp]: "n < 2 ^ 64 \<Longrightarrow> (0 :: size_t) < of_nat n \<longleftrightarrow> 0 < n"
  by (simp add: word_less_nat_alt unat_of_nat)

lemma of_nat_size_eq_0: "n < 2 ^ 64 \<Longrightarrow> (of_nat n :: size_t) = 0 \<longleftrightarrow> n = 0"
  by (simp add: unat_eq_zero [symmetric] unat_of_nat)

lemma pow_lt_2_32: "k < 32 \<Longrightarrow> (2 :: nat) ^ k < 4294967296"
  using power_strict_increasing [of k 32 "2 :: nat"] by simp

lemma unat_pow_32: "k < 32 \<Longrightarrow> unat (2 ^ k :: 32 word) = 2 ^ k"
  using unat_of_nat [of "2 ^ k", where 'a = 32] pow_lt_2_32 [of k] by simp

lemma unat_ucast_32_64: "unat (ucast (w :: 32 word) :: 64 word) = unat w"
proof -
  have "unat w < 2 ^ 32" using unsigned_less [of w] by simp
  then show ?thesis by (simp add: unsigned_ucast_eq take_bit_eq_mod)
qed

section \<open>Step relations\<close>

text \<open>The runs of a step relation are its reflexive transitive closure; what every step keeps, every run keeps.\<close>

lemmas run_start = rtranclp.rtrancl_refl
lemmas run_step = rtranclp.rtrancl_into_rtrancl

locale step_invariant =
  fixes step :: "'s \<Rightarrow> 's \<Rightarrow> bool" and inv :: "'s \<Rightarrow> bool"
  assumes step_inv: "step s s' \<Longrightarrow> inv s \<Longrightarrow> inv s'"
begin

lemma run_inv: "step\<^sup>*\<^sup>* s s' \<Longrightarrow> inv s \<Longrightarrow> inv s'"
  by (induction rule: rtranclp_induct) (auto intro: step_inv)

end

section \<open>Lists\<close>

lemma distinct_mid: "distinct (us @ a # vs) \<longleftrightarrow>
    distinct (us @ vs) \<and> a \<notin> set us \<and> a \<notin> set vs"
  by auto

lemma concat_map_upd_notin: "p \<notin> set ps \<Longrightarrow> concat (map (f(p := v)) ps) = concat (map f ps)"
  by (induction ps) auto

lemma concat_map_split:
  assumes "distinct (us @ p # vs)"
  shows "concat (map (f(p := v)) (us @ p # vs)) = concat (map f us) @ v @ concat (map f vs)"
  using assms by (simp add: concat_map_upd_notin)

lemma filter_id_conv_all: "(\<forall>x \<in> set xs. P x) \<Longrightarrow> filter P xs = xs"
  by (induction xs) auto

section \<open>Printed numbers\<close>

text \<open>A number as \<^verbatim>\<open>operator<<\<close> and \<^verbatim>\<open>printf\<close> write it: decimal digits, no leading zero.\<close>

fun decimal :: "nat \<Rightarrow> string" where
  "decimal n = (if n < 10 then [char_of (48 + n)] else decimal (n div 10) @ [char_of (48 + n mod 10)])"

declare decimal.simps [simp del]

end
