(* ===== verification/Order_Types.thy ===== *)
theory Order_Types
  imports Exchange_Prelude
begin

text \<open>
  The primitive types of \<^verbatim>\<open>infra/order_types.hpp\<close>, the message structs of
  \<^verbatim>\<open>infra/communication_types.hpp\<close> and the compile-time limits of
  \<^verbatim>\<open>exchange/config/config.hpp\<close>, in the configuration the repository ships
  (\<^verbatim>\<open>LOGGING\<close>, \<^verbatim>\<open>DIAGNOSTICS\<close> and \<^verbatim>\<open>TESTING\<close> all 0).

  \<^verbatim>\<open>MessageType\<close>, \<^verbatim>\<open>Side\<close> and \<^verbatim>\<open>OrderType\<close> are C++ enums with underlying type
  \<^verbatim>\<open>uint8_t\<close> that are filled by \<^verbatim>\<open>memcpy\<close> from the wire, so they can hold any byte: they are
  bytes here, with the enumerators as named values. \<^verbatim>\<open>Status\<close> and \<^verbatim>\<open>ServerError\<close> are only
  ever written by the exchange itself: they are datatypes.
\<close>

type_synonym Timestamp = "64 word"
type_synonym ClientId = "32 word"
type_synonym OrderId = "64 word"
type_synonym Price = "32 word"
type_synonym Quantity = "32 word"

section \<open>Enumerations\<close>

type_synonym Side = byte
type_synonym OrderType = byte
type_synonym MessageType = byte

definition BID :: Side where "BID = 0"
definition ASK :: Side where "ASK = 1"

definition MARKET :: OrderType where "MARKET = 0"
definition LIMIT :: OrderType where "LIMIT = 1"

definition NEW :: MessageType where "NEW = 0"
definition CANCEL :: MessageType where "CANCEL = 1"
definition MODIFY :: MessageType where "MODIFY = 2"
definition MATCH :: MessageType where "MATCH = 4"

lemmas enum_defs = BID_def ASK_def MARKET_def LIMIT_def NEW_def CANCEL_def MODIFY_def MATCH_def

lemma enum_distinct [simp]:
  "BID \<noteq> ASK" "ASK \<noteq> BID" "MARKET \<noteq> LIMIT" "LIMIT \<noteq> MARKET"
  "NEW \<noteq> CANCEL" "CANCEL \<noteq> NEW" "NEW \<noteq> MODIFY" "MODIFY \<noteq> NEW" "NEW \<noteq> MATCH" "MATCH \<noteq> NEW"
  "CANCEL \<noteq> MODIFY" "MODIFY \<noteq> CANCEL" "CANCEL \<noteq> MATCH" "MATCH \<noteq> CANCEL"
  "MODIFY \<noteq> MATCH" "MATCH \<noteq> MODIFY"
  by (simp_all add: enum_defs)

datatype Status = FAILURE | SUCCESS

datatype ServerError = NONE | MALFORMED_REQUEST | INVALID_ORDER | SYSTEM_ERROR | EXECUTION_ERROR

section \<open>Compile-time limits\<close>

definition MIN_PRICE :: Price where "MIN_PRICE = 1"
definition MAX_PRICE :: Price where "MAX_PRICE = 1000 * 100"

section \<open>Messages\<close>

record InboundMessage =
  im_read_begin_tsc :: Timestamp
  im_recv_tsc :: Timestamp
  im_server_push :: Timestamp
  im_order_id :: OrderId
  im_client_id :: ClientId
  im_price :: Price
  im_quantity :: Quantity
  im_message_type :: MessageType
  im_side :: Side
  im_order_type :: OrderType

record OutboundMessage =
  om_read_begin_tsc :: Timestamp
  om_recv_tsc :: Timestamp
  om_server_push_tsc :: Timestamp
  om_engine_pop_tsc :: Timestamp
  om_engine_push_tsc :: Timestamp
  om_order_id :: OrderId
  om_client_id :: ClientId
  om_message_type :: MessageType
  om_status :: Status
  om_server_error :: ServerError

text \<open>
  \<open>OutboundMessage{}\<close> and every designated initialiser leave the members they do not name
  value-initialised: zero timestamps and ids, \<open>MessageType(0)\<close>, \<open>Status(0)\<close>,
  \<open>ServerError(0)\<close>.
\<close>

definition OutboundMessage_zero :: OutboundMessage where
  "OutboundMessage_zero =
     \<lparr>om_read_begin_tsc = 0, om_recv_tsc = 0, om_server_push_tsc = 0, om_engine_pop_tsc = 0,
      om_engine_push_tsc = 0, om_order_id = 0, om_client_id = 0, om_message_type = 0,
      om_status = FAILURE, om_server_error = NONE\<rparr>"

definition InboundMessage_zero :: InboundMessage where
  "InboundMessage_zero =
     \<lparr>im_read_begin_tsc = 0, im_recv_tsc = 0, im_server_push = 0, im_order_id = 0,
      im_client_id = 0, im_price = 0, im_quantity = 0, im_message_type = 0, im_side = 0,
      im_order_type = 0\<rparr>"

section \<open>The price ladder\<close>

definition valid_price :: "Price \<Rightarrow> bool" where
  "valid_price p \<longleftrightarrow> MIN_PRICE \<le> p \<and> p \<le> MAX_PRICE"

text \<open>
  A level array has \<^verbatim>\<open>MAX_PRICE - MIN_PRICE + 1\<close> entries and is indexed by
  \<^verbatim>\<open>price - MIN_PRICE\<close>, a 32-bit subtraction that wraps: the index is in range exactly for
  the prices of the ladder.
\<close>

lemma index_in_range: "p - MIN_PRICE < MAX_PRICE - MIN_PRICE + 1 \<longleftrightarrow> valid_price p"
proof -
  have "p - 1 < (100000 :: 32 word) \<longleftrightarrow> 1 \<le> p \<and> p \<le> 100000"
    by unat_arith auto
  then show ?thesis by (simp add: valid_price_def MIN_PRICE_def MAX_PRICE_def)
qed

lemma valid_MIN_MAX [simp]: "valid_price MIN_PRICE" "valid_price MAX_PRICE"
  by (simp_all add: valid_price_def MIN_PRICE_def MAX_PRICE_def)

lemma valid_price_unat: "valid_price p \<longleftrightarrow> 1 \<le> unat p \<and> unat p \<le> 100000"
  by (simp add: valid_price_def MIN_PRICE_def MAX_PRICE_def word_le_nat_alt)

lemma index_inj: "p - MIN_PRICE = q - MIN_PRICE \<longleftrightarrow> p = q"
  by simp

end
