(* ===== verification/Ring_Buffer.thy ===== *)
theory Ring_Buffer
  imports Order_Types
begin

text \<open>
  \<^verbatim>\<open>exchange/include/ring_buffer.hpp\<close>: the fixed-capacity ring that connects the threads.

  The state is the four members of \<^verbatim>\<open>RingBuffer<T>\<close>; the two atomic indices are \<^verbatim>\<open>size_t\<close>
  and wrap by masking with the 32-bit \<^verbatim>\<open>mask\<close>. This theory has the operations run without
  interference; the interleaving of one producer with one consumer is the subject of
  \<^verbatim>\<open>Ring_Concurrent\<close>. \<open>ring_contents\<close> reads a ring as the list of its elements, oldest
  first, and the operations are shown to implement a bounded queue (locale \<open>bounded_queue\<close>)
  that refuses a push when it holds \<^verbatim>\<open>N - 1\<close> elements.
\<close>

unbundle bit_operations_syntax

section \<open>The class\<close>

record 'a RingBuffer =
  write_idx :: size_t
  read_idx :: size_t
  buffer :: "'a list"
  rb_mask :: "32 word"

text \<open>
  The constructor: \<^verbatim>\<open>make_unique<T[]>(N)\<close> value-initialises the elements to \<open>z\<close>; the
  \<^verbatim>\<open>assert\<close> aborts (\<open>None\<close>) unless \<open>N\<close> is a power of two.
\<close>

definition RingBuffer_new :: "'a \<Rightarrow> 32 word \<Rightarrow> 'a RingBuffer option" where
  "RingBuffer_new z N =
     (if N AND (N - 1) = 0
      then Some \<lparr>write_idx = 0, read_idx = 0, buffer = replicate (unat N) z, rb_mask = N - 1\<rparr>
      else None)"

definition next_idx :: "'a RingBuffer \<Rightarrow> size_t \<Rightarrow> size_t" where
  "next_idx r i = (i + 1) AND ucast (rb_mask r)"

definition ring_push :: "'a RingBuffer \<Rightarrow> 'a \<Rightarrow> bool \<times> 'a RingBuffer" where
  "ring_push r item =
     (let w = write_idx r;
          next_write = next_idx r w
      in if next_write = read_idx r then (False, r)
         else (True, r\<lparr>buffer := (buffer r)[unat w := item], write_idx := next_write\<rparr>))"

text \<open>
  \<^verbatim>\<open>pop(T& item)\<close> leaves \<open>item\<close> untouched when it returns false: \<open>None\<close>.
\<close>

definition ring_pop :: "'a RingBuffer \<Rightarrow> 'a option \<times> 'a RingBuffer" where
  "ring_pop r =
     (let i = read_idx r
      in if i = write_idx r then (None, r)
         else (Some (buffer r ! unat i), r\<lparr>read_idx := next_idx r i\<rparr>))"

definition ring_size :: "'a RingBuffer \<Rightarrow> size_t" where
  "ring_size r =
     (let w = write_idx r; i = read_idx r
      in if i \<le> w then w - i else ucast (rb_mask r + 1) + (w - i))"

definition ring_empty :: "'a RingBuffer \<Rightarrow> bool" where
  "ring_empty r \<longleftrightarrow> write_idx r = read_idx r"

text \<open>Pushing a sequence of messages, every result ignored as the callers do.\<close>

definition ring_push_all :: "'a RingBuffer \<Rightarrow> 'a list \<Rightarrow> 'a RingBuffer" where
  "ring_push_all r ms = fold (\<lambda>m r. snd (ring_push r m)) ms r"

lemma ring_push_all_simps [simp]:
  "ring_push_all r [] = r"
  "ring_push_all r (m # ms) = ring_push_all (snd (ring_push r m)) ms"
  "ring_push_all r (ms @ ns) = ring_push_all (ring_push_all r ms) ns"
  by (simp_all add: ring_push_all_def)

section \<open>The bounded queue interface\<close>

text \<open>Popping up to \<open>n\<close> times, collecting what comes out.\<close>

fun pop_n :: "('q \<Rightarrow> 'a option \<times> 'q) \<Rightarrow> nat \<Rightarrow> 'q \<Rightarrow> 'a list \<times> 'q" where
  "pop_n pop 0 q = ([], q)"
| "pop_n pop (Suc n) q =
     (case pop q of (None, q') \<Rightarrow> ([], q')
      | (Some x, q') \<Rightarrow> (let (xs, q'') = pop_n pop n q' in (x # xs, q'')))"

locale bounded_queue =
  fixes push :: "'q \<Rightarrow> 'a \<Rightarrow> bool \<times> 'q"
    and pop :: "'q \<Rightarrow> 'a option \<times> 'q"
    and contents :: "'q \<Rightarrow> 'a list"
    and cap :: "'q \<Rightarrow> nat"
    and inv :: "'q \<Rightarrow> bool"
  assumes push_room: "inv q \<Longrightarrow> length (contents q) < cap q \<Longrightarrow>
      fst (push q x) \<and> contents (snd (push q x)) = contents q @ [x]"
    and push_full: "inv q \<Longrightarrow> cap q \<le> length (contents q) \<Longrightarrow> push q x = (False, q)"
    and pop_empty: "inv q \<Longrightarrow> contents q = [] \<Longrightarrow> pop q = (None, q)"
    and pop_front: "inv q \<Longrightarrow> contents q = x # xs \<Longrightarrow>
      fst (pop q) = Some x \<and> contents (snd (pop q)) = xs"
    and inv_push: "inv q \<Longrightarrow> inv (snd (push q x)) \<and> cap (snd (push q x)) = cap q"
    and inv_pop: "inv q \<Longrightarrow> inv (snd (pop q)) \<and> cap (snd (pop q)) = cap q"
    and within_cap: "inv q \<Longrightarrow> length (contents q) \<le> cap q"
begin

lemma contents_push:
  "inv q \<Longrightarrow> contents (snd (push q x)) = take (cap q) (contents q @ [x])"
  using push_room [of q x] push_full [of q x] within_cap [of q] by (cases "length (contents q) < cap q") auto

lemma inv_push_all:
  "inv q \<Longrightarrow> inv (fold (\<lambda>m r. snd (push r m)) ms q) \<and> cap (fold (\<lambda>m r. snd (push r m)) ms q) = cap q"
  by (induction ms arbitrary: q) (auto simp: inv_push)

lemma contents_push_all:
  "inv q \<Longrightarrow> contents (fold (\<lambda>m r. snd (push r m)) ms q) = take (cap q) (contents q @ ms)"
proof (induction ms arbitrary: q)
  case Nil
  then show ?case using within_cap [of q] by simp
next
  case (Cons m ms)
  then have "contents (fold (\<lambda>m r. snd (push r m)) ms (snd (push q m))) =
      take (cap q) (take (cap q) (contents q @ [m]) @ ms)"
    using inv_push [of q m] by (simp add: contents_push)
  also have "\<dots> = take (cap q) (contents q @ m # ms)"
  proof (cases "length (contents q) < cap q")
    case True then show ?thesis by simp
  next
    case False
    with within_cap [OF Cons.prems] have "length (contents q) = cap q" by simp
    then show ?thesis by simp
  qed
  finally show ?case by simp
qed

lemma pop_n_contents:
  "inv q \<Longrightarrow> contents q = xs @ ys \<Longrightarrow>
   fst (pop_n pop (length xs) q) = xs \<and> contents (snd (pop_n pop (length xs) q)) = ys"
proof (induction xs arbitrary: q)
  case Nil
  then show ?case by simp
next
  case (Cons x xs)
  then have p: "fst (pop q) = Some x" "contents (snd (pop q)) = xs @ ys" "inv (snd (pop q))"
    using pop_front [of q x "xs @ ys"] inv_pop [of q] by auto
  from p(1) obtain q' where "pop q = (Some x, q')" by (cases "pop q") auto
  with p Cons.IH [of q'] show ?case by (auto split: prod.splits)
qed

lemma push_all_then_drain:
  assumes "inv q" and "length (contents q) + length ms \<le> cap q"
  shows "fst (pop_n pop (length (contents q) + length ms) (fold (\<lambda>m r. snd (push r m)) ms q))
         = contents q @ ms"
  using pop_n_contents [of "fold (\<lambda>m r. snd (push r m)) ms q" "contents q @ ms" "[]"]
    contents_push_all [OF assms(1), of ms] inv_push_all [OF assms(1), of ms] assms(2)
  by simp

end

section \<open>The ring implements it\<close>

definition ring_log :: "'a RingBuffer \<Rightarrow> nat \<Rightarrow> bool" where
  "ring_log r k \<longleftrightarrow> k < 32 \<and> length (buffer r) = 2 ^ k \<and> rb_mask r = mask k
     \<and> unat (write_idx r) < 2 ^ k \<and> unat (read_idx r) < 2 ^ k"

definition ring_inv :: "'a RingBuffer \<Rightarrow> bool" where
  "ring_inv r \<longleftrightarrow> (\<exists>k. ring_log r k)"

definition ring_used :: "'a RingBuffer \<Rightarrow> nat" where
  "ring_used r = (unat (write_idx r) + length (buffer r) - unat (read_idx r)) mod length (buffer r)"

definition ring_contents :: "'a RingBuffer \<Rightarrow> 'a list" where
  "ring_contents r =
     map (\<lambda>i. buffer r ! ((unat (read_idx r) + i) mod length (buffer r))) [0..<ring_used r]"

definition ring_cap :: "'a RingBuffer \<Rightarrow> nat" where
  "ring_cap r = length (buffer r) - 1"

lemma unat_next_idx [ring_simps]:
  assumes "ring_log r k"
  shows "unat (next_idx r i) = (unat i + 1) mod 2 ^ k"
proof -
  have k: "k < 32" and m: "rb_mask r = mask k" using assms by (auto simp: ring_log_def)
  have "(ucast (rb_mask r) :: size_t) = mask k"
    using k by (intro bit_word_eqI) (auto simp: m bit_simps)
  then have "next_idx r i = take_bit k (i + 1)"
    by (simp add: next_idx_def take_bit_eq_mask)
  then have "unat (next_idx r i) = unat (i + 1) mod 2 ^ k"
    by (simp only: unsigned_take_bit_eq) (rule take_bit_eq_mod)
  also have "\<dots> = (unat i + 1) mod 2 ^ 64 mod 2 ^ k"
    by (simp add: unat_word_ariths)
  also have "\<dots> = (unat i + 1) mod 2 ^ k"
    by (rule mod_mod_cancel, rule le_imp_power_dvd) (use k in simp)
  finally show ?thesis .
qed

lemma Suc_mod_if: "a < n \<Longrightarrow> (a + 1) mod n = (if a + 1 = n then 0 else a + 1)" for a n :: nat
  by auto

lemma ring_used_if:
  assumes "ring_log r k"
  shows "ring_used r = (if read_idx r \<le> write_idx r then unat (write_idx r) - unat (read_idx r)
                        else unat (write_idx r) + 2 ^ k - unat (read_idx r))"
proof -
  have b: "length (buffer r) = 2 ^ k" "unat (write_idx r) < 2 ^ k" "unat (read_idx r) < 2 ^ k"
    using assms by (auto simp: ring_log_def)
  show ?thesis
  proof (cases "read_idx r \<le> write_idx r")
    case True
    then have "unat (write_idx r) + 2 ^ k - unat (read_idx r)
        = 2 ^ k + (unat (write_idx r) - unat (read_idx r))"
      by (simp add: word_le_nat_alt)
    then have "ring_used r = (2 ^ k + (unat (write_idx r) - unat (read_idx r))) mod 2 ^ k"
      by (simp only: ring_used_def b)
    also have "\<dots> = unat (write_idx r) - unat (read_idx r)"
      using b by (simp del: add_diff_assoc)
    finally show ?thesis using True by simp
  next
    case False
    then show ?thesis using b by (simp add: ring_used_def word_le_nat_alt)
  qed
qed

lemma ring_used_lt: "ring_log r k \<Longrightarrow> ring_used r < 2 ^ k"
  by (simp add: ring_used_def ring_log_def)

lemma ring_used_eq_0: "ring_log r k \<Longrightarrow> ring_used r = 0 \<longleftrightarrow> read_idx r = write_idx r"
  by (auto simp: ring_used_if ring_log_def word_le_nat_alt word_unat_eq_iff split: if_splits)

lemma ring_full_iff:
  assumes "ring_log r k"
  shows "next_idx r (write_idx r) = read_idx r \<longleftrightarrow> ring_used r = 2 ^ k - 1"
proof -
  have b: "unat (write_idx r) < 2 ^ k" "unat (read_idx r) < 2 ^ k"
    using assms by (auto simp: ring_log_def)
  show ?thesis
    using b unfolding word_unat_eq_iff unat_next_idx [OF assms] Suc_mod_if [OF b(1)]
      ring_used_if [OF assms] word_le_nat_alt
    by auto
qed

lemma length_ring_contents [simp]: "length (ring_contents r) = ring_used r"
  by (simp add: ring_contents_def)

lemma ring_log_push: "ring_log r k \<Longrightarrow> ring_log (snd (ring_push r x)) k"
  using unat_next_idx [of r k "write_idx r"]
  by (auto simp: ring_push_def Let_def ring_log_def)

lemma ring_log_pop: "ring_log r k \<Longrightarrow> ring_log (snd (ring_pop r)) k"
  using unat_next_idx [of r k "read_idx r"]
  by (auto simp: ring_pop_def Let_def ring_log_def)

lemma ring_used_push:
  assumes r: "ring_log r k" and room: "ring_used r < 2 ^ k - 1"
  shows "ring_used (snd (ring_push r x)) = ring_used r + 1"
proof -
  let ?r = "snd (ring_push r x)"
  have b: "unat (write_idx r) < 2 ^ k" "unat (read_idx r) < 2 ^ k"
    using r by (auto simp: ring_log_def)
  have "next_idx r (write_idx r) \<noteq> read_idx r" using room ring_full_iff [OF r] by auto
  then have w: "read_idx ?r = read_idx r" "unat (write_idx ?r) = (unat (write_idx r) + 1) mod 2 ^ k"
    by (simp_all add: ring_push_def Let_def unat_next_idx [OF r])
  show ?thesis
    using room b unfolding ring_used_if [OF r] ring_used_if [OF ring_log_push [OF r]]
      word_le_nat_alt w Suc_mod_if [OF b(1)]
    by (auto split: if_splits)
qed

lemma ring_used_pop:
  assumes r: "ring_log r k" and ne: "ring_used r \<noteq> 0"
  shows "ring_used (snd (ring_pop r)) = ring_used r - 1"
proof -
  let ?r = "snd (ring_pop r)"
  have b: "unat (write_idx r) < 2 ^ k" "unat (read_idx r) < 2 ^ k"
    using r by (auto simp: ring_log_def)
  have "read_idx r \<noteq> write_idx r" using ne ring_used_eq_0 [OF r] by auto
  then have w: "write_idx ?r = write_idx r" "unat (read_idx ?r) = (unat (read_idx r) + 1) mod 2 ^ k"
    by (simp_all add: ring_pop_def Let_def unat_next_idx [OF r])
  show ?thesis
    using ne b unfolding ring_used_if [OF r] ring_used_if [OF ring_log_pop [OF r]]
      word_le_nat_alt w Suc_mod_if [OF b(2)]
    by (auto split: if_splits)
qed

lemma mod_below_twice: "a < 2 * n \<Longrightarrow> a mod n = (if a < n then a else a - n)" for a n :: nat
  by (auto simp: mod_if le_mod_geq)

lemma ring_slot_eq_write:
  assumes "ring_log r k" and "i \<le> ring_used r"
  shows "(unat (read_idx r) + i) mod 2 ^ k = unat (write_idx r) \<longleftrightarrow> i = ring_used r"
proof -
  have b: "unat (write_idx r) < 2 ^ k" "unat (read_idx r) < 2 ^ k" "ring_used r < 2 ^ k"
    using assms ring_used_lt by (auto simp: ring_log_def)
  then have "unat (read_idx r) + i < 2 * 2 ^ k" using assms by linarith
  then show ?thesis
    using b assms(2) unfolding mod_below_twice [OF \<open>unat (read_idx r) + i < 2 * 2 ^ k\<close>]
      ring_used_if [OF assms(1)] word_le_nat_alt
    by (auto split: if_splits)
qed

lemma ring_contents_push:
  assumes r: "ring_log r k" and room: "ring_used r < 2 ^ k - 1"
  shows "ring_contents (snd (ring_push r x)) = ring_contents r @ [x]"
proof (rule nth_equalityI)
  show "length (ring_contents (snd (ring_push r x))) = length (ring_contents r @ [x])"
    using ring_used_push [OF r room] by simp
next
  fix i assume "i < length (ring_contents (snd (ring_push r x)))"
  then have i: "i \<le> ring_used r" using ring_used_push [OF r room] by simp
  let ?j = "(unat (read_idx r) + i) mod 2 ^ k"
  have len: "length (buffer r) = 2 ^ k" "unat (write_idx r) < 2 ^ k" using r by (auto simp: ring_log_def)
  have "next_idx r (write_idx r) \<noteq> read_idx r" using room ring_full_iff [OF r] by auto
  then have "ring_contents (snd (ring_push r x)) ! i = (buffer r)[unat (write_idx r) := x] ! ?j"
    using i ring_used_push [OF r room, of x]
    by (simp add: ring_contents_def ring_push_def Let_def len del: upt_Suc)
  also have "\<dots> = (if i = ring_used r then x else buffer r ! ?j)"
    using ring_slot_eq_write [OF r i] len by (auto simp: nth_list_update)
  also have "\<dots> = (ring_contents r @ [x]) ! i"
    using i by (auto simp: nth_append ring_contents_def len)
  finally show "ring_contents (snd (ring_push r x)) ! i = (ring_contents r @ [x]) ! i" .
qed

lemma ring_contents_pop:
  assumes r: "ring_log r k" and ne: "ring_used r \<noteq> 0"
  shows "fst (ring_pop r) = Some (hd (ring_contents r))"
    and "ring_contents (snd (ring_pop r)) = tl (ring_contents r)"
proof -
  have len: "length (buffer r) = 2 ^ k" "unat (read_idx r) < 2 ^ k" using r by (auto simp: ring_log_def)
  have neq: "read_idx r \<noteq> write_idx r" using ne ring_used_eq_0 [OF r] by auto
  show "fst (ring_pop r) = Some (hd (ring_contents r))"
    using ne neq len by (simp add: ring_pop_def Let_def ring_contents_def hd_map upt_rec)
  show "ring_contents (snd (ring_pop r)) = tl (ring_contents r)"
  proof (rule nth_equalityI)
    show "length (ring_contents (snd (ring_pop r))) = length (tl (ring_contents r))"
      using ring_used_pop [OF r ne] by simp
  next
    fix i assume "i < length (ring_contents (snd (ring_pop r)))"
    then have i: "Suc i < ring_used r" "i < ring_used (snd (ring_pop r))"
      using ring_used_pop [OF r ne] by auto
    have "((unat (read_idx r) + 1) mod 2 ^ k + i) mod 2 ^ k = (unat (read_idx r) + Suc i) mod 2 ^ k"
      by (simp add: mod_add_left_eq)
    then show "ring_contents (snd (ring_pop r)) ! i = tl (ring_contents r) ! i"
      using i neq by (simp add: ring_contents_def ring_pop_def Let_def nth_tl len unat_next_idx [OF r])
  qed
qed

lemma ring_full_cap: "ring_log r k \<Longrightarrow> ring_cap r \<le> ring_used r \<longleftrightarrow> ring_used r = 2 ^ k - 1"
  using ring_used_lt [of r k] by (auto simp: ring_cap_def ring_log_def)

interpretation ring: bounded_queue ring_push ring_pop ring_contents ring_cap ring_inv
proof
  fix q :: "'a RingBuffer" and x :: 'a and xs
  assume "ring_inv q"
  then obtain k where k: "ring_log q k" by (auto simp: ring_inv_def)
  have len: "length (buffer q) = 2 ^ k" using k by (simp add: ring_log_def)
  show "ring_inv (snd (ring_push q x)) \<and> ring_cap (snd (ring_push q x)) = ring_cap q"
    using ring_log_push [OF k, of x] len by (auto simp: ring_inv_def ring_cap_def ring_log_def)
  show "ring_inv (snd (ring_pop q)) \<and> ring_cap (snd (ring_pop q)) = ring_cap q"
    using ring_log_pop [OF k] len by (auto simp: ring_inv_def ring_cap_def ring_log_def)
  show "length (ring_contents q) \<le> ring_cap q"
    using ring_used_lt [OF k] len by (simp add: ring_cap_def)
  show "ring_cap q \<le> length (ring_contents q) \<Longrightarrow> ring_push q x = (False, q)"
    using ring_full_cap [OF k] ring_full_iff [OF k] by (simp add: ring_push_def Let_def)
  show "ring_contents q = [] \<Longrightarrow> ring_pop q = (None, q)"
    using ring_used_eq_0 [OF k] by (simp add: ring_pop_def flip: length_0_conv)
  show "ring_contents q = x # xs \<Longrightarrow>
      fst (ring_pop q) = Some x \<and> ring_contents (snd (ring_pop q)) = xs"
    using ring_contents_pop [OF k] by (metis length_ring_contents list.distinct(1) list.sel(1,3) length_0_conv)
  assume "length (ring_contents q) < ring_cap q"
  then have room: "ring_used q < 2 ^ k - 1" by (simp add: ring_cap_def len)
  then have "next_idx q (write_idx q) \<noteq> read_idx q" using ring_full_iff [OF k] by auto
  then show "fst (ring_push q x) \<and> ring_contents (snd (ring_push q x)) = ring_contents q @ [x]"
    using ring_contents_push [OF k room] by (simp add: ring_push_def Let_def)
qed

section \<open>Construction and size\<close>

lemma mask_eq_pow: "(mask k :: 32 word) = 2 ^ k - 1"
  by (simp add: mask_eq_exp_minus_1)

lemma pow_and_pred: "k < 32 \<Longrightarrow> (2 ^ k :: 32 word) AND (2 ^ k - 1) = 0"
  by (intro bit_word_eqI) (auto simp: bit_simps simp flip: mask_eq_pow)

lemma ring_new_log:
  assumes "k < 32"
  shows "\<exists>r. RingBuffer_new z (2 ^ k) = Some r \<and> ring_log r k \<and> ring_contents r = []
     \<and> ring_cap r = 2 ^ k - 1"
proof -
  have "unat (2 ^ k :: 32 word) = 2 ^ k" using assms by (rule unat_pow_32)
  with assms show ?thesis
    by (simp add: RingBuffer_new_def pow_and_pred ring_log_def ring_contents_def ring_used_def
        ring_cap_def mask_eq_pow)
qed

lemma ring_size_used:
  assumes r: "ring_log r k"
  shows "unat (ring_size r) = ring_used r"
proof -
  have b: "k < 32" "unat (write_idx r) < 2 ^ k" "unat (read_idx r) < 2 ^ k" "rb_mask r = mask k"
    using r by (auto simp: ring_log_def)
  have N: "unat (ucast (rb_mask r + 1) :: size_t) = 2 ^ k"
    using b(1) by (simp add: b mask_eq_pow unat_ucast_32_64 unat_pow_32)
  have lt: "(2 :: nat) ^ k < 4294967296" using b(1) by (rule pow_lt_2_32)
  show ?thesis
  proof (cases "read_idx r \<le> write_idx r")
    case True
    then show ?thesis by (simp add: ring_size_def ring_used_if [OF r] unat_sub)
  next
    case False
    have "unat (ring_size r) = (2 ^ k + unat (write_idx r - read_idx r)) mod 2 ^ 64"
      using False N by (simp add: ring_size_def unat_word_ariths)
    also have "unat (write_idx r - read_idx r) = unat (write_idx r) + 2 ^ 64 - unat (read_idx r)"
      using False by (simp add: unat_sub_if' word_le_nat_alt)
    also have "(2 ^ k + (unat (write_idx r) + 2 ^ 64 - unat (read_idx r))) mod 2 ^ 64
        = (unat (write_idx r) + 2 ^ k - unat (read_idx r) + 2 ^ 64) mod 2 ^ 64"
      using b lt by (intro arg_cong [where f = "\<lambda>n. n mod 2 ^ 64"]) simp
    also have "\<dots> = unat (write_idx r) + 2 ^ k - unat (read_idx r)"
      by (subst mod_add_self2) (use b lt in simp)
    finally show ?thesis using False by (simp add: ring_used_if [OF r])
  qed
qed

section \<open>Properties\<close>

text \<open>
  FIFO round trip. A new ring of \<open>2 ^ k\<close> cells hands back, in order, every sequence of fewer
  than \<open>2 ^ k\<close> elements pushed into it.
\<close>

theorem ring_roundtrip:
  assumes "k < 32" and "length ms < 2 ^ k"
  shows "\<exists>r. RingBuffer_new z (2 ^ k) = Some r \<and> fst (pop_n ring_pop (length ms) (ring_push_all r ms)) = ms"
proof -
  obtain r where r: "RingBuffer_new z (2 ^ k) = Some r" "ring_log r k" "ring_contents r = []" "ring_cap r = 2 ^ k - 1"
    using ring_new_log [OF assms(1), of z] by (elim exE conjE)
  then have "ring_inv r" by (auto simp: ring_inv_def)
  from ring.push_all_then_drain [OF this, of ms] r assms(2) show ?thesis by (auto simp: ring_push_all_def)
qed

theorem ring_roundtrip_witness:
  "\<exists>r. RingBuffer_new (0 :: nat) (2 ^ 2) = Some r
     \<and> fst (pop_n ring_pop (length [5, 6, 7 :: nat]) (ring_push_all r [5, 6, 7])) = [5, 6, 7]"
  by (rule ring_roundtrip) simp_all

text \<open>
  C22: the ring is a bounded queue. \<^verbatim>\<open>push\<close> appends and returns true while fewer than
  \<open>capacity - 1\<close> elements are queued, and otherwise returns false and changes nothing; \<^verbatim>\<open>pop\<close>
  removes the oldest element, and on an empty ring returns false and changes nothing.
\<close>

theorem ring_is_bounded_queue:
  assumes "ring_inv r"
  shows "ring_inv (snd (ring_push r x)) \<and> ring_inv (snd (ring_pop r))
     \<and> (if length (ring_contents r) < length (buffer r) - 1
        then fst (ring_push r x) \<and> ring_contents (snd (ring_push r x)) = ring_contents r @ [x]
        else ring_push r x = (False, r))
     \<and> (case ring_contents r of [] \<Rightarrow> ring_pop r = (None, r)
        | y # ys \<Rightarrow> fst (ring_pop r) = Some y \<and> ring_contents (snd (ring_pop r)) = ys)"
  using ring.inv_push [OF assms] ring.inv_pop [OF assms] ring.push_room [OF assms, of x]
    ring.push_full [OF assms, of x] ring.pop_empty [OF assms] ring.pop_front [OF assms]
  by (auto simp: ring_cap_def not_less split: list.splits)

theorem ring_is_bounded_queue_witness:
  "ring_push \<lparr>write_idx = 1, read_idx = 0, buffer = [4, 5 :: nat], rb_mask = 1\<rparr> 9
     = (False, \<lparr>write_idx = 1, read_idx = 0, buffer = [4, 5], rb_mask = 1\<rparr>)"
proof -
  let ?r = "\<lparr>write_idx = 1, read_idx = 0, buffer = [4, 5 :: nat], rb_mask = 1\<rparr> :: nat RingBuffer"
  have "ring_log ?r 1" by (simp add: ring_log_def mask_eq_pow)
  then have "ring_inv ?r" by (auto simp: ring_inv_def)
  moreover have "length (ring_contents ?r) = 1" by (simp add: ring_used_def) code_simp
  ultimately show ?thesis using ring_is_bounded_queue [of ?r 9] by simp
qed

text \<open>
  \<^verbatim>\<open>size()\<close> and \<^verbatim>\<open>empty()\<close> agree with the contents, in spite of the unsigned wrap-around of the
  index difference, and one cell always stays free.
\<close>

theorem ring_size_exact:
  assumes "ring_inv r"
  shows "unat (ring_size r) = length (ring_contents r) \<and> length (ring_contents r) < length (buffer r)
     \<and> (ring_empty r \<longleftrightarrow> ring_contents r = [])"
proof -
  obtain k where k: "ring_log r k" using assms by (auto simp: ring_inv_def)
  have "ring_empty r \<longleftrightarrow> ring_contents r = []"
    using ring_used_eq_0 [OF k] by (auto simp: ring_empty_def simp flip: length_0_conv)
  then show ?thesis using ring_size_used [OF k] ring_used_lt [OF k] k by (simp add: ring_log_def)
qed

theorem ring_size_exact_witness:
  "unat (ring_size \<lparr>write_idx = 0, read_idx = 1, buffer = [4, 5 :: nat], rb_mask = 1\<rparr>)
     = length (ring_contents \<lparr>write_idx = 0, read_idx = 1, buffer = [4, 5 :: nat], rb_mask = 1\<rparr>)"
proof -
  have "ring_log (\<lparr>write_idx = 0, read_idx = 1, buffer = [4, 5 :: nat], rb_mask = 1\<rparr> :: nat RingBuffer) 1"
    by (simp add: ring_log_def mask_eq_pow)
  then have "ring_inv (\<lparr>write_idx = 0, read_idx = 1, buffer = [4, 5 :: nat], rb_mask = 1\<rparr> :: nat RingBuffer)"
    by (auto simp: ring_inv_def)
  from ring_size_exact [OF this] show ?thesis by blast
qed

end
