(* ===== verification/Order_Pool.thy ===== *)
theory Order_Pool
  imports Ring_Buffer
begin

text \<open>
  The order object and its owner: \<^verbatim>\<open>engine/include/order_request.hpp\<close>,
  \<^verbatim>\<open>order.hpp\<close> and \<^verbatim>\<open>order_pool.hpp\<close>.

  The arena of the pool is the heap of the order book: an \<^verbatim>\<open>Order*\<close> is the index of its slot
  in the arena (type \<open>slot\<close>), a null pointer is \<open>None\<close>, and the arena maps each slot to the
  order stored there. The vector \<^verbatim>\<open>arena_\<close> is sized once by the constructor and never
  resized, so \<open>arena_size\<close> is constant. \<^verbatim>\<open>free_list_\<close> is a vector used as a stack, its
  back being the last list element.
\<close>

section \<open>OrderRequest\<close>

record OrderRequest =
  req_message_type :: MessageType
  req_order_id :: OrderId
  req_client_id :: ClientId
  req_side :: Side
  req_type :: OrderType
  req_price :: Price
  req_quantity :: Quantity
  req_recv_tsc :: Timestamp
  req_server_push_tsc :: Timestamp
  req_engine_pop_tsc :: Timestamp

section \<open>Order\<close>

type_synonym slot = nat

record Order =
  o_recv_tsc :: Timestamp
  o_id :: OrderId
  o_prev :: "slot option"
  o_next :: "slot option"
  o_client_id :: ClientId
  o_price :: Price
  o_initial_quantity :: Quantity
  o_remaining_quantity :: Quantity
  o_side :: Side
  o_order_type :: OrderType

text \<open>\<^verbatim>\<open>Order() = default\<close>, value-initialised by \<^verbatim>\<open>vector<Order>(capacity)\<close>.\<close>

definition Order_default :: Order where
  "Order_default =
     \<lparr>o_recv_tsc = 0, o_id = 0, o_prev = None, o_next = None, o_client_id = 0, o_price = 0,
      o_initial_quantity = 0, o_remaining_quantity = 0, o_side = 0, o_order_type = 0\<rparr>"

definition Order_of :: "OrderId \<Rightarrow> OrderRequest \<Rightarrow> Order" where
  "Order_of oid req =
     \<lparr>o_recv_tsc = req_recv_tsc req, o_id = oid, o_prev = None, o_next = None,
      o_client_id = req_client_id req, o_price = req_price req,
      o_initial_quantity = req_quantity req, o_remaining_quantity = req_quantity req,
      o_side = req_side req, o_order_type = req_type req\<rparr>"

definition is_filled :: "Order \<Rightarrow> bool" where
  "is_filled o' \<longleftrightarrow> o_remaining_quantity o' = 0"

definition fill :: "Order \<Rightarrow> Quantity \<Rightarrow> Order res" where
  "fill o' quantity =
     (if o_remaining_quantity o' < quantity then fail Fill_Too_Large
      else ok (o'\<lparr>o_remaining_quantity := o_remaining_quantity o' - quantity\<rparr>))"

lemma fill_ok [simp]:
  "q \<le> o_remaining_quantity o' \<Longrightarrow>
   fill o' q = ok (o'\<lparr>o_remaining_quantity := o_remaining_quantity o' - q\<rparr>)"
  by (simp add: fill_def leD)

section \<open>OrderPool\<close>

type_synonym arena = "slot \<Rightarrow> Order"

record OrderPool =
  arena :: arena
  arena_size :: nat
  free_list :: "slot list"

definition OrderPool_new :: "nat \<Rightarrow> OrderPool" where
  "OrderPool_new capacity =
     \<lparr>arena = (\<lambda>_. Order_default), arena_size = capacity, free_list = rev [0..<capacity]\<rparr>"

definition allocate :: "OrderPool \<Rightarrow> OrderId \<Rightarrow> OrderRequest \<Rightarrow> slot option \<times> OrderPool" where
  "allocate pool oid req =
     (if free_list pool = [] then (None, pool)
      else let slot = last (free_list pool)
           in (Some slot,
               pool\<lparr>free_list := butlast (free_list pool),
                    arena := (arena pool)(slot := Order_of oid req)\<rparr>))"

definition deallocate :: "OrderPool \<Rightarrow> slot \<Rightarrow> OrderPool" where
  "deallocate pool order = pool\<lparr>free_list := free_list pool @ [order]\<rparr>"

definition pool_capacity :: "OrderPool \<Rightarrow> nat" where
  "pool_capacity pool = arena_size pool"

definition available :: "OrderPool \<Rightarrow> nat" where
  "available pool = length (free_list pool)"

definition in_use :: "OrderPool \<Rightarrow> nat" where
  "in_use pool = arena_size pool - length (free_list pool)"

text \<open>
  The ownership discipline: \<open>pool_owns pool used\<close> says that the slots handed out are exactly
  \<open>used\<close>, the others being on the free list, each once.
\<close>

definition pool_owns :: "OrderPool \<Rightarrow> slot set \<Rightarrow> bool" where
  "pool_owns pool used \<longleftrightarrow>
     distinct (free_list pool) \<and> set (free_list pool) \<inter> used = {}
     \<and> set (free_list pool) \<union> used = {..<arena_size pool}"

lemma pool_owns_new: "pool_owns (OrderPool_new n) {}"
  by (auto simp: pool_owns_def OrderPool_new_def)

lemma pool_owns_finite: "pool_owns pool used \<Longrightarrow> finite used"
  unfolding pool_owns_def by (metis finite_Un finite_lessThan)

lemma pool_owns_card: "pool_owns pool used \<Longrightarrow> available pool + card used = arena_size pool"
  using card_Un_disjoint [of "set (free_list pool)" used] pool_owns_finite [of pool used]
  by (auto simp: pool_owns_def available_def distinct_card)

lemma pool_owns_in_use: "pool_owns pool used \<Longrightarrow> in_use pool = card used"
  using pool_owns_card [of pool used] by (simp add: in_use_def available_def)

lemma allocate_fresh:
  assumes own: "pool_owns pool used" and "allocate pool oid req = (Some s, pool')"
  shows "s \<notin> used" "pool_owns pool' (insert s used)"
    "arena pool' = (arena pool)(s := Order_of oid req)" "arena_size pool' = arena_size pool"
proof -
  from assms(2) have f: "free_list pool \<noteq> []" and s: "s = last (free_list pool)"
    and p': "pool' = pool\<lparr>free_list := butlast (free_list pool),
                          arena := (arena pool)(s := Order_of oid req)\<rparr>"
    by (auto simp: allocate_def Let_def split: if_splits)
  obtain fs where fs: "free_list pool = fs @ [s]"
    using f s by (metis append_butlast_last_id)
  show "s \<notin> used" "pool_owns pool' (insert s used)"
    "arena pool' = (arena pool)(s := Order_of oid req)" "arena_size pool' = arena_size pool"
    using own p' fs by (auto simp: pool_owns_def)
qed

lemma allocate_None: "fst (allocate pool oid req) = None \<longleftrightarrow> available pool = 0"
  by (simp add: allocate_def available_def Let_def)

lemma allocate_exhausted: "available pool = 0 \<Longrightarrow> allocate pool oid req = (None, pool)"
  by (simp add: allocate_def available_def)

lemma deallocate_owns:
  "pool_owns pool used \<Longrightarrow> s \<in> used \<Longrightarrow> pool_owns (deallocate pool s) (used - {s})"
  by (auto simp: pool_owns_def deallocate_def)

lemma deallocate_simps [simp]:
  "arena (deallocate pool s) = arena pool"
  "arena_size (deallocate pool s) = arena_size pool"
  by (simp_all add: deallocate_def)

section \<open>Properties\<close>

text \<open>
  The pool never hands out a slot that is in use, keeps the free list and the slots in use a
  partition of the arena, leaves every other order's memory alone, and giving the slot back
  restores the free list.
\<close>

theorem pool_allocate_fresh:
  assumes "pool_owns pool used" and "allocate pool oid req = (Some s, pool')"
  shows "s \<notin> used \<and> s < arena_size pool \<and> pool_owns pool' (insert s used)
     \<and> arena pool' s = Order_of oid req \<and> (\<forall>t. t \<noteq> s \<longrightarrow> arena pool' t = arena pool t)
     \<and> free_list (deallocate pool' s) = free_list pool"
proof -
  note a = allocate_fresh [OF assms]
  have "s < arena_size pool'" using a(2) by (auto simp: pool_owns_def)
  moreover have "free_list (deallocate pool' s) = free_list pool"
    using assms(2) by (auto simp: allocate_def deallocate_def Let_def split: if_splits)
  ultimately show ?thesis using a by simp
qed

theorem pool_allocate_fresh_witness:
  "2 \<notin> {0, 1 :: slot} \<and> free_list (deallocate (snd (allocate
     \<lparr>arena = (\<lambda>_. Order_default), arena_size = 3, free_list = [2]\<rparr> 9
     \<lparr>req_message_type = 0, req_order_id = 9, req_client_id = 1, req_side = 0, req_type = 1, req_price = 5,
      req_quantity = 6, req_recv_tsc = 0, req_server_push_tsc = 0, req_engine_pop_tsc = 0\<rparr>)) 2) = [2]"
proof -
  let ?p = "\<lparr>arena = (\<lambda>_. Order_default), arena_size = 3, free_list = [2]\<rparr>"
  let ?q = "\<lparr>req_message_type = 0, req_order_id = 9, req_client_id = 1, req_side = 0, req_type = 1, req_price = 5,
      req_quantity = 6, req_recv_tsc = 0, req_server_push_tsc = 0, req_engine_pop_tsc = 0\<rparr>"
  have "pool_owns ?p {0, 1}" by (auto simp: pool_owns_def)
  moreover have "allocate ?p 9 ?q = (Some 2, snd (allocate ?p 9 ?q))" by (simp add: allocate_def)
  ultimately show ?thesis using pool_allocate_fresh [of ?p "{0, 1}" 9 ?q 2 "snd (allocate ?p 9 ?q)"] by simp
qed

end
