(* ===== verification/Price_Level_Queue.thy ===== *)
theory Price_Level_Queue
  imports Order_Pool
begin

text \<open>
  \<^verbatim>\<open>engine/include/price_level_queue.hpp\<close>: the FIFO of the orders resting at one price, an
  intrusive doubly linked list threaded through \<^verbatim>\<open>prev_\<close>/\<^verbatim>\<open>next_\<close> of the orders in the
  pool's arena.

  The operations take and return the arena, since they write the links of the orders they
  touch. \<open>plq_rep h q xs\<close> relates a queue in the heap \<open>h\<close> to the list \<open>xs\<close> of its slots;
  the operations are shown to append, to drop the head and to delete from the middle, which is
  the contract stated by the locale \<open>level_fifo\<close>.
\<close>

section \<open>The class\<close>

record PriceLevelQueue =
  head :: "slot option"
  tail :: "slot option"
  plq_size :: size_t

definition PriceLevelQueue_new :: PriceLevelQueue where
  "PriceLevelQueue_new = \<lparr>head = None, tail = None, plq_size = 0\<rparr>"

definition set_next :: "arena \<Rightarrow> slot \<Rightarrow> slot option \<Rightarrow> arena" where
  "set_next h s n = h(s := (h s)\<lparr>o_next := n\<rparr>)"

definition set_prev :: "arena \<Rightarrow> slot \<Rightarrow> slot option \<Rightarrow> arena" where
  "set_prev h s p = h(s := (h s)\<lparr>o_prev := p\<rparr>)"

definition plq_push :: "arena \<Rightarrow> PriceLevelQueue \<Rightarrow> slot \<Rightarrow> arena \<times> PriceLevelQueue" where
  "plq_push h q new_order =
     (let q1 = (if head q = None then q\<lparr>head := Some new_order\<rparr> else q);
          h1 = (case tail q1 of None \<Rightarrow> h
                | Some t \<Rightarrow> set_prev (set_next h t (Some new_order)) new_order (Some t))
      in (h1, q1\<lparr>tail := Some new_order, plq_size := plq_size q1 + 1\<rparr>))"

definition plq_pop :: "arena \<Rightarrow> PriceLevelQueue \<Rightarrow> slot option \<times> arena \<times> PriceLevelQueue" where
  "plq_pop h q =
     (case head q of None \<Rightarrow> (None, h, q)
      | Some res \<Rightarrow>
          (let new_head = o_next (h res)
           in case new_head of
                Some hd' \<Rightarrow> (Some res, set_prev h hd' None,
                             q\<lparr>head := new_head, plq_size := plq_size q - 1\<rparr>)
              | None \<Rightarrow> (Some res, h,
                         q\<lparr>head := new_head, tail := None, plq_size := plq_size q - 1\<rparr>)))"

definition plq_front :: "PriceLevelQueue \<Rightarrow> slot option" where
  "plq_front q = head q"

definition plq_remove :: "arena \<Rightarrow> PriceLevelQueue \<Rightarrow> slot \<Rightarrow> arena \<times> PriceLevelQueue" where
  "plq_remove h q to_remove =
     (let prev = o_prev (h to_remove); next = o_next (h to_remove);
          (h1, q1) = (case prev of Some p \<Rightarrow> (set_next h p next, q)
                      | None \<Rightarrow> (h, q\<lparr>head := next\<rparr>));
          (h2, q2) = (case next of Some n \<Rightarrow> (set_prev h1 n prev, q1)
                      | None \<Rightarrow> (h1, q1\<lparr>tail := prev\<rparr>))
      in (h2, q2\<lparr>plq_size := plq_size q2 - 1\<rparr>))"

definition plq_empty :: "PriceLevelQueue \<Rightarrow> bool" where
  "plq_empty q \<longleftrightarrow> head q = None"

section \<open>Doubly linked segments\<close>

text \<open>The first slot of a segment, or what follows the segment if it is empty; dually the last.\<close>

definition first_or :: "slot list \<Rightarrow> slot option \<Rightarrow> slot option" where
  "first_or xs n = (case xs of [] \<Rightarrow> n | x # _ \<Rightarrow> Some x)"

definition last_or :: "slot option \<Rightarrow> slot list \<Rightarrow> slot option" where
  "last_or p xs = (if xs = [] then p else Some (last xs))"

lemma first_or_simps [simp]:
  "first_or [] n = n" "first_or (x # xs) n = Some x"
  "first_or (xs @ ys) n = first_or xs (first_or ys n)"
  by (auto simp: first_or_def split: list.split)

lemma last_or_simps [simp]:
  "last_or p [] = p" "last_or p (x # xs) = last_or (Some x) xs"
  "last_or p (xs @ ys) = last_or (last_or p xs) ys"
  by (auto simp: last_or_def)

primrec dseg :: "arena \<Rightarrow> slot option \<Rightarrow> slot list \<Rightarrow> slot option \<Rightarrow> bool" where
  "dseg h p [] n = True"
| "dseg h p (x # xs) n = (o_prev (h x) = p \<and> o_next (h x) = first_or xs n \<and> dseg h (Some x) xs n)"

lemma dseg_append:
  "dseg h p (xs @ ys) n \<longleftrightarrow> dseg h p xs (first_or ys n) \<and> dseg h (last_or p xs) ys n"
  by (induction xs arbitrary: p) (auto split: list.splits)

text \<open>Frame rule: a segment only depends on the links of its own slots.\<close>

lemma dseg_cong:
  "(\<And>x. x \<in> set xs \<Longrightarrow> o_prev (h' x) = o_prev (h x) \<and> o_next (h' x) = o_next (h x)) \<Longrightarrow>
   dseg h' p xs n = dseg h p xs n"
  by (induction xs arbitrary: p) auto

lemma dseg_set_notin [simp]:
  "x \<notin> set xs \<Longrightarrow> dseg (set_next h x v) p xs n = dseg h p xs n"
  "x \<notin> set xs \<Longrightarrow> dseg (set_prev h x v) p xs n = dseg h p xs n"
  by (auto intro!: dseg_cong simp: set_next_def set_prev_def)

text \<open>Redirecting the two ends of a segment.\<close>

lemma dseg_set_prev_first:
  "distinct (x # xs) \<Longrightarrow> dseg h p (x # xs) n \<Longrightarrow> dseg (set_prev h x p') p' (x # xs) n"
  using dseg_set_notin(2) [of x xs h p' "Some x" n] by (auto simp: set_prev_def)

lemma dseg_set_next_last:
  assumes "distinct (xs @ [x])" and "dseg h p (xs @ [x]) n"
  shows "dseg (set_next h x n') p (xs @ [x]) n'"
  using assms dseg_set_notin(1) [of x xs h n' p "Some x"]
  by (simp add: dseg_append) (simp add: set_next_def)

lemma links_set [simp]:
  "o_prev (set_next h s v x) = o_prev (h x)"
  "o_next (set_prev h s v x) = o_next (h x)"
  "o_prev (set_prev h s v x) = (if x = s then v else o_prev (h x))"
  "o_next (set_next h s v x) = (if x = s then v else o_next (h x))"
  by (simp_all add: set_next_def set_prev_def)

section \<open>Representation\<close>

definition plq_rep :: "arena \<Rightarrow> PriceLevelQueue \<Rightarrow> slot list \<Rightarrow> bool" where
  "plq_rep h q xs \<longleftrightarrow> distinct xs \<and> dseg h None xs None
     \<and> head q = first_or xs None \<and> tail q = last_or None xs \<and> plq_size q = of_nat (length xs)"

text \<open>
  The payload of an order is everything but its links: the queue operations leave the payload
  of every order alone.
\<close>

definition strip :: "Order \<Rightarrow> Order" where
  "strip o' = o'\<lparr>o_prev := None, o_next := None\<rparr>"

definition same_payload :: "arena \<Rightarrow> arena \<Rightarrow> bool" where
  "same_payload h h' \<longleftrightarrow> (\<forall>x. strip (h' x) = strip (h x))"

lemma same_payload_refl [simp]: "same_payload h h"
  by (simp add: same_payload_def)

lemma strip_set [simp]: "strip (set_next h s v x) = strip (h x)" "strip (set_prev h s v x) = strip (h x)"
  by (simp_all add: strip_def set_next_def set_prev_def)

lemma plq_rep_new: "plq_rep h PriceLevelQueue_new []"
  by (simp add: plq_rep_def PriceLevelQueue_new_def)

lemma plq_rep_empty: "plq_rep h q xs \<Longrightarrow> plq_empty q \<longleftrightarrow> xs = []"
  by (auto simp: plq_rep_def plq_empty_def first_or_def split: list.splits)

lemma plq_rep_front: "plq_rep h q xs \<Longrightarrow> plq_front q = (case xs of [] \<Rightarrow> None | x # _ \<Rightarrow> Some x)"
  by (auto simp: plq_rep_def plq_front_def first_or_def)

lemma plq_rep_frame:
  "plq_rep h q xs \<Longrightarrow> (\<And>x. x \<in> set xs \<Longrightarrow> o_prev (h' x) = o_prev (h x) \<and> o_next (h' x) = o_next (h x))
   \<Longrightarrow> plq_rep h' q xs"
  unfolding plq_rep_def using dseg_cong [of xs h' h None None] by blast

lemma plq_push_rep:
  assumes "plq_rep h q xs" and "x \<notin> set xs" and "o_prev (h x) = None" and "o_next (h x) = None"
  shows "plq_rep (fst (plq_push h q x)) (snd (plq_push h q x)) (xs @ [x])"
proof (cases xs rule: rev_cases)
  case Nil
  with assms show ?thesis by (simp add: plq_rep_def plq_push_def Let_def)
next
  case (snoc ys t)
  with assms have "distinct (ys @ [t])" "dseg h None (ys @ [t]) None" "x \<noteq> t" "x \<notin> set ys"
    by (auto simp: plq_rep_def)
  then have "dseg (set_prev (set_next h t (Some x)) x (Some t)) None (ys @ [t]) (Some x)"
    by (simp add: dseg_set_next_last)
  with assms snoc \<open>x \<noteq> t\<close> show ?thesis
    by (cases ys) (auto simp: plq_rep_def plq_push_def Let_def dseg_append last_or_def)
qed

lemma plq_pop_rep:
  assumes "plq_rep h q (x # xs)"
  shows "plq_rep (fst (snd (plq_pop h q))) (snd (snd (plq_pop h q))) xs" "fst (plq_pop h q) = Some x"
proof -
  have d: "distinct (x # xs)" "dseg h None (x # xs) None" "head q = Some x"
    using assms by (auto simp: plq_rep_def)
  show "fst (plq_pop h q) = Some x" using d by (simp add: plq_pop_def Let_def split: option.split)
  show "plq_rep (fst (snd (plq_pop h q))) (snd (snd (plq_pop h q))) xs"
  proof (cases xs)
    case Nil
    with assms show ?thesis by (simp add: plq_rep_def plq_pop_def Let_def)
  next
    case (Cons y ys)
    with d have "dseg (set_prev h y None) None (y # ys) None"
      by (intro dseg_set_prev_first [of y ys h "Some x"]) auto
    with assms Cons show ?thesis by (auto simp: plq_rep_def plq_pop_def Let_def)
  qed
qed

lemma plq_remove_rep:
  assumes "plq_rep h q (us @ x # vs)"
  shows "plq_rep (fst (plq_remove h q x)) (snd (plq_remove h q x)) (us @ vs)"
proof -
  have d: "distinct (us @ x # vs)" "dseg h None us (Some x)" "dseg h (Some x) vs None"
      "o_prev (h x) = last_or None us" "o_next (h x) = first_or vs None"
      "head q = first_or us (Some x)" "tail q = last_or (Some x) vs"
      "plq_size q = of_nat (length us + length vs) + 1"
    using assms by (auto simp: plq_rep_def dseg_append)
  let ?h1 = "(case last_or None us of Some p \<Rightarrow> set_next h p (first_or vs None) | None \<Rightarrow> h)"
  let ?h2 = "(case first_or vs None of Some n \<Rightarrow> set_prev ?h1 n (last_or None us) | None \<Rightarrow> ?h1)"
  have 1: "dseg ?h1 None us (first_or vs None)" "dseg ?h1 (Some x) vs None"
  proof -
    show "dseg ?h1 None us (first_or vs None)"
    proof (cases us rule: rev_cases)
      case (snoc us' u)
      then have "dseg (set_next h u (first_or vs None)) None (us' @ [u]) (first_or vs None)"
        using d(1,2) by (intro dseg_set_next_last) auto
      with snoc show ?thesis by simp
    qed simp
    show "dseg ?h1 (Some x) vs None"
      using d(1,3) by (cases us rule: rev_cases) auto
  qed
  have 2: "dseg ?h2 None us (first_or vs None) \<and> dseg ?h2 (last_or None us) vs None"
  proof (cases vs)
    case (Cons v vs')
    then have "dseg (set_prev ?h1 v (last_or None us)) (last_or None us) (v # vs') None"
      using d(1) 1(2) by (intro dseg_set_prev_first [of v vs' ?h1 "Some x"]) auto
    with Cons d(1) 1(1) show ?thesis by auto
  qed (use 1 in auto)
  have f: "fst (plq_remove h q x) = ?h2"
    by (simp add: plq_remove_def Let_def d split: option.split)
  have hd: "head (snd (plq_remove h q x)) = (if last_or None us = None then first_or vs None else head q)"
    by (simp add: plq_remove_def Let_def d(4,5) split: option.split)
  have tl: "tail (snd (plq_remove h q x)) = (if first_or vs None = None then last_or None us else tail q)"
    by (simp add: plq_remove_def Let_def d(4,5) split: option.split)
  have "head (snd (plq_remove h q x)) = first_or (us @ vs) None"
    unfolding hd d(6) by (cases us) (auto simp: last_or_def)
  moreover have "tail (snd (plq_remove h q x)) = last_or None (us @ vs)"
    unfolding tl d(7) by (cases vs) (auto simp: last_or_def)
  moreover have "plq_size (snd (plq_remove h q x)) = of_nat (length us + length vs)"
    by (simp add: plq_remove_def Let_def d split: option.split)
  ultimately show ?thesis using d(1) 2 f by (simp add: plq_rep_def dseg_append)
qed

text \<open>What the operations leave alone: payloads everywhere, links outside the queue.\<close>

lemma plq_payload:
  "strip (fst (plq_push h q x) y) = strip (h y)"
  "strip (fst (snd (plq_pop h q)) y) = strip (h y)"
  "strip (fst (plq_remove h q x) y) = strip (h y)"
  by (auto simp: plq_push_def plq_pop_def plq_remove_def Let_def split: option.splits)

lemma plq_push_frame:
  "plq_rep h q xs \<Longrightarrow> y \<notin> set xs \<Longrightarrow> y \<noteq> x \<Longrightarrow> fst (plq_push h q x) y = h y"
  by (cases xs rule: rev_cases)
    (auto simp: plq_rep_def plq_push_def Let_def set_next_def set_prev_def last_or_def split: option.splits)

lemma plq_pop_frame:
  "plq_rep h q xs \<Longrightarrow> y \<notin> set xs \<Longrightarrow> fst (snd (plq_pop h q)) y = h y"
  by (cases xs; cases "tl xs")
    (auto simp: plq_rep_def plq_pop_def Let_def set_prev_def split: option.splits)

lemma plq_remove_frame:
  assumes "plq_rep h q xs" and "x \<in> set xs" and "y \<notin> set xs"
  shows "fst (plq_remove h q x) y = h y"
proof -
  obtain us vs where xs: "xs = us @ x # vs" using assms(2) by (meson split_list)
  then have d: "o_prev (h x) = last_or None us" "o_next (h x) = first_or vs None"
    using assms(1) by (auto simp: plq_rep_def dseg_append)
  have "last_or None us = Some p \<Longrightarrow> p \<in> set us" "first_or vs None = Some n \<Longrightarrow> n \<in> set vs" for p n
    by (auto simp: last_or_def first_or_def split: if_splits list.splits)
  with d assms(3) xs show ?thesis
    by (fastforce simp: plq_remove_def Let_def set_next_def set_prev_def split: option.splits)
qed

section \<open>The FIFO contract\<close>

locale level_fifo =
  fixes rep :: "'h \<Rightarrow> 'q \<Rightarrow> 's list \<Rightarrow> bool"
    and fresh :: "'h \<Rightarrow> 's \<Rightarrow> bool"
    and push :: "'h \<Rightarrow> 'q \<Rightarrow> 's \<Rightarrow> 'h \<times> 'q"
    and pop :: "'h \<Rightarrow> 'q \<Rightarrow> 's option \<times> 'h \<times> 'q"
    and remove :: "'h \<Rightarrow> 'q \<Rightarrow> 's \<Rightarrow> 'h \<times> 'q"
    and empty :: "'q \<Rightarrow> bool"
    and front :: "'q \<Rightarrow> 's option"
  assumes rep_distinct: "rep h q xs \<Longrightarrow> distinct xs"
    and rep_empty: "rep h q xs \<Longrightarrow> empty q \<longleftrightarrow> xs = []"
    and rep_front: "rep h q (x # xs) \<Longrightarrow> front q = Some x"
    and rep_push: "rep h q xs \<Longrightarrow> x \<notin> set xs \<Longrightarrow> fresh h x \<Longrightarrow>
      rep (fst (push h q x)) (snd (push h q x)) (xs @ [x])"
    and fresh_push: "rep h q xs \<Longrightarrow> y \<notin> set xs \<Longrightarrow> y \<noteq> x \<Longrightarrow> fresh h y \<Longrightarrow>
      fresh (fst (push h q x)) y"
    and rep_pop: "rep h q (x # xs) \<Longrightarrow>
      fst (pop h q) = Some x \<and> rep (fst (snd (pop h q))) (snd (snd (pop h q))) xs"
    and rep_remove: "rep h q (us @ x # vs) \<Longrightarrow>
      rep (fst (remove h q x)) (snd (remove h q x)) (us @ vs)"
begin

text \<open>Time priority: what was queued, oldest first, is what comes out, in that order.\<close>

lemma push_all_rep:
  assumes "rep h q xs" and "distinct ys" and "set xs \<inter> set ys = {}" and "\<forall>y \<in> set ys. fresh h y"
  shows "case fold (\<lambda>y (h, q). push h q y) ys (h, q) of (h', q') \<Rightarrow> rep h' q' (xs @ ys)"
  using assms
proof (induction ys arbitrary: h q xs)
  case (Cons y ys)
  obtain h1 q1 where p: "push h q y = (h1, q1)" by fastforce
  have "rep h1 q1 (xs @ [y])" using rep_push [of h q xs y] Cons.prems p by auto
  moreover have "\<forall>z \<in> set ys. fresh h1 z"
    using fresh_push [of h q xs _ y] Cons.prems p by fastforce
  ultimately show ?case using Cons.IH [of h1 q1 "xs @ [y]"] Cons.prems p by auto
qed simp

lemma pop_all_rep:
  assumes "rep h q (xs @ ys)"
  shows "case pop_n (\<lambda>(h, q). pop h q) (length xs) (h, q) of
           (out, h', q') \<Rightarrow> out = xs \<and> rep h' q' ys"
  using assms
proof (induction xs arbitrary: h q)
  case (Cons x xs)
  then obtain h1 q1 where "pop h q = (Some x, h1, q1)" "rep h1 q1 (xs @ ys)"
    using rep_pop [of h q x "xs @ ys"] by (cases "pop h q") auto
  with Cons.IH [of h1 q1] show ?case by (auto split: prod.splits)
qed simp

end

definition unlinked :: "arena \<Rightarrow> slot \<Rightarrow> bool" where
  "unlinked h x \<longleftrightarrow> o_prev (h x) = None \<and> o_next (h x) = None"

interpretation plq: level_fifo plq_rep unlinked plq_push plq_pop plq_remove plq_empty plq_front
proof
  fix h q and xs us vs :: "slot list" and x y
  show "plq_rep h q xs \<Longrightarrow> distinct xs" by (simp add: plq_rep_def)
  show "plq_rep h q xs \<Longrightarrow> plq_empty q = (xs = [])" by (rule plq_rep_empty)
  show "plq_rep h q (x # xs) \<Longrightarrow> plq_front q = Some x" using plq_rep_front by fastforce
  show "plq_rep h q xs \<Longrightarrow> x \<notin> set xs \<Longrightarrow> unlinked h x \<Longrightarrow>
      plq_rep (fst (plq_push h q x)) (snd (plq_push h q x)) (xs @ [x])"
    by (simp add: unlinked_def plq_push_rep)
  show "plq_rep h q xs \<Longrightarrow> y \<notin> set xs \<Longrightarrow> y \<noteq> x \<Longrightarrow> unlinked h y \<Longrightarrow>
      unlinked (fst (plq_push h q x)) y"
    by (simp add: unlinked_def plq_push_frame)
  show "plq_rep h q (x # xs) \<Longrightarrow> fst (plq_pop h q) = Some x
      \<and> plq_rep (fst (snd (plq_pop h q))) (snd (snd (plq_pop h q))) xs"
    by (simp add: plq_pop_rep)
  show "plq_rep h q (us @ x # vs) \<Longrightarrow>
      plq_rep (fst (plq_remove h q x)) (snd (plq_remove h q x)) (us @ vs)"
    by (rule plq_remove_rep)
qed

section \<open>Properties\<close>

text \<open>
  A price level is a queue with deletion. On a level that holds the slots \<open>xs\<close>, oldest first:
  \<^verbatim>\<open>push\<close> of a fresh order appends it, \<^verbatim>\<open>pop\<close> returns and drops the oldest, \<^verbatim>\<open>remove\<close> deletes an
  order from any position, and \<^verbatim>\<open>empty()\<close>, \<^verbatim>\<open>front()\<close> and \<^verbatim>\<open>size()\<close> report the list.
\<close>

theorem price_level_is_queue:
  assumes "plq_rep h q xs"
  shows "(x \<notin> set xs \<and> unlinked h x \<longrightarrow> (case plq_push h q x of (h', q') \<Rightarrow> plq_rep h' q' (xs @ [x])))
     \<and> (case xs of [] \<Rightarrow> plq_pop h q = (None, h, q)
        | y # ys \<Rightarrow> (case plq_pop h q of (r, h', q') \<Rightarrow> r = Some y \<and> plq_rep h' q' ys))
     \<and> (\<forall>us z vs. xs = us @ z # vs \<longrightarrow> (case plq_remove h q z of (h', q') \<Rightarrow> plq_rep h' q' (us @ vs)))
     \<and> (plq_empty q \<longleftrightarrow> xs = []) \<and> plq_size q = of_nat (length xs)"
proof (intro conjI)
  show "x \<notin> set xs \<and> unlinked h x \<longrightarrow> (case plq_push h q x of (h', q') \<Rightarrow> plq_rep h' q' (xs @ [x]))"
    using plq.rep_push [OF assms, of x] by (auto split: prod.splits)
  show "case xs of [] \<Rightarrow> plq_pop h q = (None, h, q)
      | y # ys \<Rightarrow> (case plq_pop h q of (r, h', q') \<Rightarrow> r = Some y \<and> plq_rep h' q' ys)"
  proof (cases xs)
    case Nil
    then have "head q = None" using plq.rep_empty [OF assms] by (simp add: plq_empty_def)
    with Nil show ?thesis by (simp add: plq_pop_def)
  next
    case (Cons y ys)
    then show ?thesis using plq.rep_pop [of h q y ys] assms by (simp add: split_beta)
  qed
  show "\<forall>us z vs. xs = us @ z # vs \<longrightarrow> (case plq_remove h q z of (h', q') \<Rightarrow> plq_rep h' q' (us @ vs))"
    using plq.rep_remove [of h q] assms by (auto simp: split_beta)
  show "plq_empty q \<longleftrightarrow> xs = []" by (rule plq.rep_empty [OF assms])
  show "plq_size q = of_nat (length xs)" using assms by (simp add: plq_rep_def)
qed

theorem price_level_is_queue_witness:
  "case plq_push (\<lambda>_. Order_default) PriceLevelQueue_new 3 of (h', q') \<Rightarrow> plq_rep h' q' [3]"
  using price_level_is_queue [OF plq_rep_new, of 3 "\<lambda>_. Order_default"]
  by (simp add: unlinked_def Order_default_def)

text \<open>
  Time priority at one price. Orders pushed one after another onto a new level are popped in
  the order of arrival.
\<close>

theorem price_level_fifo:
  assumes "distinct ys" and "\<forall>y \<in> set ys. unlinked h y"
  shows "fst (pop_n (\<lambda>(h, q). plq_pop h q) (length ys)
      (fold (\<lambda>y (h, q). plq_push h q y) ys (h, PriceLevelQueue_new))) = ys"
proof -
  obtain h' q' where f: "fold (\<lambda>y (h, q). plq_push h q y) ys (h, PriceLevelQueue_new) = (h', q')" by fastforce
  then have "plq_rep h' q' ys" using plq.push_all_rep [OF plq_rep_new, of ys h] assms by simp
  then show ?thesis using plq.pop_all_rep [of h' q' ys "[]"] f by (auto split: prod.splits)
qed

theorem price_level_fifo_witness:
  "fst (pop_n (\<lambda>(h, q). plq_pop h q) (length [4, 2 :: slot])
     (fold (\<lambda>y (h, q). plq_push h q y) [4, 2] (\<lambda>_. Order_default, PriceLevelQueue_new))) = [4, 2]"
  by (rule price_level_fifo) (simp_all add: unlinked_def Order_default_def)

end
