(* ===== verification/Orderbook.thy ===== *)
theory Orderbook
  imports Price_Level_Queue
begin

text \<open>
  \<^verbatim>\<open>engine/include/orderbook.hpp\<close> and \<^verbatim>\<open>engine/src/orderbook.cpp\<close>: the price-time-priority
  book. The record has the members of the class; the level arrays are functions of the array
  index, and every access goes through \<open>level_get\<close>, which faults when the index
  \<^verbatim>\<open>price - MIN_PRICE\<close> is past the end of the \<^verbatim>\<open>std::array\<close>.

  The source writes each operation once for the bids and once for the asks with the two sides
  exchanged; here the two texts are one definition over a \<open>book_side\<close>, whose selectors
  (\<open>levels\<close>, \<open>best\<close>, \<open>non_empty\<close>) pick the member the source names. The \<^verbatim>\<open>while\<close> loops
  are \<^theory_text>\<open>partial_function (option)\<close>s or functions with a termination proof, one
  recursive call per iteration.
\<close>

section \<open>State\<close>

type_synonym Levels = "32 word \<Rightarrow> PriceLevelQueue"

record Orderbook =
  pool :: OrderPool
  bids :: Levels
  asks :: Levels
  orders :: "OrderId \<rightharpoonup> slot"
  best_bid_price :: Price
  best_ask_price :: Price
  non_empty_bid_levels :: size_t
  non_empty_ask_levels :: size_t
  out_ring :: "OutboundMessage RingBuffer"

text \<open>
  The constructor; \<open>capacity\<close> is \<^verbatim>\<open>PREALLOCATION_COUNT\<close>.
\<close>

definition PREALLOCATION_COUNT :: nat where "PREALLOCATION_COUNT = 1000000"

definition Orderbook_new :: "nat \<Rightarrow> OutboundMessage RingBuffer \<Rightarrow> Orderbook" where
  "Orderbook_new capacity ring =
     \<lparr>pool = OrderPool_new capacity, bids = (\<lambda>_. PriceLevelQueue_new),
      asks = (\<lambda>_. PriceLevelQueue_new), orders = Map.empty,
      best_bid_price = MIN_PRICE, best_ask_price = MAX_PRICE,
      non_empty_bid_levels = 0, non_empty_ask_levels = 0, out_ring = ring\<rparr>"

record ProcessResult =
  status :: Status
  suppress_ack :: bool

section \<open>The two sides\<close>

datatype book_side = Bids | Asks

definition side_of :: "Side \<Rightarrow> book_side" where
  "side_of s = (if s = BID then Bids else Asks)"

fun levels :: "Orderbook \<Rightarrow> book_side \<Rightarrow> Levels" where
  "levels b Bids = bids b"
| "levels b Asks = asks b"

fun set_levels :: "book_side \<Rightarrow> Levels \<Rightarrow> Orderbook \<Rightarrow> Orderbook" where
  "set_levels Bids l b = b\<lparr>bids := l\<rparr>"
| "set_levels Asks l b = b\<lparr>asks := l\<rparr>"

fun best :: "Orderbook \<Rightarrow> book_side \<Rightarrow> Price" where
  "best b Bids = best_bid_price b"
| "best b Asks = best_ask_price b"

fun set_best :: "book_side \<Rightarrow> Price \<Rightarrow> Orderbook \<Rightarrow> Orderbook" where
  "set_best Bids p b = b\<lparr>best_bid_price := p\<rparr>"
| "set_best Asks p b = b\<lparr>best_ask_price := p\<rparr>"

fun non_empty :: "Orderbook \<Rightarrow> book_side \<Rightarrow> size_t" where
  "non_empty b Bids = non_empty_bid_levels b"
| "non_empty b Asks = non_empty_ask_levels b"

fun set_non_empty :: "book_side \<Rightarrow> size_t \<Rightarrow> Orderbook \<Rightarrow> Orderbook" where
  "set_non_empty Bids n b = b\<lparr>non_empty_bid_levels := n\<rparr>"
| "set_non_empty Asks n b = b\<lparr>non_empty_ask_levels := n\<rparr>"

text \<open>The best price of an empty side, and when a price improves on the best one.\<close>

fun worst :: "book_side \<Rightarrow> Price" where
  "worst Bids = MIN_PRICE"
| "worst Asks = MAX_PRICE"

fun better :: "book_side \<Rightarrow> Price \<Rightarrow> Price \<Rightarrow> bool" where
  "better Bids p q \<longleftrightarrow> q < p"
| "better Asks p q \<longleftrightarrow> p < q"

section \<open>Access to levels and orders\<close>

definition level_get :: "Levels \<Rightarrow> Price \<Rightarrow> PriceLevelQueue res" where
  "level_get l p =
     (if p - MIN_PRICE < MAX_PRICE - MIN_PRICE + 1 then ok (l (p - MIN_PRICE))
      else fail Index_Out_Of_Range)"

definition deref :: "Orderbook \<Rightarrow> slot \<Rightarrow> Order" where
  "deref b s = arena (pool b) s"

definition set_arena :: "arena \<Rightarrow> Orderbook \<Rightarrow> Orderbook" where
  "set_arena h b = b\<lparr>pool := (pool b)\<lparr>arena := h\<rparr>\<rparr>"

definition set_level :: "book_side \<Rightarrow> Price \<Rightarrow> PriceLevelQueue \<Rightarrow> Orderbook \<Rightarrow> Orderbook" where
  "set_level s p q b = set_levels s ((levels b s)(p - MIN_PRICE := q)) b"

text \<open>\<^verbatim>\<open>bids_[price - MIN_PRICE].push(&order)\<close>, \<^verbatim>\<open>.pop()\<close> and \<^verbatim>\<open>.remove(order)\<close>.\<close>

definition level_push :: "Orderbook \<Rightarrow> book_side \<Rightarrow> Price \<Rightarrow> slot \<Rightarrow> Orderbook res" where
  "level_push b s p x =
     rbind (level_get (levels b s) p) (\<lambda>q.
       let (h', q') = plq_push (arena (pool b)) q x in ok (set_arena h' (set_level s p q' b)))"

definition level_pop :: "Orderbook \<Rightarrow> book_side \<Rightarrow> Price \<Rightarrow> Orderbook res" where
  "level_pop b s p =
     rbind (level_get (levels b s) p) (\<lambda>q.
       let (_, h', q') = plq_pop (arena (pool b)) q in ok (set_arena h' (set_level s p q' b)))"

definition level_remove :: "Orderbook \<Rightarrow> book_side \<Rightarrow> Price \<Rightarrow> slot \<Rightarrow> Orderbook res" where
  "level_remove b s p x =
     rbind (level_get (levels b s) p) (\<lambda>q.
       let (h', q') = plq_remove (arena (pool b)) q x in ok (set_arena h' (set_level s p q' b)))"

text \<open>\<^verbatim>\<open>orders_.erase(id); pool_.deallocate(order);\<close>\<close>

definition erase_order :: "OrderId \<Rightarrow> slot \<Rightarrow> Orderbook \<Rightarrow> Orderbook" where
  "erase_order oid x b = b\<lparr>orders := (orders b)(oid := None), pool := deallocate (pool b) x\<rparr>"

section \<open>The best-price scans\<close>

function scan_bid :: "Levels \<Rightarrow> Price \<Rightarrow> Price res" where
  "scan_bid l p =
     (if MIN_PRICE < p
      then rbind (level_get l p) (\<lambda>q. if plq_empty q then scan_bid l (p - 1) else ok p)
      else ok p)"
  by pat_completeness auto
termination
proof (relation "measure (\<lambda>(l, p). unat p)")
  fix l :: Levels and p :: Price and q
  assume "MIN_PRICE < p"
  then have "p \<noteq> 0" by auto
  then show "((l, p - 1), (l, p)) \<in> measure (\<lambda>(l, p). unat p)"
    by (simp add: unat_minus_one unat_gt_0)
qed simp

function scan_ask :: "Levels \<Rightarrow> Price \<Rightarrow> Price res" where
  "scan_ask l p =
     (if p < MAX_PRICE
      then rbind (level_get l p) (\<lambda>q. if plq_empty q then scan_ask l (p + 1) else ok p)
      else ok p)"
  by pat_completeness auto
termination
proof (relation "measure (\<lambda>(l, p). unat MAX_PRICE - unat p)")
  fix l :: Levels and p :: Price and q
  assume "p < MAX_PRICE"
  then have lt: "unat p < 100000" by (simp add: word_less_nat_alt MAX_PRICE_def)
  then have "unat (p + 1) = unat p + 1" by (simp add: unat_word_ariths)
  with lt show "((l, p + 1), (l, p)) \<in> measure (\<lambda>(l, p). unat MAX_PRICE - unat p)"
    by (simp add: MAX_PRICE_def)
qed simp

declare scan_bid.simps [simp del] scan_ask.simps [simp del]

definition update_best_bid :: "Orderbook \<Rightarrow> Orderbook res" where
  "update_best_bid b = rbind (scan_bid (bids b) (best_bid_price b)) (\<lambda>p. ok (b\<lparr>best_bid_price := p\<rparr>))"

definition update_best_ask :: "Orderbook \<Rightarrow> Orderbook res" where
  "update_best_ask b = rbind (scan_ask (asks b) (best_ask_price b)) (\<lambda>p. ok (b\<lparr>best_ask_price := p\<rparr>))"

fun update_best :: "book_side \<Rightarrow> Orderbook \<Rightarrow> Orderbook res" where
  "update_best Bids b = update_best_bid b"
| "update_best Asks b = update_best_ask b"

text \<open>
  A level that became empty:
  \<^verbatim>\<open>--non_empty; if (non_empty == 0) best = MIN_PRICE; else update_best();\<close>
\<close>

definition level_done :: "book_side \<Rightarrow> Orderbook \<Rightarrow> Orderbook res" where
  "level_done s b =
     (let b1 = set_non_empty s (non_empty b s - 1) b
      in if non_empty b1 s = 0 then ok (set_best s (worst s) b1) else update_best s b1)"

section \<open>Messages and fills\<close>

definition match_msg :: "Order \<Rightarrow> OutboundMessage" where
  "match_msg o' = OutboundMessage_zero
     \<lparr>om_recv_tsc := o_recv_tsc o', om_order_id := o_id o', om_client_id := o_client_id o',
      om_message_type := MATCH, om_status := SUCCESS\<rparr>"

definition market_msg :: "OrderRequest \<Rightarrow> OutboundMessage" where
  "market_msg req = OutboundMessage_zero
     \<lparr>om_recv_tsc := req_recv_tsc req, om_engine_pop_tsc := req_engine_pop_tsc req,
      om_order_id := req_order_id req, om_client_id := req_client_id req,
      om_message_type := MATCH, om_status := SUCCESS\<rparr>"

definition push_out :: "OutboundMessage \<Rightarrow> Orderbook \<Rightarrow> Orderbook" where
  "push_out m b = b\<lparr>out_ring := snd (ring_push (out_ring b) m)\<rparr>"

definition fill_order :: "Orderbook \<Rightarrow> slot \<Rightarrow> Quantity \<Rightarrow> Orderbook res" where
  "fill_order b x q =
     rbind (fill (deref b x) q) (\<lambda>o'. ok (set_arena ((arena (pool b))(x := o')) b))"

text \<open>\<^verbatim>\<open>if (bid->is_filled()) { level.pop(); orders_.erase(bid->id_); pool_.deallocate(bid); }\<close>\<close>

definition retire_filled :: "Orderbook \<Rightarrow> book_side \<Rightarrow> Price \<Rightarrow> slot \<Rightarrow> Orderbook res" where
  "retire_filled b s p x =
     (if is_filled (deref b x)
      then rbind (level_pop b s p) (\<lambda>b1. ok (erase_order (o_id (deref b1 x)) x b1))
      else ok b)"

text \<open>
  The body of the inner loop of \<^verbatim>\<open>matchOrders\<close> once the prices cross: fill both fronts, report,
  retire what is filled and account for a level that became empty. The flag is
  \<^verbatim>\<open>bid_level_done || ask_level_done\<close>.
\<close>

definition match_fronts ::
  "Orderbook \<Rightarrow> Price \<Rightarrow> Price \<Rightarrow> slot \<Rightarrow> slot \<Rightarrow> (Orderbook \<times> bool) res" where
  "match_fronts b pb pa bid ask =
     (let fill_quantity = min (o_remaining_quantity (deref b bid)) (o_remaining_quantity (deref b ask));
          buy_msg = match_msg (deref b bid);
          ask_msg = match_msg (deref b ask)
      in rbind (fill_order b bid fill_quantity) (\<lambda>b1.
         rbind (fill_order b1 ask fill_quantity) (\<lambda>b2.
         rbind (retire_filled (push_out ask_msg (push_out buy_msg b2)) Bids pb bid) (\<lambda>b3.
         rbind (retire_filled b3 Asks pa ask) (\<lambda>b4.
         rbind (level_get (bids b4) pb) (\<lambda>highest_bids.
         rbind (level_get (asks b4) pa) (\<lambda>lowest_asks.
         let bid_level_done = plq_empty highest_bids;
             ask_level_done = plq_empty lowest_asks
         in rbind (if bid_level_done then level_done Bids b4 else ok b4) (\<lambda>b5.
            rbind (if ask_level_done then level_done Asks b5 else ok b5) (\<lambda>b6.
            ok (b6, bid_level_done \<or> ask_level_done))))))))))"

text \<open>
  The inner loop of \<^verbatim>\<open>matchOrders\<close>; \<open>pb\<close> and \<open>pa\<close> are the prices whose levels
  \<^verbatim>\<open>highest_bids\<close> and \<^verbatim>\<open>lowest_asks\<close> refer to, \<open>lm\<close> is \<^verbatim>\<open>level_matched\<close> and
  \<open>af\<close> is \<^verbatim>\<open>any_filled\<close>.
\<close>

partial_function (option) match_level ::
  "Orderbook \<Rightarrow> Price \<Rightarrow> Price \<Rightarrow> bool \<Rightarrow> bool \<Rightarrow> (Orderbook \<times> bool \<times> bool) res" where
  [code]: "match_level b pb pa lm af =
     rbind (level_get (bids b) pb) (\<lambda>highest_bids.
     rbind (level_get (asks b) pa) (\<lambda>lowest_asks.
     if \<not> plq_empty highest_bids \<and> \<not> plq_empty lowest_asks
     then case plq_front highest_bids of None \<Rightarrow> fail Null_Pointer | Some bid \<Rightarrow>
          (case plq_front lowest_asks of None \<Rightarrow> fail Null_Pointer | Some ask \<Rightarrow>
           if best_bid_price b < best_ask_price b then ok (b, lm, af)
           else rbind (match_fronts b pb pa bid ask) (\<lambda>r.
                if snd r then ok (fst r, True, True)
                else match_level (fst r) pb pa True True))
     else ok (b, lm, af)))"

partial_function (option) match_loop :: "Orderbook \<Rightarrow> bool \<Rightarrow> (Orderbook \<times> bool) res" where
  [code]: "match_loop b any_filled =
     (if 0 < non_empty_bid_levels b \<and> 0 < non_empty_ask_levels b
      then rbind (match_level b (best_bid_price b) (best_ask_price b) False any_filled) (\<lambda>r.
           if fst (snd r) then match_loop (fst r) (snd (snd r)) else ok (fst r, snd (snd r)))
      else ok (b, any_filled))"

definition matchOrders :: "Orderbook \<Rightarrow> (Orderbook \<times> bool) res" where
  "matchOrders b = match_loop b False"

text \<open>One of the two loops of \<^verbatim>\<open>matchMarket\<close>: the request trades against side \<open>s\<close>.\<close>

partial_function (option) market_loop ::
  "book_side \<Rightarrow> OrderRequest \<Rightarrow> Orderbook \<Rightarrow> Quantity \<Rightarrow> (Orderbook \<times> bool) res" where
  [code]: "market_loop s req b remaining =
     (if 0 < non_empty b s \<and> 0 < remaining
      then rbind (level_get (levels b s) (best b s)) (\<lambda>level.
           if plq_empty level then ok (b, False)
           else case plq_front level of None \<Rightarrow> fail Null_Pointer | Some x \<Rightarrow>
             (let p = best b s;
                  fill_quantity = min remaining (o_remaining_quantity (deref b x));
                  order_msg = match_msg (deref b x)
              in rbind (fill_order b x fill_quantity) (\<lambda>b1.
                 rbind (retire_filled (push_out order_msg (push_out (market_msg req) b1)) s p x) (\<lambda>b2.
                 rbind (level_get (levels b2 s) p) (\<lambda>level'.
                 rbind (if plq_empty level' then level_done s b2 else ok b2) (\<lambda>b3.
                 market_loop s req b3 (remaining - fill_quantity)))))))
      else ok (b, remaining = 0))"

definition matchMarket :: "Orderbook \<Rightarrow> OrderRequest \<Rightarrow> (Orderbook \<times> bool) res" where
  "matchMarket b req =
     (if req_side req = BID then market_loop Asks req b (req_quantity req)
      else if req_side req = ASK then market_loop Bids req b (req_quantity req)
      else ok (b, req_quantity req = 0))"

definition canMatch :: "Orderbook \<Rightarrow> Side \<Rightarrow> Price \<Rightarrow> bool" where
  "canMatch b side price =
     (if side = BID then (if non_empty_ask_levels b = 0 then False else best_ask_price b \<le> price)
      else if non_empty_bid_levels b = 0 then False else price \<le> best_bid_price b)"

section \<open>State modifications\<close>

definition addOrder :: "Orderbook \<Rightarrow> OrderRequest \<Rightarrow> (Orderbook \<times> bool) res" where
  "addOrder b req =
     (if req_type req = MARKET then matchMarket b req
      else if orders b (req_order_id req) \<noteq> None then ok (b, False)
      else case allocate (pool b) (req_order_id req) req of
             (None, pool') \<Rightarrow> ok (b\<lparr>pool := pool'\<rparr>, False)
           | (Some x, pool') \<Rightarrow>
              (let b1 = b\<lparr>pool := pool', orders := (orders b)(req_order_id req \<mapsto> x)\<rparr>;
                   s = side_of (o_side (deref b1 x));
                   p = o_price (deref b1 x)
               in rbind (level_get (levels b1 s) p) (\<lambda>level.
                  let b2 = (if plq_empty level then set_non_empty s (non_empty b1 s + 1) b1 else b1)
                  in rbind (level_push b2 s p x) (\<lambda>b3.
                     matchOrders (if better s p (best b3 s) then set_best s p b3 else b3)))))"

definition cancelOrder :: "Orderbook \<Rightarrow> OrderId \<Rightarrow> Orderbook res" where
  "cancelOrder b oid =
     (case orders b oid of None \<Rightarrow> fail Map_At_Missing
      | Some x \<Rightarrow>
         (let price = o_price (deref b x); s = side_of (o_side (deref b x))
          in rbind (level_remove b s price x) (\<lambda>b1.
             rbind (level_get (levels b1 s) price) (\<lambda>level.
             rbind (if plq_empty level
                    then (let b2 = set_non_empty s (non_empty b1 s - 1) b1
                          in if non_empty b2 s = 0 then ok (set_best s (worst s) b2)
                             else if price = best b2 s then update_best s b2
                             else ok b2)
                    else ok b1) (\<lambda>b3.
             ok (erase_order oid x b3))))))"

definition modifyOrder :: "Orderbook \<Rightarrow> OrderRequest \<Rightarrow> (Orderbook \<times> bool) res" where
  "modifyOrder b req =
     (case orders b (req_order_id req) of None \<Rightarrow> fail Map_At_Missing
      | Some x \<Rightarrow>
         if req_price req \<noteq> o_price (deref b x) \<or> req_quantity req \<noteq> o_initial_quantity (deref b x)
         then rbind (cancelOrder b (req_order_id req)) (\<lambda>b1. addOrder b1 req)
         else (let b1 = set_arena ((arena (pool b))(x := (deref b x)\<lparr>o_recv_tsc := req_recv_tsc req\<rparr>)) b
               in if req_type req = MARKET then matchMarket b1 req else matchOrders b1))"

section \<open>The entry point\<close>

definition process :: "Orderbook \<Rightarrow> OrderRequest \<Rightarrow> (Orderbook \<times> ProcessResult) res" where
  "process b req =
     (if req_message_type req = NEW
      then rbind (addOrder b req) (\<lambda>r. ok (fst r, \<lparr>status = SUCCESS, suppress_ack = snd r\<rparr>))
      else if req_message_type req = CANCEL
      then (case orders b (req_order_id req) of
              None \<Rightarrow> ok (b, \<lparr>status = FAILURE, suppress_ack = False\<rparr>)
            | Some x \<Rightarrow>
               if o_client_id (deref b x) \<noteq> req_client_id req
               then ok (b, \<lparr>status = FAILURE, suppress_ack = False\<rparr>)
               else rbind (cancelOrder b (req_order_id req)) (\<lambda>b1.
                      ok (b1, \<lparr>status = SUCCESS, suppress_ack = False\<rparr>)))
      else if req_message_type req = MODIFY
      then (case orders b (req_order_id req) of
              None \<Rightarrow> ok (b, \<lparr>status = FAILURE, suppress_ack = False\<rparr>)
            | Some x \<Rightarrow>
               if o_client_id (deref b x) \<noteq> req_client_id req \<or> o_side (deref b x) \<noteq> req_side req
               then ok (b, \<lparr>status = FAILURE, suppress_ack = False\<rparr>)
               else rbind (modifyOrder b req) (\<lambda>r.
                      ok (fst r, \<lparr>status = SUCCESS, suppress_ack = snd r\<rparr>)))
      else ok (b, \<lparr>status = FAILURE, suppress_ack = False\<rparr>))"

end
