(* ===== verification/Orderbook_Rep.thy ===== *)
theory Orderbook_Rep
  imports Orderbook
begin

text \<open>
  The representation invariant of the order book and what each building block of
  \<^verbatim>\<open>orderbook.cpp\<close> does to it.

  The ghost \<open>sl s p\<close> is the list of slots resting at price \<open>p\<close> on side \<open>s\<close>, oldest first.
  \<open>links_rep\<close> says that every level of the ladder is the intrusive list of its slots,
  \<open>index_rep\<close> that levels, id index and pool agree on which orders exist, \<open>price_rep\<close> that the
  level counter and the cached best price of a side are right. The steps are proved one building
  block at a time, so that the loops only combine them.
\<close>

section \<open>Selectors of updated books\<close>

lemma levels_upd [simp, book_simps]:
  "levels (set_levels s l b) s' = (if s' = s then l else levels b s')"
  "levels (set_best s p b) s' = levels b s'"
  "levels (set_non_empty s n b) s' = levels b s'"
  "levels (set_arena h b) s' = levels b s'"
  "levels (erase_order oid x b) s' = levels b s'"
  "levels (push_out m b) s' = levels b s'"
  "levels (b\<lparr>pool := pl, orders := os\<rparr>) s' = levels b s'"
  "levels (b\<lparr>pool := pl\<rparr>) s' = levels b s'"
  by (cases s; cases s'; simp add: set_arena_def erase_order_def push_out_def)+

lemma best_upd [simp, book_simps]:
  "best (set_levels s l b) s' = best b s'"
  "best (set_best s p b) s' = (if s' = s then p else best b s')"
  "best (set_non_empty s n b) s' = best b s'"
  "best (set_arena h b) s' = best b s'"
  "best (erase_order oid x b) s' = best b s'"
  "best (push_out m b) s' = best b s'"
  "best (b\<lparr>pool := pl, orders := os\<rparr>) s' = best b s'"
  "best (b\<lparr>pool := pl\<rparr>) s' = best b s'"
  by (cases s; cases s'; simp add: set_arena_def erase_order_def push_out_def)+

lemma non_empty_upd [simp, book_simps]:
  "non_empty (set_levels s l b) s' = non_empty b s'"
  "non_empty (set_best s p b) s' = non_empty b s'"
  "non_empty (set_non_empty s n b) s' = (if s' = s then n else non_empty b s')"
  "non_empty (set_arena h b) s' = non_empty b s'"
  "non_empty (erase_order oid x b) s' = non_empty b s'"
  "non_empty (push_out m b) s' = non_empty b s'"
  "non_empty (b\<lparr>pool := pl, orders := os\<rparr>) s' = non_empty b s'"
  "non_empty (b\<lparr>pool := pl\<rparr>) s' = non_empty b s'"
  by (cases s; cases s'; simp add: set_arena_def erase_order_def push_out_def)+

lemma pool_upd [simp, book_simps]:
  "pool (set_levels s l b) = pool b"
  "pool (set_best s p b) = pool b"
  "pool (set_non_empty s n b) = pool b"
  "pool (set_arena h b) = (pool b)\<lparr>arena := h\<rparr>"
  "pool (erase_order oid x b) = deallocate (pool b) x"
  "pool (push_out m b) = pool b"
  by (cases s; simp add: set_arena_def erase_order_def push_out_def)+

lemma orders_upd [simp, book_simps]:
  "orders (set_levels s l b) = orders b"
  "orders (set_best s p b) = orders b"
  "orders (set_non_empty s n b) = orders b"
  "orders (set_arena h b) = orders b"
  "orders (erase_order oid x b) = (orders b)(oid := None)"
  "orders (push_out m b) = orders b"
  by (cases s; simp add: set_arena_def erase_order_def push_out_def)+

lemma out_ring_upd [simp, book_simps]:
  "out_ring (set_levels s l b) = out_ring b"
  "out_ring (set_best s p b) = out_ring b"
  "out_ring (set_non_empty s n b) = out_ring b"
  "out_ring (set_arena h b) = out_ring b"
  "out_ring (erase_order oid x b) = out_ring b"
  "out_ring (push_out m b) = snd (ring_push (out_ring b) m)"
  by (cases s; simp add: set_arena_def erase_order_def push_out_def)+

lemma set_level_upd [simp, book_simps]:
  "levels (set_level s p q b) s' = (if s' = s then (levels b s)(p - MIN_PRICE := q) else levels b s')"
  "best (set_level s p q b) s' = best b s'" "non_empty (set_level s p q b) s' = non_empty b s'"
  "pool (set_level s p q b) = pool b" "orders (set_level s p q b) = orders b"
  "out_ring (set_level s p q b) = out_ring b"
  by (simp_all add: set_level_def)

section \<open>Payload\<close>

definition pay :: "Orderbook \<Rightarrow> slot \<Rightarrow> Order" where
  "pay b x = strip (arena (pool b) x)"

lemma strip_sel [simp]:
  "o_recv_tsc (strip o') = o_recv_tsc o'" "o_id (strip o') = o_id o'"
  "o_client_id (strip o') = o_client_id o'" "o_price (strip o') = o_price o'"
  "o_initial_quantity (strip o') = o_initial_quantity o'"
  "o_remaining_quantity (strip o') = o_remaining_quantity o'"
  "o_side (strip o') = o_side o'" "o_order_type (strip o') = o_order_type o'"
  by (simp_all add: strip_def)

lemma deref_pay [book_simps]:
  "o_recv_tsc (deref b x) = o_recv_tsc (pay b x)" "o_id (deref b x) = o_id (pay b x)"
  "o_client_id (deref b x) = o_client_id (pay b x)" "o_price (deref b x) = o_price (pay b x)"
  "o_initial_quantity (deref b x) = o_initial_quantity (pay b x)"
  "o_remaining_quantity (deref b x) = o_remaining_quantity (pay b x)"
  "o_side (deref b x) = o_side (pay b x)" "o_order_type (deref b x) = o_order_type (pay b x)"
  "match_msg (deref b x) = match_msg (pay b x)" "is_filled (deref b x) = is_filled (pay b x)"
  by (simp_all add: deref_def pay_def match_msg_def is_filled_def)

lemma pay_upd [simp, book_simps]:
  "pay (set_levels s l b) = pay b" "pay (set_best s p b) = pay b"
  "pay (set_non_empty s n b) = pay b" "pay (set_level s p q b) = pay b"
  "pay (erase_order oid x b) = pay b" "pay (push_out m b) = pay b"
  by (auto simp: pay_def)

lemma pay_set_arena: "pay (set_arena h b) = (\<lambda>x. strip (h x))"
  by (auto simp: pay_def)

section \<open>The invariant\<close>

type_synonym ghost = "book_side \<Rightarrow> Price \<Rightarrow> slot list"

definition put :: "ghost \<Rightarrow> book_side \<Rightarrow> Price \<Rightarrow> slot list \<Rightarrow> ghost" where
  "put sl s p xs = sl(s := (sl s)(p := xs))"

lemma put_apply [simp]: "put sl s p xs s' p' = (if s' = s \<and> p' = p then xs else sl s' p')"
  by (simp add: put_def)

definition resting :: "ghost \<Rightarrow> slot set" where
  "resting sl = (\<Union>s p. set (sl s p))"

lemma in_resting: "x \<in> resting sl \<longleftrightarrow> (\<exists>s p. x \<in> set (sl s p))"
  by (simp add: resting_def)

definition links_rep :: "Orderbook \<Rightarrow> ghost \<Rightarrow> bool" where
  "links_rep b sl \<longleftrightarrow>
     (\<forall>s p. valid_price p \<longrightarrow> plq_rep (arena (pool b)) (levels b s (p - MIN_PRICE)) (sl s p))
     \<and> (\<forall>s p. \<not> valid_price p \<longrightarrow> sl s p = [])
     \<and> (\<forall>s p s' p' x. x \<in> set (sl s p) \<longrightarrow> x \<in> set (sl s' p') \<longrightarrow> s' = s \<and> p' = p)"

definition index_rep :: "Orderbook \<Rightarrow> ghost \<Rightarrow> bool" where
  "index_rep b sl \<longleftrightarrow>
     (\<forall>s p x. x \<in> set (sl s p) \<longrightarrow> side_of (o_side (pay b x)) = s \<and> o_price (pay b x) = p
        \<and> orders b (o_id (pay b x)) = Some x)
     \<and> (\<forall>oid x. orders b oid = Some x \<longrightarrow> o_id (pay b x) = oid \<and> x \<in> resting sl)
     \<and> pool_owns (pool b) (resting sl)"

definition best_ok :: "book_side \<Rightarrow> Price \<Rightarrow> (Price \<Rightarrow> slot list) \<Rightarrow> bool" where
  "best_ok s p f \<longleftrightarrow>
     (if \<forall>q. f q = [] then p = worst s else f p \<noteq> [] \<and> (\<forall>q. f q \<noteq> [] \<longrightarrow> \<not> better s q p))"

definition price_rep :: "Orderbook \<Rightarrow> book_side \<Rightarrow> (Price \<Rightarrow> slot list) \<Rightarrow> bool" where
  "price_rep b s f \<longleftrightarrow> non_empty b s = of_nat (card {p. f p \<noteq> []}) \<and> best_ok s (best b s) f"

definition book_rep :: "Orderbook \<Rightarrow> ghost \<Rightarrow> bool" where
  "book_rep b sl \<longleftrightarrow> links_rep b sl \<and> index_rep b sl \<and> (\<forall>s. price_rep b s (sl s))"

lemma level_get_valid [simp]: "valid_price p \<Longrightarrow> level_get l p = ok (l (p - MIN_PRICE))"
  by (simp add: level_get_def index_in_range)

lemma level_get_invalid: "\<not> valid_price p \<Longrightarrow> level_get l p = fail Index_Out_Of_Range"
  by (simp add: level_get_def index_in_range)

lemma links_rep_level:
  "links_rep b sl \<Longrightarrow> valid_price p \<Longrightarrow>
   plq_rep (arena (pool b)) (levels b s (p - MIN_PRICE)) (sl s p)"
  by (simp add: links_rep_def)

lemma links_rep_empty:
  "links_rep b sl \<Longrightarrow> valid_price p \<Longrightarrow> plq_empty (levels b s (p - MIN_PRICE)) \<longleftrightarrow> sl s p = []"
  using links_rep_level plq.rep_empty by blast

lemma links_rep_front:
  "links_rep b sl \<Longrightarrow> valid_price p \<Longrightarrow> sl s p = x # xs \<Longrightarrow>
   plq_front (levels b s (p - MIN_PRICE)) = Some x"
  using links_rep_level [of b sl p s] plq.rep_front by fastforce

lemma links_rep_valid: "links_rep b sl \<Longrightarrow> x \<in> set (sl s p) \<Longrightarrow> valid_price p"
  by (metis links_rep_def empty_iff list.set(1))

lemma links_rep_disj: "links_rep b sl \<Longrightarrow> x \<in> set (sl s p) \<Longrightarrow> x \<in> set (sl s' p') \<Longrightarrow> s' = s \<and> p' = p"
  unfolding links_rep_def by blast

section \<open>Level operations\<close>

text \<open>
  A level operation replaces the arena and one level; if the arena keeps the payloads and the
  links of every slot outside that level, the other levels survive.
\<close>

lemma links_rep_put:
  assumes L: "links_rep b sl" and v: "valid_price p"
    and rep: "plq_rep h' q' xs"
    and frame: "\<And>y. y \<notin> set (sl s p) \<Longrightarrow> y \<notin> set xs \<Longrightarrow> h' y = arena (pool b) y"
    and new: "\<And>x s' p'. x \<in> set xs \<Longrightarrow> x \<in> set (sl s' p') \<Longrightarrow> s' = s \<and> p' = p"
  shows "links_rep (set_arena h' (set_level s p q' b)) (put sl s p xs)"
proof -
  have 1: "plq_rep h' ((if s' = s then (levels b s)(p - MIN_PRICE := q') else levels b s') (p' - MIN_PRICE))
          (put sl s p xs s' p')" if v': "valid_price p'" for s' p'
  proof (cases "s' = s \<and> p' = p")
    case True then show ?thesis using rep by simp
  next
    case False
    have "h' y = arena (pool b) y" if "y \<in> set (sl s' p')" for y
      using frame [of y] new [of y s' p'] links_rep_disj [OF L that, of s p] False that by auto
    then have "plq_rep h' (levels b s' (p' - MIN_PRICE)) (sl s' p')"
      by (intro plq_rep_frame [OF links_rep_level [OF L v']]) auto
    then show ?thesis using False by (auto simp: index_inj)
  qed
  have 2: "put sl s p xs s' p' = []" if "\<not> valid_price p'" for s' p'
    using L v that by (auto simp: links_rep_def)
  have 3: "s2 = s1 \<and> p2 = p1"
    if "x \<in> set (put sl s p xs s1 p1)" "x \<in> set (put sl s p xs s2 p2)" for x s1 p1 s2 p2
  proof (cases "s1 = s \<and> p1 = p")
    case True
    with that(1) have "x \<in> set xs" by simp
    with that(2) new [of x s2 p2] True show ?thesis by (auto split: if_split_asm)
  next
    case False
    with that(1) have x: "x \<in> set (sl s1 p1)" by auto
    with that(2) new [of x s1 p1] False links_rep_disj [OF L x, of s2 p2] show ?thesis
      by (auto split: if_split_asm)
  qed
  show ?thesis
    unfolding links_rep_def
  proof (intro conjI allI impI)
    fix s' p' assume "valid_price p'"
    then show "plq_rep (arena (pool (set_arena h' (set_level s p q' b))))
        (levels (set_arena h' (set_level s p q' b)) s' (p' - MIN_PRICE)) (put sl s p xs s' p')"
      using 1 [of p' s'] by simp
  next
    fix s' p' assume "\<not> valid_price p'"
    then show "put sl s p xs s' p' = []" by (rule 2)
  next
    fix s1 p1 s2 p2 x
    assume "x \<in> set (put sl s p xs s1 p1)" "x \<in> set (put sl s p xs s2 p2)"
    from 3 [OF this] show "s2 = s1" "p2 = p1" by simp_all
  qed
qed

lemma level_push_rep:
  assumes L: "links_rep b sl" and v: "valid_price p"
    and x: "x \<notin> resting sl" "unlinked (arena (pool b)) x"
  obtains h' q' where "level_push b s p x = ok (set_arena h' (set_level s p q' b))"
    "links_rep (set_arena h' (set_level s p q' b)) (put sl s p (sl s p @ [x]))"
    "pay (set_arena h' (set_level s p q' b)) = pay b"
proof -
  let ?q = "levels b s (p - MIN_PRICE)" and ?h = "arena (pool b)"
  obtain h' q' where e: "plq_push ?h ?q x = (h', q')" by fastforce
  have r: "plq_rep ?h ?q (sl s p)" using L v by (rule links_rep_level)
  have "x \<notin> set (sl s p)" using x by (auto simp: in_resting)
  then have "plq_rep h' q' (sl s p @ [x])" using plq.rep_push [OF r _ x(2)] e by auto
  then have "links_rep (set_arena h' (set_level s p q' b)) (put sl s p (sl s p @ [x]))"
    using plq_push_frame [OF r, of _ x] e x links_rep_disj [OF L]
    by (intro links_rep_put [OF L v]) (auto simp: in_resting)
  moreover have "level_push b s p x = ok (set_arena h' (set_level s p q' b))"
    using v e by (simp add: level_push_def)
  moreover have "pay (set_arena h' (set_level s p q' b)) = pay b"
    using plq_payload(1) [of ?h ?q x] e by (simp add: pay_def fun_eq_iff)
  ultimately show ?thesis using that by blast
qed

lemma level_pop_rep:
  assumes L: "links_rep b sl" and x: "sl s p = x # xs"
  obtains h' q' where "level_pop b s p = ok (set_arena h' (set_level s p q' b))"
    "links_rep (set_arena h' (set_level s p q' b)) (put sl s p xs)"
    "pay (set_arena h' (set_level s p q' b)) = pay b"
proof -
  let ?q = "levels b s (p - MIN_PRICE)" and ?h = "arena (pool b)"
  have v: "valid_price p" using links_rep_valid [OF L, of x s p] x by simp
  obtain o' h' q' where e: "plq_pop ?h ?q = (o', h', q')" by (cases "plq_pop ?h ?q") auto
  have r: "plq_rep ?h ?q (x # xs)" using links_rep_level [OF L v, of s] x by simp
  then have "plq_rep h' q' xs" using plq.rep_pop [OF r] e by simp
  then have "links_rep (set_arena h' (set_level s p q' b)) (put sl s p xs)"
    using plq_pop_frame [OF r] e x links_rep_disj [OF L, of _ s p]
    by (intro links_rep_put [OF L v]) auto
  moreover have "level_pop b s p = ok (set_arena h' (set_level s p q' b))"
    using v e by (simp add: level_pop_def)
  moreover have "pay (set_arena h' (set_level s p q' b)) = pay b"
    using plq_payload(2) [of ?h ?q] e by (simp add: pay_def fun_eq_iff)
  ultimately show ?thesis using that by blast
qed

lemma level_remove_rep:
  assumes L: "links_rep b sl" and x: "sl s p = us @ x # vs"
  obtains h' q' where "level_remove b s p x = ok (set_arena h' (set_level s p q' b))"
    "links_rep (set_arena h' (set_level s p q' b)) (put sl s p (us @ vs))"
    "pay (set_arena h' (set_level s p q' b)) = pay b"
proof -
  let ?q = "levels b s (p - MIN_PRICE)" and ?h = "arena (pool b)"
  have v: "valid_price p" using links_rep_valid [OF L, of x s p] x by simp
  obtain h' q' where e: "plq_remove ?h ?q x = (h', q')" by fastforce
  have r: "plq_rep ?h ?q (us @ x # vs)" using links_rep_level [OF L v, of s] x by simp
  then have "plq_rep h' q' (us @ vs)" using plq.rep_remove [OF r] e by simp
  then have "links_rep (set_arena h' (set_level s p q' b)) (put sl s p (us @ vs))"
    using plq_remove_frame [OF r, of x] e x links_rep_disj [OF L, of _ s p]
    by (intro links_rep_put [OF L v]) auto
  moreover have "level_remove b s p x = ok (set_arena h' (set_level s p q' b))"
    using v e by (simp add: level_remove_def)
  moreover have "pay (set_arena h' (set_level s p q' b)) = pay b"
    using plq_payload(3) [of ?h ?q x] e by (simp add: pay_def fun_eq_iff)
  ultimately show ?thesis using that by blast
qed

section \<open>The price side\<close>

lemma card_levels_lt: "card {p :: Price. f p \<noteq> []} < 2 ^ 64"
proof -
  have "card {p :: Price. f p \<noteq> []} \<le> card (UNIV :: Price set)" by (intro card_mono) auto
  then show ?thesis by (simp add: card_word)
qed

lemma card_levels_0: "card {p :: Price. f p \<noteq> []} = 0 \<longleftrightarrow> (\<forall>p. f p = [])"
  by simp

lemma price_rep_pos: "price_rep b s f \<Longrightarrow> 0 < non_empty b s \<longleftrightarrow> (\<exists>p. f p \<noteq> [])"
  using card_levels_lt [of f] by (auto simp: price_rep_def card_gt_0_iff)

lemma price_rep_best:
  assumes "price_rep b s f" and "0 < non_empty b s"
  shows "f (best b s) \<noteq> []" and "\<And>q. f q \<noteq> [] \<Longrightarrow> \<not> better s q (best b s)"
proof -
  have ex: "\<not> (\<forall>p. f p = [])" using price_rep_pos [OF assms(1)] assms(2) by blast
  have "best_ok s (best b s) f" using assms(1) by (simp add: price_rep_def)
  then show "f (best b s) \<noteq> []" "\<And>q. f q \<noteq> [] \<Longrightarrow> \<not> better s q (best b s)"
    unfolding best_ok_def if_not_P [OF ex] by blast+
qed

text \<open>Only which levels are empty matters.\<close>

lemma price_rep_cong:
  assumes "price_rep b s f" and "\<And>p. g p = [] \<longleftrightarrow> f p = []"
    and "best b' s = best b s" "non_empty b' s = non_empty b s"
  shows "price_rep b' s g"
  using assms by (simp add: price_rep_def best_ok_def)

lemma non_empty_dec:
  assumes "price_rep b s f" and "f p \<noteq> []"
  shows "non_empty b s - 1 = of_nat (card {q. (f(p := [])) q \<noteq> []})"
    and "non_empty b s - 1 = 0 \<longleftrightarrow> (\<forall>q. (f(p := [])) q = [])"
proof -
  have "{q. f q \<noteq> []} = insert p {q. (f(p := [])) q \<noteq> []}" using assms(2) by auto
  moreover have "p \<notin> {q. (f(p := [])) q \<noteq> []}" by simp
  ultimately have "card {q. f q \<noteq> []} = Suc (card {q. (f(p := [])) q \<noteq> []})"
    by (metis card_insert_disjoint finite_code)
  then show eq: "non_empty b s - 1 = of_nat (card {q. (f(p := [])) q \<noteq> []})"
    using assms(1) by (simp add: price_rep_def)
  show "non_empty b s - 1 = 0 \<longleftrightarrow> (\<forall>q. (f(p := [])) q = [])"
    unfolding eq of_nat_size_eq_0 [OF card_levels_lt] card_levels_0 by blast
qed

lemma non_empty_inc:
  assumes "price_rep b s f" and "f p = []" and "xs \<noteq> []"
  shows "non_empty b s + 1 = of_nat (card {q. (f(p := xs)) q \<noteq> []})"
proof -
  have "{q. (f(p := xs)) q \<noteq> []} = insert p {q. f q \<noteq> []}" using assms by auto
  moreover have "p \<notin> {q. f q \<noteq> []}" using assms(2) by simp
  ultimately have "card {q. (f(p := xs)) q \<noteq> []} = Suc (card {q. f q \<noteq> []})"
    by (metis card_insert_disjoint finite_code)
  with assms(1) show ?thesis by (simp add: price_rep_def)
qed

text \<open>The scans find the best non-empty level, given that none lies beyond the start.\<close>

lemma scan_bid_ok:
  assumes "\<And>q. valid_price q \<Longrightarrow> plq_empty (l (q - MIN_PRICE)) \<longleftrightarrow> f q = []"
    and "valid_price p" and "f r \<noteq> []" and "\<And>q. f q \<noteq> [] \<Longrightarrow> q \<le> p"
    and "\<And>q. f q \<noteq> [] \<Longrightarrow> valid_price q"
  shows "\<exists>p'. scan_bid l p = ok p' \<and> f p' \<noteq> [] \<and> (\<forall>q. f q \<noteq> [] \<longrightarrow> q \<le> p')"
  using assms
proof (induction l p rule: scan_bid.induct)
  case (1 l p)
  show ?case
  proof (cases "f p = []")
    case False
    then have "scan_bid l p = ok p" using 1 by (subst scan_bid.simps) simp
    with False 1 show ?thesis by auto
  next
    case True
    have lt: "q < p" if "f q \<noteq> []" for q using 1(5) [OF that] True that by (metis order.not_eq_order_implies_strict)
    have m: "MIN_PRICE < p" using lt [OF 1(4)] 1(6) [OF 1(4)] by (auto simp: valid_price_def)
    have "valid_price (p - 1)" using m 1(3) by (simp add: valid_price_def MIN_PRICE_def MAX_PRICE_def) unat_arith
    moreover have "q \<le> p - 1" if "f q \<noteq> []" for q using lt [OF that] by unat_arith
    ultimately obtain p' where "scan_bid l (p - 1) = ok p'" "f p' \<noteq> []" "\<forall>q. f q \<noteq> [] \<longrightarrow> q \<le> p'"
      using 1 m True by auto
    moreover have "scan_bid l p = scan_bid l (p - 1)"
      using 1(2,3) m True by (subst scan_bid.simps) simp
    ultimately show ?thesis by auto
  qed
qed

lemma unat_Suc_below_MAX: "p < MAX_PRICE \<Longrightarrow> unat (p + 1) = unat p + 1"
  by (simp add: word_less_nat_alt MAX_PRICE_def unat_word_ariths)

lemma scan_ask_ok:
  assumes "\<And>q. valid_price q \<Longrightarrow> plq_empty (l (q - MIN_PRICE)) \<longleftrightarrow> f q = []"
    and "valid_price p" and "f r \<noteq> []" and "\<And>q. f q \<noteq> [] \<Longrightarrow> p \<le> q"
    and "\<And>q. f q \<noteq> [] \<Longrightarrow> valid_price q"
  shows "\<exists>p'. scan_ask l p = ok p' \<and> f p' \<noteq> [] \<and> (\<forall>q. f q \<noteq> [] \<longrightarrow> p' \<le> q)"
  using assms
proof (induction l p rule: scan_ask.induct)
  case (1 l p)
  show ?case
  proof (cases "f p = []")
    case False
    then have "scan_ask l p = ok p" using 1 by (subst scan_ask.simps) simp
    with False 1 show ?thesis by auto
  next
    case True
    have lt: "p < q" if "f q \<noteq> []" for q using 1(5) [OF that] True that by (metis order.not_eq_order_implies_strict)
    have m: "p < MAX_PRICE" using lt [OF 1(4)] 1(6) [OF 1(4)] by (auto simp: valid_price_def)
    have "valid_price (p + 1)"
      using unat_Suc_below_MAX [OF m] m by (simp add: valid_price_unat word_less_nat_alt MAX_PRICE_def)
    moreover have "p + 1 \<le> q" if "f q \<noteq> []" for q using lt [OF that] by unat_arith
    ultimately obtain p' where "scan_ask l (p + 1) = ok p'" "f p' \<noteq> []" "\<forall>q. f q \<noteq> [] \<longrightarrow> p' \<le> q"
      using 1 m True by auto
    moreover have "scan_ask l p = scan_ask l (p + 1)"
      using 1(2,3) m True by (subst scan_ask.simps) simp
    ultimately show ?thesis by auto
  qed
qed


text \<open>
  \<open>update_best\<close> after the best level emptied, and the two ways the code accounts for a level that
  became empty.
\<close>

lemma not_better_le: "\<not> better Bids q p \<longleftrightarrow> q \<le> p" "\<not> better Asks q p \<longleftrightarrow> p \<le> q"
  by (auto simp: not_less)

definition levels_rep :: "Levels \<Rightarrow> (Price \<Rightarrow> slot list) \<Rightarrow> bool" where
  "levels_rep l f \<longleftrightarrow> (\<forall>q. valid_price q \<longrightarrow> plq_empty (l (q - MIN_PRICE)) = (f q = []))
     \<and> (\<forall>q. f q \<noteq> [] \<longrightarrow> valid_price q)"

lemma links_levels_rep: "links_rep b sl \<Longrightarrow> levels_rep (levels b s) (sl s)"
  unfolding levels_rep_def using links_rep_empty links_rep_def by blast

lemma update_best_ok:
  assumes "levels_rep (levels b s) f" and "valid_price (best b s)" and "f r \<noteq> []"
    and "\<And>q. f q \<noteq> [] \<Longrightarrow> \<not> better s q (best b s)"
  shows "\<exists>p. update_best s b = ok (set_best s p b) \<and> best_ok s p f"
proof (cases s)
  case Bids
  then have "\<exists>p. scan_bid (bids b) (best_bid_price b) = ok p \<and> f p \<noteq> [] \<and> (\<forall>q. f q \<noteq> [] \<longrightarrow> q \<le> p)"
    using assms unfolding levels_rep_def by (intro scan_bid_ok [of _ f _ r]) (auto simp: not_less)
  with Bids assms(3) show ?thesis by (auto simp: update_best_bid_def best_ok_def not_less)
next
  case Asks
  then have "\<exists>p. scan_ask (asks b) (best_ask_price b) = ok p \<and> f p \<noteq> [] \<and> (\<forall>q. f q \<noteq> [] \<longrightarrow> p \<le> q)"
    using assms unfolding levels_rep_def by (intro scan_ask_ok [of _ f _ r]) (auto simp: not_less)
  with Asks assms(3) show ?thesis by (auto simp: update_best_ask_def best_ok_def not_less)
qed

lemma best_ok_all_empty: "(\<forall>q. f q = []) \<Longrightarrow> best_ok s p f \<longleftrightarrow> p = worst s"
  by (simp add: best_ok_def)

lemma level_done_ok:
  assumes P: "price_rep b s f" and ne: "f (best b s) \<noteq> []" and v: "valid_price (best b s)"
    and l: "levels_rep (levels b s) (f(best b s := []))"
  shows "\<exists>p. level_done s b = ok (set_best s p (set_non_empty s (non_empty b s - 1) b))
     \<and> price_rep (set_best s p (set_non_empty s (non_empty b s - 1) b)) s (f(best b s := []))"
proof -
  let ?g = "f(best b s := [])" and ?b = "set_non_empty s (non_empty b s - 1) b"
  note dec = non_empty_dec [OF P ne]
  have nb: "\<not> better s q (best b s)" if "?g q \<noteq> []" for q
  proof -
    have "f q \<noteq> []" using that by (auto split: if_splits)
    then show ?thesis using price_rep_best(2) [OF P] price_rep_pos [OF P] ne by blast
  qed
  show ?thesis
  proof (cases "non_empty b s - 1 = 0")
    case True
    then have "\<forall>q. ?g q = []" using dec(2) by blast
    then have "best_ok s (worst s) ?g" using best_ok_all_empty by blast
    with True dec(1) show ?thesis
      by (intro exI [of _ "worst s"]) (simp add: level_done_def Let_def price_rep_def)
  next
    case False
    then obtain r where r: "?g r \<noteq> []" using dec(2) by blast
    obtain p where p: "update_best s ?b = ok (set_best s p ?b)" "best_ok s p ?g"
      using update_best_ok [of ?b s ?g r] l v nb r by auto
    with False dec(1) show ?thesis
      by (intro exI [of _ p]) (simp add: level_done_def Let_def price_rep_def)
  qed
qed

lemma price_insert:
  assumes P: "price_rep b s f" and v: "valid_price p" and vf: "\<And>q. f q \<noteq> [] \<Longrightarrow> valid_price q"
    and n: "non_empty b' s = (if f p = [] then non_empty b s + 1 else non_empty b s)"
    and bb: "best b' s = (if better s p (best b s) then p else best b s)"
  shows "price_rep b' s (f(p := f p @ [x]))"
proof -
  let ?g = "f(p := f p @ [x])"
  have c: "non_empty b' s = of_nat (card {q. ?g q \<noteq> []})"
  proof (cases "f p = []")
    case True
    then show ?thesis using non_empty_inc [OF P True, of "[x]"] n by simp
  next
    case False
    then have "{q. ?g q \<noteq> []} = {q. f q \<noteq> []}" by auto
    with False P n show ?thesis by (simp add: price_rep_def)
  qed
  have ne: "\<not> (\<forall>q. ?g q = [])" by (auto intro: exI [of _ p])
  have "best_ok s (best b' s) ?g"
  proof (cases "\<forall>q. f q = []")
    case True
    then have "best b s = worst s" using P by (simp add: price_rep_def best_ok_def)
    then have "best b' s = p" using bb v by (cases s) (auto simp: valid_price_def)
    with True show ?thesis unfolding best_ok_def if_not_P [OF ne] by (cases s) auto
  next
    case False
    then have o: "f (best b s) \<noteq> []" "\<And>q. f q \<noteq> [] \<Longrightarrow> \<not> better s q (best b s)"
      using P unfolding price_rep_def best_ok_def if_not_P [OF False] by blast+
    then show ?thesis unfolding best_ok_def if_not_P [OF ne] bb
      by (cases s) (auto simp: not_less, (meson less_imp_le order_trans)+)
  qed
  with c show ?thesis by (simp add: price_rep_def)
qed


section \<open>Orders, index and pool\<close>

definition core_rep :: "Orderbook \<Rightarrow> ghost \<Rightarrow> bool" where
  "core_rep b sl \<longleftrightarrow> links_rep b sl \<and> index_rep b sl"

lemma book_rep_core: "book_rep b sl \<longleftrightarrow> core_rep b sl \<and> (\<forall>s. price_rep b s (sl s))"
  by (auto simp: book_rep_def core_rep_def)

lemma links_rep_cong:
  assumes "links_rep b sl" and "arena (pool b') = arena (pool b)" and "\<And>s. levels b' s = levels b s"
  shows "links_rep b' sl"
  using assms(1) unfolding links_rep_def assms(2,3) .

text \<open>What the order-level steps leave alone.\<close>

definition same_env :: "Orderbook \<Rightarrow> Orderbook \<Rightarrow> bool" where
  "same_env b b' \<longleftrightarrow> (\<forall>s. best b' s = best b s \<and> non_empty b' s = non_empty b s)
     \<and> out_ring b' = out_ring b \<and> arena_size (pool b') = arena_size (pool b)"

lemma core_set_arena:
  assumes "core_rep b sl"
    and "\<And>y. o_prev (h y) = o_prev (arena (pool b) y) \<and> o_next (h y) = o_next (arena (pool b) y)"
    and "\<And>y. o_id (h y) = o_id (pay b y) \<and> o_side (h y) = o_side (pay b y) \<and> o_price (h y) = o_price (pay b y)"
  shows "core_rep (set_arena h b) sl"
proof -
  have "plq_rep (arena (pool b)) q xs \<Longrightarrow> plq_rep h q xs" for q xs
    using assms(2) by (blast intro: plq_rep_frame)
  with assms show ?thesis
    by (simp add: core_rep_def links_rep_def index_rep_def pool_owns_def pay_set_arena)
qed

lemma core_side_price:
  assumes "core_rep b sl" "x \<in> set (sl s p)"
  shows "side_of (o_side (pay b x)) = s" "o_price (pay b x) = p" "orders b (o_id (pay b x)) = Some x"
    "valid_price p"
  using assms links_rep_valid [of b sl x s p] by (auto simp: core_rep_def index_rep_def)

lemma core_orders:
  assumes "core_rep b sl" "orders b oid = Some x"
  shows "o_id (pay b x) = oid" "x \<in> set (sl (side_of (o_side (pay b x))) (o_price (pay b x)))"
  using assms by (fastforce simp: core_rep_def index_rep_def in_resting)+

lemma core_distinct:
  assumes "core_rep b sl"
  shows "distinct (sl s p)"
proof (cases "valid_price p")
  case True
  have "links_rep b sl" using assms by (simp add: core_rep_def)
  from plq.rep_distinct [OF links_rep_level [OF this True]] show ?thesis .
next
  case False
  with assms show ?thesis by (simp add: core_rep_def links_rep_def)
qed

lemma fill_order_core:
  assumes C: "core_rep b sl" and q: "q \<le> o_remaining_quantity (pay b x)"
  obtains b' where "fill_order b x q = ok b'" "core_rep b' sl" "same_env b b'"
    "pay b' = (pay b)(x := (pay b x)\<lparr>o_remaining_quantity := o_remaining_quantity (pay b x) - q\<rparr>)"
    "levels b' = levels b" "orders b' = orders b"
proof -
  let ?o = "(deref b x)\<lparr>o_remaining_quantity := o_remaining_quantity (deref b x) - q\<rparr>"
  let ?b = "set_arena ((arena (pool b))(x := ?o)) b"
  have "fill_order b x q = ok ?b" using q by (simp add: fill_order_def deref_pay)
  moreover have "core_rep ?b sl"
    using C by (rule core_set_arena) (auto simp: deref_def pay_def)
  moreover have "pay ?b = (pay b)(x := (pay b x)\<lparr>o_remaining_quantity := o_remaining_quantity (pay b x) - q\<rparr>)"
    by (auto simp: pay_def deref_def strip_def)
  ultimately show ?thesis by (intro that [of ?b]) (auto simp: same_env_def)
qed

lemma put_delete_iff:
  assumes "core_rep b sl" and "sl s p = us @ x # vs"
  shows "y \<in> set (put sl s p (us @ vs) s' p') \<longleftrightarrow> y \<in> set (sl s' p') \<and> y \<noteq> x"
proof -
  have "distinct (us @ x # vs)" using core_distinct [OF assms(1), of s p] assms(2) by simp
  moreover have "x \<in> set (sl s' p') \<Longrightarrow> s' = s \<and> p' = p"
    using links_rep_disj [of b sl x s p s' p'] assms by (simp add: core_rep_def)
  ultimately show ?thesis using assms(2)
    by (cases "s' = s \<and> p' = p") auto
qed

lemma resting_delete:
  assumes "core_rep b sl" and "sl s p = us @ x # vs"
  shows "resting (put sl s p (us @ vs)) = resting sl - {x}"
  unfolding set_eq_iff Diff_iff in_resting put_delete_iff [of b, OF assms] by auto

lemma index_erase:
  assumes C: "core_rep b sl" and x: "sl s p = us @ x # vs"
    and "pay b' = pay b" "orders b' = (orders b)(o_id (pay b x) := None)"
    and "pool b' = deallocate pl x" "free_list pl = free_list (pool b)" "arena_size pl = arena_size (pool b)"
  shows "index_rep b' (put sl s p (us @ vs))"
proof -
  have L: "links_rep b sl" and I: "index_rep b sl" using C by (auto simp: core_rep_def)
  note r = resting_delete [OF C x]
  have xin: "x \<in> set (sl s p)" using x by simp
  have id_neq: "o_id (pay b y) \<noteq> o_id (pay b x)" if "y \<in> set (sl s' p')" "y \<noteq> x" for y s' p'
    using core_side_price(3) [OF C that(1)] core_side_price(3) [OF C xin] that(2) by auto
  have own: "pool_owns (pool b') (resting sl - {x})"
  proof -
    have "pool_owns pl (resting sl)" using I assms(6,7) by (simp add: index_rep_def pool_owns_def pay_set_arena)
    moreover have "x \<in> resting sl" using xin by (auto simp: in_resting)
    ultimately show ?thesis using deallocate_owns assms(5) by simp
  qed
  have "o_id (pay b' y) = oid \<and> y \<in> resting (put sl s p (us @ vs))" if o: "orders b' oid = Some y" for oid y
  proof -
    have n: "oid \<noteq> o_id (pay b x)" "orders b oid = Some y"
      using o unfolding assms(4) by (auto split: if_splits)
    then have "o_id (pay b y) = oid" "y \<in> resting sl" using I by (auto simp: index_rep_def)
    with n show ?thesis unfolding r assms(3) by auto
  qed
  moreover have "side_of (o_side (pay b' y)) = s' \<and> o_price (pay b' y) = p' \<and> orders b' (o_id (pay b' y)) = Some y"
    if "y \<in> set (put sl s p (us @ vs) s' p')" for y s' p'
    using that core_side_price [OF C, of y s' p'] id_neq [of y s' p']
    unfolding assms(3,4) put_delete_iff [OF C x] by auto
  ultimately show ?thesis using own unfolding index_rep_def r [symmetric] by blast
qed

lemma retire_filled_core:
  assumes C: "core_rep b sl" and x: "sl s p = x # xs"
  shows "\<exists>b'. retire_filled b s p x = ok b'
    \<and> core_rep b' (if is_filled (pay b x) then put sl s p xs else sl) \<and> same_env b b' \<and> pay b' = pay b"
proof (cases "is_filled (pay b x)")
  case False
  then have "retire_filled b s p x = ok b" by (simp add: retire_filled_def deref_pay)
  moreover have "same_env b b" by (simp add: same_env_def)
  ultimately show ?thesis using C False by auto
next
  case True
  have L: "links_rep b sl" using C by (simp add: core_rep_def)
  obtain h' q' where e: "level_pop b s p = ok (set_arena h' (set_level s p q' b))"
    and l: "links_rep (set_arena h' (set_level s p q' b)) (put sl s p xs)"
    and py: "pay (set_arena h' (set_level s p q' b)) = pay b" by (rule level_pop_rep [OF L x])
  define b1 where "b1 = set_arena h' (set_level s p q' b)"
  define b2 where "b2 = erase_order (o_id (pay b x)) x b1"
  have p': "pay b1 = pay b" using py by (simp only: b1_def)
  have "retire_filled b s p x = ok b2"
    using True p' by (simp add: retire_filled_def deref_pay e b1_def [symmetric] b2_def)
  moreover have "links_rep b2 (put sl s p xs)"
    using l unfolding b1_def [symmetric] by (rule links_rep_cong) (simp_all add: b2_def)
  moreover have "index_rep b2 (put sl s p ([] @ xs))"
  proof (rule index_erase [OF C, where pl = "pool b1"])
    show "sl s p = [] @ x # xs" using x by simp
    show "pay b2 = pay b" by (simp add: b2_def p')
    show "orders b2 = (orders b)(o_id (pay b x) := None)" by (simp add: b2_def b1_def)
    show "pool b2 = deallocate (pool b1) x" by (simp add: b2_def)
    show "free_list (pool b1) = free_list (pool b)" "arena_size (pool b1) = arena_size (pool b)"
      by (simp_all add: b1_def)
  qed
  moreover have "same_env b b2" by (simp add: same_env_def b1_def b2_def)
  moreover have "pay b2 = pay b" by (simp add: b2_def p')
  ultimately show ?thesis using True by (auto simp: core_rep_def)
qed


lemma strip_Order_of [simp]: "strip (Order_of oid req) = Order_of oid req"
  by (simp add: strip_def Order_of_def)

lemma Order_of_sel [simp]:
  "o_id (Order_of oid req) = oid" "o_side (Order_of oid req) = req_side req"
  "o_price (Order_of oid req) = req_price req" "o_client_id (Order_of oid req) = req_client_id req"
  "o_remaining_quantity (Order_of oid req) = req_quantity req"
  "o_initial_quantity (Order_of oid req) = req_quantity req"
  "o_prev (Order_of oid req) = None" "o_next (Order_of oid req) = None"
  "o_recv_tsc (Order_of oid req) = req_recv_tsc req" "o_order_type (Order_of oid req) = req_type req"
  by (simp_all add: Order_of_def)

lemma put_snoc_iff:
  "y \<in> set (put sl s p (sl s p @ [x]) s' p') \<longleftrightarrow> y \<in> set (sl s' p') \<or> (y = x \<and> s' = s \<and> p' = p)"
  by (cases "s' = s \<and> p' = p") auto

lemma resting_insert: "resting (put sl s p (sl s p @ [x])) = insert x (resting sl)"
  unfolding set_eq_iff insert_iff in_resting put_snoc_iff by auto

text \<open>
  \<open>allocate\<close>, \<open>emplace\<close> and \<open>push\<close> together: the book \<open>b2\<close> has the new slot in the pool and the id
  index; pushing the slot onto its level completes the insertion.
\<close>

lemma index_insert:
  assumes C: "core_rep b sl" and fresh: "orders b oid = None" and x: "x \<notin> resting sl" and s: "s = side_of (req_side req)"
    and pay: "pay b' = (pay b)(x := Order_of oid req)" and o: "orders b' = (orders b)(oid \<mapsto> x)"
    and own: "pool_owns (pool b') (insert x (resting sl))"
  shows "index_rep b' (put sl s (req_price req) (sl s (req_price req) @ [x]))"
  unfolding index_rep_def
proof (intro conjI allI impI)
  let ?sl = "put sl s (req_price req) (sl s (req_price req) @ [x])"
  show "pool_owns (pool b') (resting ?sl)" using own by (simp add: resting_insert)
  fix s' p' y assume y: "y \<in> set (?sl s' p')"
  have "side_of (o_side (pay b' y)) = s' \<and> o_price (pay b' y) = p' \<and> orders b' (o_id (pay b' y)) = Some y"
  proof (cases "y = x")
    case True
    then have "s' = s \<and> p' = req_price req" using y x by (auto simp: in_resting split: if_splits)
    with True s show ?thesis by (simp add: pay o)
  next
    case False
    then have "y \<in> set (sl s' p')" using y by (auto split: if_splits)
    from core_side_price [OF C this] False fresh show ?thesis by (auto simp: pay o)
  qed
  then show "side_of (o_side (pay b' y)) = s'" "o_price (pay b' y) = p'" "orders b' (o_id (pay b' y)) = Some y" by blast+
next
  let ?sl = "put sl s (req_price req) (sl s (req_price req) @ [x])"
  fix i y assume i: "orders b' i = Some y"
  have "o_id (pay b' y) = i \<and> y \<in> resting ?sl"
  proof (cases "i = oid")
    case True
    with i show ?thesis by (simp add: o pay resting_insert)
  next
    case False
    with i have "orders b i = Some y" by (simp add: o)
    then have "o_id (pay b y) = i" "y \<in> resting sl" using C by (auto simp: core_rep_def index_rep_def)
    with x show ?thesis by (auto simp: pay resting_insert)
  qed
  then show "o_id (pay b' y) = i" "y \<in> resting ?sl" by blast+
qed

lemma insert_core:
  assumes C: "core_rep b sl" and fresh: "orders b oid = None"
    and al: "allocate (pool b) oid req = (Some x, pool')"
    and v: "valid_price (req_price req)" and s: "s = side_of (req_side req)"
    and b2: "pool b2 = pool'" "orders b2 = (orders b)(oid \<mapsto> x)" "\<And>s. levels b2 s = levels b s"
  shows "\<exists>h' q'. level_push b2 s (req_price req) x = ok (set_arena h' (set_level s (req_price req) q' b2))
    \<and> core_rep (set_arena h' (set_level s (req_price req) q' b2))
        (put sl s (req_price req) (sl s (req_price req) @ [x]))
    \<and> pay (set_arena h' (set_level s (req_price req) q' b2)) = (pay b)(x := Order_of oid req)
    \<and> x \<notin> resting sl"
proof -
  let ?p = "req_price req"
  let ?sl = "put sl s ?p (sl s ?p @ [x])"
  have L: "links_rep b sl" and I: "index_rep b sl" using C by (auto simp: core_rep_def)
  have own: "pool_owns (pool b) (resting sl)" using I by (simp add: index_rep_def)
  note a = allocate_fresh [OF own al]
  have ar: "arena (pool b2) = (arena (pool b))(x := Order_of oid req)" using a b2 by simp
  have py: "pay b2 = (pay b)(x := Order_of oid req)" by (auto simp: pay_def ar)
  have L2: "links_rep b2 sl"
  proof -
    have "plq_rep (arena (pool b2)) q (sl s' p')" if "plq_rep (arena (pool b)) q (sl s' p')" for q s' p'
      using that by (rule plq_rep_frame) (use a(1) in \<open>auto simp: ar in_resting\<close>)
    then show ?thesis using L unfolding links_rep_def b2(3) by blast
  qed
  have "unlinked (arena (pool b2)) x" by (simp add: unlinked_def ar)
  then obtain h' q' where e: "level_push b2 s ?p x = ok (set_arena h' (set_level s ?p q' b2))"
    and l: "links_rep (set_arena h' (set_level s ?p q' b2)) ?sl"
    and py': "pay (set_arena h' (set_level s ?p q' b2)) = pay b2"
    by (rule level_push_rep [OF L2 v a(1)])
  define b3 where "b3 = set_arena h' (set_level s ?p q' b2)"
  have p3: "pay b3 = (pay b)(x := Order_of oid req)" using py py' by (simp only: b3_def)
  have o3: "orders b3 = (orders b)(oid \<mapsto> x)" by (simp add: b3_def b2)
  have "pool_owns (pool b3) (insert x (resting sl))" using a(2) b2(1) by (simp add: b3_def pool_owns_def)
  from index_insert [OF C fresh a(1) s p3 o3 this] have "index_rep b3 ?sl" .
  with e l p3 a(1) show ?thesis by (auto simp: core_rep_def b3_def)
qed


end
