(* ===== verification/Orderbook_Spec.thy ===== *)
theory Orderbook_Spec
  imports Orderbook
begin

text \<open>
  The abstract price-time-priority book the engine promises: each side is one list of orders in
  priority order (best price first, oldest first within a price), with no ladder, no links, no
  slots and no cached best prices. A request is matched against the front of the opposite list.
  \<open>Orderbook_Refine\<close> shows that \<^verbatim>\<open>Orderbook::process\<close> implements \<open>pt_process\<close>.
\<close>

section \<open>State\<close>

record PT_Book =
  pt_bids :: "Order list"
  pt_asks :: "Order list"
  pt_cap :: nat

fun pt_side :: "PT_Book \<Rightarrow> book_side \<Rightarrow> Order list" where
  "pt_side B Bids = pt_bids B"
| "pt_side B Asks = pt_asks B"

fun pt_set :: "book_side \<Rightarrow> Order list \<Rightarrow> PT_Book \<Rightarrow> PT_Book" where
  "pt_set Bids xs B = B\<lparr>pt_bids := xs\<rparr>"
| "pt_set Asks xs B = B\<lparr>pt_asks := xs\<rparr>"

definition pt_orders :: "PT_Book \<Rightarrow> Order list" where
  "pt_orders B = pt_bids B @ pt_asks B"

definition pt_find :: "PT_Book \<Rightarrow> OrderId \<Rightarrow> Order option" where
  "pt_find B oid = find (\<lambda>o'. o_id o' = oid) (pt_orders B)"

section \<open>Operations\<close>

text \<open>A new order goes behind every order it does not strictly improve on.\<close>

definition pt_insert :: "book_side \<Rightarrow> Order \<Rightarrow> Order list \<Rightarrow> Order list" where
  "pt_insert s o' xs =
     (let ahead = (\<lambda>x. \<not> better s (o_price o') (o_price x))
      in takeWhile ahead xs @ o' # dropWhile ahead xs)"

definition take_qty :: "Quantity \<Rightarrow> Order \<Rightarrow> Order" where
  "take_qty q o' = o'\<lparr>o_remaining_quantity := o_remaining_quantity o' - q\<rparr>"

text \<open>The front order after trading \<open>q\<close>: gone when filled, else still in front.\<close>

definition requeue :: "Quantity \<Rightarrow> Order list \<Rightarrow> Order list" where
  "requeue q xs =
     (case xs of [] \<Rightarrow> [] | x # xs' \<Rightarrow> if is_filled (take_qty q x) then xs' else take_qty q x # xs')"

lemma requeue_Cons: "requeue q (x # xs) = (if is_filled (take_qty q x) then xs else take_qty q x # xs)"
  by (simp add: requeue_def)

lemma is_filled_min:
  "is_filled (take_qty (min (o_remaining_quantity x) (o_remaining_quantity y)) x)
   \<or> is_filled (take_qty (min (o_remaining_quantity x) (o_remaining_quantity y)) y)"
  by (cases "o_remaining_quantity x \<le> o_remaining_quantity y") (auto simp: is_filled_def take_qty_def min_def)

function pt_match :: "Order list \<Rightarrow> Order list \<Rightarrow> Order list \<times> Order list \<times> (Order \<times> Order \<times> Quantity) list" where
  "pt_match [] ys = ([], ys, [])"
| "pt_match (x # xs) [] = (x # xs, [], [])"
| "pt_match (x # xs) (y # ys) =
     (if o_price x < o_price y then (x # xs, y # ys, [])
      else let q = min (o_remaining_quantity x) (o_remaining_quantity y);
               (xs', ys', ts) = pt_match (requeue q (x # xs)) (requeue q (y # ys))
           in (xs', ys', (x, y, q) # ts))"
  by pat_completeness auto
termination
proof (relation "measure (\<lambda>(xs, ys). length xs + length ys)")
  fix x y :: Order and xs ys q
  assume "q = min (o_remaining_quantity x) (o_remaining_quantity y)"
  then show "((requeue q (x # xs), requeue q (y # ys)), (x # xs, y # ys)) \<in> measure (\<lambda>(xs, ys). length xs + length ys)"
    using is_filled_min [of x y] by (auto simp: requeue_Cons)
qed simp

definition match_msgs :: "(Order \<times> Order \<times> Quantity) list \<Rightarrow> OutboundMessage list" where
  "match_msgs ts = concat (map (\<lambda>(x, y, q). [match_msg x, match_msg y]) ts)"

fun pt_market :: "Order list \<Rightarrow> Quantity \<Rightarrow> Order list \<times> Quantity \<times> (Order \<times> Quantity) list" where
  "pt_market [] r = ([], r, [])"
| "pt_market (x # xs) r =
     (if r = 0 then (x # xs, r, [])
      else let q = min r (o_remaining_quantity x)
           in if is_filled (take_qty q x)
              then (case pt_market xs (r - q) of (xs', r', ts) \<Rightarrow> (xs', r', (x, q) # ts))
              else (take_qty q x # xs, r - q, [(x, q)]))"

definition market_msgs :: "OrderRequest \<Rightarrow> (Order \<times> Quantity) list \<Rightarrow> OutboundMessage list" where
  "market_msgs req ts = concat (map (\<lambda>(x, q). [market_msg req, match_msg x]) ts)"

type_synonym pt_result = "PT_Book \<times> OutboundMessage list \<times> bool"

definition pt_matchOrders :: "PT_Book \<Rightarrow> pt_result" where
  "pt_matchOrders B =
     (case pt_match (pt_bids B) (pt_asks B) of
        (xs, ys, ts) \<Rightarrow> (B\<lparr>pt_bids := xs, pt_asks := ys\<rparr>, match_msgs ts, ts \<noteq> []))"

definition pt_sweep :: "book_side \<Rightarrow> PT_Book \<Rightarrow> OrderRequest \<Rightarrow> pt_result" where
  "pt_sweep s B req =
     (case pt_market (pt_side B s) (req_quantity req) of
        (xs, r, ts) \<Rightarrow> (pt_set s xs B, market_msgs req ts, r = 0))"

definition pt_matchMarket :: "PT_Book \<Rightarrow> OrderRequest \<Rightarrow> pt_result" where
  "pt_matchMarket B req =
     (if req_side req = BID then pt_sweep Asks B req
      else if req_side req = ASK then pt_sweep Bids B req
      else (B, [], req_quantity req = 0))"

definition pt_addOrder :: "PT_Book \<Rightarrow> OrderRequest \<Rightarrow> pt_result" where
  "pt_addOrder B req =
     (if req_type req = MARKET then pt_matchMarket B req
      else if pt_find B (req_order_id req) \<noteq> None then (B, [], False)
      else if length (pt_orders B) = pt_cap B then (B, [], False)
      else let s = side_of (req_side req)
           in pt_matchOrders (pt_set s (pt_insert s (Order_of (req_order_id req) req) (pt_side B s)) B))"

definition pt_cancelOrder :: "PT_Book \<Rightarrow> OrderId \<Rightarrow> PT_Book" where
  "pt_cancelOrder B oid =
     B\<lparr>pt_bids := filter (\<lambda>o'. o_id o' \<noteq> oid) (pt_bids B),
       pt_asks := filter (\<lambda>o'. o_id o' \<noteq> oid) (pt_asks B)\<rparr>"

definition stamp :: "OrderId \<Rightarrow> Timestamp \<Rightarrow> Order \<Rightarrow> Order" where
  "stamp oid t o' = (if o_id o' = oid then o'\<lparr>o_recv_tsc := t\<rparr> else o')"

definition pt_modifyOrder :: "PT_Book \<Rightarrow> OrderRequest \<Rightarrow> Order \<Rightarrow> pt_result" where
  "pt_modifyOrder B req o' =
     (if req_price req \<noteq> o_price o' \<or> req_quantity req \<noteq> o_initial_quantity o'
      then pt_addOrder (pt_cancelOrder B (req_order_id req)) req
      else let B1 = B\<lparr>pt_bids := map (stamp (req_order_id req) (req_recv_tsc req)) (pt_bids B),
                      pt_asks := map (stamp (req_order_id req) (req_recv_tsc req)) (pt_asks B)\<rparr>
           in if req_type req = MARKET then pt_matchMarket B1 req else pt_matchOrders B1)"

definition pt_process :: "PT_Book \<Rightarrow> OrderRequest \<Rightarrow> PT_Book \<times> OutboundMessage list \<times> ProcessResult" where
  "pt_process B req =
     (let failed = (B, [], \<lparr>status = FAILURE, suppress_ack = False\<rparr>);
          done' = (\<lambda>(B', ms, sup). (B', ms, \<lparr>status = SUCCESS, suppress_ack = sup\<rparr>))
      in if req_message_type req = NEW then done' (pt_addOrder B req)
         else if req_message_type req = CANCEL
         then (case pt_find B (req_order_id req) of None \<Rightarrow> failed
               | Some o' \<Rightarrow>
                  if o_client_id o' \<noteq> req_client_id req then failed
                  else done' (pt_cancelOrder B (req_order_id req), [], False))
         else if req_message_type req = MODIFY
         then (case pt_find B (req_order_id req) of None \<Rightarrow> failed
               | Some o' \<Rightarrow>
                  if o_client_id o' \<noteq> req_client_id req \<or> o_side o' \<noteq> req_side req then failed
                  else done' (pt_modifyOrder B req o'))
         else failed)"

section \<open>Volume\<close>

text \<open>The open quantity of a list of orders, as an unbounded number.\<close>

definition volume :: "Order list \<Rightarrow> nat" where
  "volume xs = sum_list (map (unat \<circ> o_remaining_quantity) xs)"

lemma volume_simps [simp]:
  "volume [] = 0" "volume (x # xs) = unat (o_remaining_quantity x) + volume xs"
  "volume (xs @ ys) = volume xs + volume ys"
  by (simp_all add: volume_def)

lemma volume_requeue:
  assumes "q \<le> o_remaining_quantity x"
  shows "volume (requeue q (x # xs)) + unat q = volume (x # xs)"
proof -
  have "unat (o_remaining_quantity x - q) = unat (o_remaining_quantity x) - unat q"
    using assms by (rule unat_sub)
  moreover have "unat q \<le> unat (o_remaining_quantity x)" using assms by (simp add: word_le_nat_alt)
  ultimately show ?thesis by (auto simp: requeue_Cons is_filled_def take_qty_def)
qed

text \<open>Matching takes the same quantity off both sides.\<close>

lemma pt_match_volume:
  "pt_match xs ys = (xs', ys', ts) \<Longrightarrow>
   volume xs = volume xs' + (\<Sum>(x, y, q) \<leftarrow> ts. unat q) \<and>
   volume ys = volume ys' + (\<Sum>(x, y, q) \<leftarrow> ts. unat q)"
proof (induction xs ys arbitrary: xs' ys' ts rule: pt_match.induct)
  case (3 x xs y ys)
  show ?case
  proof (cases "o_price x < o_price y")
    case True then show ?thesis using 3 by simp
  next
    case False
    let ?q = "min (o_remaining_quantity x) (o_remaining_quantity y)"
    obtain us vs ts' where r: "pt_match (requeue ?q (x # xs)) (requeue ?q (y # ys)) = (us, vs, ts')"
      by (cases "pt_match (requeue ?q (x # xs)) (requeue ?q (y # ys))") auto
    have "volume (requeue ?q (x # xs)) + unat ?q = volume (x # xs)"
      "volume (requeue ?q (y # ys)) + unat ?q = volume (y # ys)"
      by (rule volume_requeue; simp)+
    with "3.IH" [OF False refl r] r "3.prems" False show ?thesis by auto
  qed
qed auto

text \<open>Matching runs until the fronts no longer cross.\<close>

lemma pt_match_uncrossed:
  "pt_match xs ys = (xs', ys', ts) \<Longrightarrow> xs' = [] \<or> ys' = [] \<or> o_price (hd xs') < o_price (hd ys')"
proof (induction xs ys arbitrary: xs' ys' ts rule: pt_match.induct)
  case (3 x xs y ys)
  then show ?case by (cases "o_price x < o_price y") (auto simp: Let_def split: prod.splits)
qed auto

end
