(* ===== verification/Price_Time_Laws.thy ===== *)
theory Price_Time_Laws
  imports Orderbook_Spec "HOL-Library.Sublist"
begin

text \<open>
  Laws of the abstract price-time book that do not mention the implementation: what matching and
  market sweeps leave of a side (\<open>eaten\<close>), price priority, an uncrossed spread, the quantities of
  resting orders, and conservation of volume.
\<close>

section \<open>What is left of a side\<close>

text \<open>
  \<open>residue x' x\<close>: the order \<open>x'\<close> is \<open>x\<close> with no more open quantity than before, and still some
  if there was some. \<open>eaten xs' xs\<close>: a prefix of \<open>xs\<close> is gone and the rest is there in order.
\<close>

definition residue :: "Order \<Rightarrow> Order \<Rightarrow> bool" where
  "residue x' x \<longleftrightarrow> x' = x\<lparr>o_remaining_quantity := o_remaining_quantity x'\<rparr>
     \<and> o_remaining_quantity x' \<le> o_remaining_quantity x
     \<and> (0 < o_remaining_quantity x \<longrightarrow> 0 < o_remaining_quantity x')"

definition eaten :: "Order list \<Rightarrow> Order list \<Rightarrow> bool" where
  "eaten xs' xs \<longleftrightarrow> (\<exists>ys zs. xs = ys @ zs \<and> list_all2 residue xs' zs)"

lemma residue_refl [simp]: "residue x x"
  by (simp add: residue_def)

lemma residue_sel:
  assumes "residue x' x"
  shows "o_id x' = o_id x" "o_price x' = o_price x" "o_side x' = o_side x" "o_client_id x' = o_client_id x"
    "o_initial_quantity x' = o_initial_quantity x" "o_remaining_quantity x' \<le> o_remaining_quantity x"
    "0 < o_remaining_quantity x \<Longrightarrow> 0 < o_remaining_quantity x'"
proof -
  have e: "x' = x\<lparr>o_remaining_quantity := o_remaining_quantity x'\<rparr>" using assms by (simp add: residue_def)
  show "o_id x' = o_id x" "o_price x' = o_price x" "o_side x' = o_side x" "o_client_id x' = o_client_id x"
    "o_initial_quantity x' = o_initial_quantity x" by (subst e, simp)+
  show "o_remaining_quantity x' \<le> o_remaining_quantity x"
    "0 < o_remaining_quantity x \<Longrightarrow> 0 < o_remaining_quantity x'" using assms by (simp_all add: residue_def)
qed

lemma residue_trans:
  assumes "residue x y" "residue y z"
  shows "residue x z"
proof -
  have "x = y\<lparr>o_remaining_quantity := o_remaining_quantity x\<rparr>"
    "y = z\<lparr>o_remaining_quantity := o_remaining_quantity y\<rparr>" using assms by (simp_all add: residue_def)
  then have "x = z\<lparr>o_remaining_quantity := o_remaining_quantity x\<rparr>" by (metis Order.surjective Order.update_convs(8))
  then show ?thesis using assms by (auto simp: residue_def)
qed

lemma eaten_refl [simp]: "eaten xs xs"
  unfolding eaten_def by (intro exI [of _ "[]"] exI [of _ xs]) (simp add: list_all2_refl)

lemma eaten_trans:
  assumes "eaten xs ys" "eaten ys zs"
  shows "eaten xs zs"
proof -
  obtain a b c d where y: "ys = a @ b" "list_all2 residue xs b" and z: "zs = c @ d" "list_all2 residue ys d"
    using assms by (auto simp: eaten_def)
  then obtain d1 d2 where d: "d = d1 @ d2" "list_all2 residue b d2"
    unfolding y(1) list_all2_append1 by blast
  then have "list_all2 residue xs d2" using y(2) list_all2_trans [of residue residue residue] residue_trans by blast
  moreover have "zs = (c @ d1) @ d2" using z(1) d(1) by simp
  ultimately show ?thesis unfolding eaten_def by blast
qed

lemma eaten_requeue:
  assumes "q \<le> o_remaining_quantity x"
  shows "eaten (requeue q (x # xs)) (x # xs)"
proof (cases "is_filled (take_qty q x)")
  case True
  have "x # xs = [x] @ xs" by simp
  moreover have "list_all2 residue xs xs" by (simp add: list_all2_refl)
  ultimately have "\<exists>ys zs. x # xs = ys @ zs \<and> list_all2 residue xs zs" by blast
  then show ?thesis using True by (simp add: eaten_def requeue_Cons)
next
  case False
  have "o_remaining_quantity x - q \<le> o_remaining_quantity x" using assms by (rule word_sub_le)
  with False have "residue (take_qty q x) x"
    by (auto simp: residue_def take_qty_def is_filled_def word_gt_0)
  then have "list_all2 residue (take_qty q x # xs) (x # xs)" by (simp add: list_all2_refl)
  then have "\<exists>ys zs. x # xs = ys @ zs \<and> list_all2 residue (take_qty q x # xs) zs"
    by (intro exI [of _ "[]"] exI [of _ "x # xs"]) simp
  then show ?thesis using False by (simp add: eaten_def requeue_Cons)
qed

lemma pt_match_eaten:
  "pt_match xs ys = (xs', ys', ts) \<Longrightarrow> eaten xs' xs \<and> eaten ys' ys"
proof (induction xs ys arbitrary: xs' ys' ts rule: pt_match.induct)
  case (3 x xs y ys)
  show ?case
  proof (cases "o_price x < o_price y")
    case True then show ?thesis using 3 by simp
  next
    case False
    let ?q = "min (o_remaining_quantity x) (o_remaining_quantity y)"
    obtain us vs ts' where r: "pt_match (requeue ?q (x # xs)) (requeue ?q (y # ys)) = (us, vs, ts')"
      by (metis prod.exhaust)
    have "eaten (requeue ?q (x # xs)) (x # xs)" "eaten (requeue ?q (y # ys)) (y # ys)"
      by (rule eaten_requeue; simp)+
    with "3.IH" [OF False refl r] r "3.prems" False show ?thesis by (auto intro: eaten_trans)
  qed
qed auto

lemma pt_market_eaten: "pt_market xs r = (xs', r', ts) \<Longrightarrow> eaten xs' xs"
proof (induction xs r arbitrary: xs' r' ts rule: pt_market.induct)
  case (2 x xs r)
  let ?q = "min r (o_remaining_quantity x)"
  have e: "eaten (requeue ?q (x # xs)) (x # xs)" by (rule eaten_requeue) simp
  show ?case
  proof (cases "r \<noteq> 0 \<and> is_filled (take_qty ?q x)")
    case True
    obtain us r1 ts1 where m: "pt_market xs (r - ?q) = (us, r1, ts1)" by (metis prod.exhaust)
    from "2.IH" [OF _ refl _ m] True have "eaten us xs" by blast
    with m True e "2.prems" show ?thesis by (auto simp: requeue_Cons Let_def intro: eaten_trans)
  next
    case False
    with "2.prems" e show ?thesis by (auto simp: requeue_Cons Let_def split: if_splits)
  qed
qed simp

lemma eatenE:
  assumes "eaten xs' xs" and "x' \<in> set xs'"
  obtains x where "x \<in> set xs" "residue x' x"
proof -
  obtain ys zs where e: "xs = ys @ zs" "list_all2 residue xs' zs" using assms(1) by (auto simp: eaten_def)
  obtain i where i: "i < length xs'" "x' = xs' ! i" using assms(2) by (metis in_set_conv_nth)
  then have "residue x' (zs ! i)" "zs ! i \<in> set xs"
    using e list_all2_nthD [OF e(2) i(1)] list_all2_lengthD [OF e(2)] by auto
  then show ?thesis using that by blast
qed

lemma residue_map:
  assumes "list_all2 residue xs zs" and "\<And>x y. residue x y \<Longrightarrow> f x = f y"
  shows "map f xs = map f zs"
  using assms(1) by (induction rule: list_all2_induct) (simp_all add: assms(2))

lemma eaten_ids: "eaten xs' xs \<Longrightarrow> suffix (map o_id xs') (map o_id xs)"
proof -
  assume "eaten xs' xs"
  then obtain ys zs where e: "xs = ys @ zs" "list_all2 residue xs' zs" by (auto simp: eaten_def)
  have "map o_id xs' = map o_id zs" using e(2) residue_sel(1) by (rule residue_map)
  with e(1) show ?thesis by (auto simp: suffix_def)
qed

section \<open>Resting orders\<close>

text \<open>Every resting order is open, and no more than its original quantity.\<close>

definition open_order :: "Order \<Rightarrow> bool" where
  "open_order x \<longleftrightarrow> 0 < o_remaining_quantity x \<and> o_remaining_quantity x \<le> o_initial_quantity x"

definition all_open :: "PT_Book \<Rightarrow> bool" where
  "all_open B \<longleftrightarrow> (\<forall>x \<in> set (pt_orders B). open_order x)"

lemma open_residue: "residue x' x \<Longrightarrow> open_order x \<Longrightarrow> open_order x'"
  using residue_sel [of x' x] by (auto simp: open_order_def)

lemma open_eaten: "eaten xs' xs \<Longrightarrow> \<forall>x \<in> set xs. open_order x \<Longrightarrow> \<forall>x \<in> set xs'. open_order x"
  by (meson eatenE open_residue)

text \<open>No bid price reaches an ask price.\<close>

definition uncrossed :: "PT_Book \<Rightarrow> bool" where
  "uncrossed B \<longleftrightarrow> (\<forall>x \<in> set (pt_bids B). \<forall>y \<in> set (pt_asks B). o_price x < o_price y)"

definition price_sorted :: "book_side \<Rightarrow> Order list \<Rightarrow> bool" where
  "price_sorted s xs \<longleftrightarrow> sorted_wrt (\<lambda>x y. \<not> better s (o_price y) (o_price x)) xs"

lemma uncrossed_prices:
  "uncrossed B \<Longrightarrow> o_price ` set (pt_bids B') \<subseteq> o_price ` set (pt_bids B) \<Longrightarrow>
   o_price ` set (pt_asks B') \<subseteq> o_price ` set (pt_asks B) \<Longrightarrow> uncrossed B'"
proof -
  assume a: "uncrossed B" "o_price ` set (pt_bids B') \<subseteq> o_price ` set (pt_bids B)"
    "o_price ` set (pt_asks B') \<subseteq> o_price ` set (pt_asks B)"
  have "p < q" if "p \<in> o_price ` set (pt_bids B')" "q \<in> o_price ` set (pt_asks B')" for p q
  proof -
    have "p \<in> o_price ` set (pt_bids B)" "q \<in> o_price ` set (pt_asks B)" using that a(2,3) by blast+
    then show ?thesis using a(1) by (auto simp: uncrossed_def)
  qed
  then show ?thesis by (simp add: uncrossed_def)
qed

lemma eaten_prices: "eaten xs' xs \<Longrightarrow> o_price ` set xs' \<subseteq> o_price ` set xs"
proof
  fix p assume e: "eaten xs' xs" and "p \<in> o_price ` set xs'"
  then obtain x' where "x' \<in> set xs'" "p = o_price x'" by blast
  with eatenE [OF e this(1)] residue_sel(2) show "p \<in> o_price ` set xs" by blast
qed

lemma price_sorted_hd:
  "price_sorted s (x # xs) \<Longrightarrow> y \<in> set (x # xs) \<Longrightarrow> \<not> better s (o_price y) (o_price x)"
  by (cases s) (auto simp: price_sorted_def)

lemma uncrossed_sorted:
  assumes "price_sorted Bids (pt_bids B)" "price_sorted Asks (pt_asks B)"
    and "pt_bids B = [] \<or> pt_asks B = [] \<or> o_price (hd (pt_bids B)) < o_price (hd (pt_asks B))"
  shows "uncrossed B"
  unfolding uncrossed_def
proof (intro ballI)
  fix x y assume xy: "x \<in> set (pt_bids B)" "y \<in> set (pt_asks B)"
  then obtain u us v vs where e: "pt_bids B = u # us" "pt_asks B = v # vs"
    by (metis list.set_cases)
  then have "o_price x \<le> o_price u" "o_price v \<le> o_price y"
    using price_sorted_hd [of Bids u us x] price_sorted_hd [of Asks v vs y] assms(1,2) xy by (simp_all add: not_less)
  moreover have "o_price u < o_price v" using assms(3) e by simp
  ultimately show "o_price x < o_price y" by simp
qed

lemma sorted_eaten:
  assumes "eaten xs' xs" "price_sorted s xs"
  shows "price_sorted s xs'"
proof -
  obtain ys zs where e: "xs = ys @ zs" "list_all2 residue xs' zs" using assms(1) by (auto simp: eaten_def)
  have "map o_price xs' = map o_price zs" using e(2) residue_sel(2) by (rule residue_map)
  moreover have "price_sorted s zs" using assms(2) e(1) by (simp add: price_sorted_def sorted_wrt_append)
  ultimately show ?thesis unfolding price_sorted_def
    using sorted_wrt_map [of "\<lambda>p q. \<not> better s q p" o_price xs'] sorted_wrt_map [of "\<lambda>p q. \<not> better s q p" o_price zs]
    by metis
qed

lemma better_irrefl [simp]: "\<not> better s p p"
  by (cases s) auto

lemma better_antisym: "better s p q \<Longrightarrow> \<not> better s q p"
  by (cases s) auto

lemma better_trans: "\<not> better s q p \<Longrightarrow> better s q r \<Longrightarrow> better s p r"
  by (cases s) auto

lemma set_pt_insert: "set (pt_insert s x xs) = insert x (set xs)"
  unfolding pt_insert_def Let_def by (metis Un_insert_right list.simps(15) set_append takeWhile_dropWhile_id)

lemma sorted_insert:
  assumes "price_sorted s xs"
  shows "price_sorted s (pt_insert s x xs)"
  using assms
proof (induction xs)
  case Nil
  then show ?case by (simp add: pt_insert_def price_sorted_def)
next
  case (Cons y ys)
  show ?case
  proof (cases "better s (o_price x) (o_price y)")
    case True
    have "\<not> better s (o_price z) (o_price x)" if "z \<in> set (y # ys)" for z
      using price_sorted_hd [OF Cons.prems that] True by (cases s) auto
    with True Cons.prems show ?thesis by (simp add: pt_insert_def price_sorted_def)
  next
    case False
    have i: "pt_insert s x (y # ys) = y # pt_insert s x ys" using False by (simp add: pt_insert_def Let_def)
    from Cons False show ?thesis by (auto simp: i price_sorted_def set_pt_insert)
  qed
qed

section \<open>One request\<close>

text \<open>
  \<open>shrinks B' B\<close>: matching or a sweep took \<open>B\<close> to \<open>B'\<close>.
\<close>

definition shrinks :: "PT_Book \<Rightarrow> PT_Book \<Rightarrow> bool" where
  "shrinks B' B \<longleftrightarrow> eaten (pt_bids B') (pt_bids B) \<and> eaten (pt_asks B') (pt_asks B) \<and> pt_cap B' = pt_cap B"

lemma shrinks_refl [simp]: "shrinks B B"
  by (simp add: shrinks_def)

lemma pt_side_set [simp]:
  "pt_side (pt_set s xs B) s' = (if s' = s then xs else pt_side B s')" "pt_cap (pt_set s xs B) = pt_cap B"
  by (cases s; cases s'; simp)+

lemma pt_matchOrders_shrinks: "shrinks (fst (pt_matchOrders B)) B"
  using pt_match_eaten [of "pt_bids B" "pt_asks B"]
  by (simp add: pt_matchOrders_def shrinks_def split: prod.splits)

lemma pt_matchMarket_shrinks: "shrinks (fst (pt_matchMarket B req)) B"
  using pt_market_eaten [of "pt_asks B" "req_quantity req"] pt_market_eaten [of "pt_bids B" "req_quantity req"]
  by (simp add: pt_matchMarket_def pt_sweep_def shrinks_def split: prod.splits)

definition pt_wf :: "PT_Book \<Rightarrow> bool" where
  "pt_wf B \<longleftrightarrow> (\<forall>s. price_sorted s (pt_side B s)) \<and> uncrossed B"

lemma all_sides: "(\<forall>s. P s) \<longleftrightarrow> P Bids \<and> P Asks"
  by (metis book_side.exhaust)

lemma pt_wf_shrinks: "shrinks B' B \<Longrightarrow> pt_wf B \<Longrightarrow> pt_wf B'"
  unfolding pt_wf_def shrinks_def all_sides pt_side.simps
  using sorted_eaten uncrossed_prices eaten_prices by blast

lemma open_shrinks: "shrinks B' B \<Longrightarrow> all_open B \<Longrightarrow> all_open B'"
  unfolding all_open_def shrinks_def pt_orders_def set_append ball_Un using open_eaten by blast

lemma pt_matchOrders_wf:
  assumes "\<And>s. price_sorted s (pt_side B s)"
  shows "pt_wf (fst (pt_matchOrders B))"
proof -
  let ?B = "fst (pt_matchOrders B)"
  have s: "price_sorted Bids (pt_bids ?B)" "price_sorted Asks (pt_asks ?B)"
    using pt_matchOrders_shrinks [of B] assms [of Bids] assms [of Asks] sorted_eaten by (auto simp: shrinks_def)
  moreover have "pt_bids ?B = [] \<or> pt_asks ?B = [] \<or> o_price (hd (pt_bids ?B)) < o_price (hd (pt_asks ?B))"
    using pt_match_uncrossed [of "pt_bids B" "pt_asks B"] by (auto simp: pt_matchOrders_def split: prod.splits)
  ultimately show ?thesis unfolding pt_wf_def all_sides by (simp add: uncrossed_sorted)
qed

lemma pt_addOrder_cases:
  obtains "pt_addOrder B req = pt_matchMarket B req"
  | "pt_addOrder B req = (B, [], False)"
  | s where "pt_addOrder B req =
      pt_matchOrders (pt_set s (pt_insert s (Order_of (req_order_id req) req) (pt_side B s)) B)"
  unfolding pt_addOrder_def Let_def by (cases "req_type req = MARKET"; cases "pt_find B (req_order_id req)";
      cases "length (pt_orders B) = pt_cap B") auto

lemma pt_addOrder_wf: "pt_wf B \<Longrightarrow> pt_wf (fst (pt_addOrder B req))"
proof (cases rule: pt_addOrder_cases [of B req])
  case 1
  assume "pt_wf B"
  with 1 show ?thesis using pt_wf_shrinks [OF pt_matchMarket_shrinks] by simp
next
  case (3 s)
  assume "pt_wf B"
  then show ?thesis unfolding 3 by (intro pt_matchOrders_wf) (simp add: pt_wf_def sorted_insert)
qed simp

lemma sorted_filter: "price_sorted s xs \<Longrightarrow> price_sorted s (filter P xs)"
  by (simp add: price_sorted_def sorted_wrt_filter)

lemma pt_cancelOrder_wf: "pt_wf B \<Longrightarrow> pt_wf (pt_cancelOrder B oid)"
  unfolding pt_wf_def all_sides
  by (auto simp: pt_cancelOrder_def uncrossed_def intro: sorted_filter)

text \<open>\<open>modifyOrder\<close> with nothing to change only re-stamps the order.\<close>

definition pt_stamp :: "OrderId \<Rightarrow> Timestamp \<Rightarrow> PT_Book \<Rightarrow> PT_Book" where
  "pt_stamp oid t B = B\<lparr>pt_bids := map (stamp oid t) (pt_bids B), pt_asks := map (stamp oid t) (pt_asks B)\<rparr>"

lemma stamp_sel [simp]:
  "o_price (stamp oid t x) = o_price x" "o_id (stamp oid t x) = o_id x"
  "o_remaining_quantity (stamp oid t x) = o_remaining_quantity x"
  "o_initial_quantity (stamp oid t x) = o_initial_quantity x"
  by (simp_all add: stamp_def)

lemma pt_stamp_wf: "pt_wf B \<Longrightarrow> pt_wf (pt_stamp oid t B)"
  unfolding pt_wf_def all_sides by (simp add: pt_stamp_def uncrossed_def price_sorted_def sorted_wrt_map)

lemma pt_modifyOrder_cases:
  obtains "pt_modifyOrder B req x = pt_addOrder (pt_cancelOrder B (req_order_id req)) req"
  | "req_type req = MARKET"
      "pt_modifyOrder B req x = pt_matchMarket (pt_stamp (req_order_id req) (req_recv_tsc req) B) req"
  | "pt_modifyOrder B req x = pt_matchOrders (pt_stamp (req_order_id req) (req_recv_tsc req) B)"
  unfolding pt_modifyOrder_def pt_stamp_def [symmetric] Let_def by (metis (full_types))

lemma pt_modifyOrder_wf: "pt_wf B \<Longrightarrow> pt_wf (fst (pt_modifyOrder B req x))"
proof (cases rule: pt_modifyOrder_cases [of B req x])
  case 2
  assume "pt_wf B"
  then show ?thesis unfolding 2(2) using pt_wf_shrinks [OF pt_matchMarket_shrinks] pt_stamp_wf by blast
next
  case 3
  assume "pt_wf B"
  then show ?thesis unfolding 3 using pt_wf_shrinks [OF pt_matchOrders_shrinks] pt_stamp_wf by blast
qed (simp add: pt_addOrder_wf pt_cancelOrder_wf)

text \<open>The book after a request is the book before, or the result of one of the three operations.\<close>

lemma pt_process_cases:
  obtains "fst (pt_process B req) = B" "fst (snd (pt_process B req)) = []"
  | "req_message_type req = NEW" "fst (pt_process B req) = fst (pt_addOrder B req)"
      "fst (snd (pt_process B req)) = fst (snd (pt_addOrder B req))"
  | "req_message_type req = CANCEL" "fst (pt_process B req) = pt_cancelOrder B (req_order_id req)"
      "fst (snd (pt_process B req)) = []"
  | x where "req_message_type req = MODIFY" "pt_find B (req_order_id req) = Some x"
      "fst (pt_process B req) = fst (pt_modifyOrder B req x)"
      "fst (snd (pt_process B req)) = fst (snd (pt_modifyOrder B req x))"
proof (cases "req_message_type req = NEW")
  case True
  then show thesis using that(2) by (simp add: pt_process_def Let_def split: prod.splits)
next
  case n: False
  show thesis
  proof (cases "req_message_type req = CANCEL")
    case True
    show thesis
    proof (cases "pt_find B (req_order_id req)")
      case None
      with n True show thesis by (intro that(1)) (simp_all add: pt_process_def)
    next
      case (Some x)
      with n True that(1,3) show thesis by (cases "o_client_id x = req_client_id req") (simp_all add: pt_process_def)
    qed
  next
    case c: False
    show thesis
    proof (cases "req_message_type req = MODIFY")
      case True
      show thesis
      proof (cases "pt_find B (req_order_id req)")
        case None
        with n c True show thesis by (intro that(1)) (simp_all add: pt_process_def)
      next
        case (Some x)
        with n c True that(1) that(4) [OF True Some] show thesis
          by (cases "o_client_id x = req_client_id req \<and> o_side x = req_side req")
            (auto simp: pt_process_def split: prod.splits)
      qed
    next
      case False
      with n c show thesis using that(1) by (simp add: pt_process_def Let_def)
    qed
  qed
qed

lemma pt_process_wf: "pt_wf B \<Longrightarrow> pt_wf (fst (pt_process B req))"
  by (cases rule: pt_process_cases [of B req]) (simp_all add: pt_addOrder_wf pt_cancelOrder_wf pt_modifyOrder_wf)

section \<open>Quantities\<close>

lemma all_open_side: "all_open B \<longleftrightarrow> (\<forall>s. \<forall>x \<in> set (pt_side B s). open_order x)"
  unfolding all_open_def all_sides by (auto simp: pt_orders_def)

lemma open_Order_of: "0 < req_quantity req \<Longrightarrow> open_order (Order_of oid req)"
  by (simp add: open_order_def Order_of_def)

lemma pt_addOrder_open:
  assumes "all_open B" and "0 < req_quantity req"
  shows "all_open (fst (pt_addOrder B req))"
proof (cases rule: pt_addOrder_cases [of B req])
  case 1
  then show ?thesis using open_shrinks [OF pt_matchMarket_shrinks] assms(1) by simp
next
  case 2
  then show ?thesis using assms(1) by simp
next
  case (3 s)
  have "all_open (pt_set s (pt_insert s (Order_of (req_order_id req) req) (pt_side B s)) B)"
    using assms open_Order_of by (auto simp: all_open_side set_pt_insert)
  then show ?thesis unfolding 3 by (rule open_shrinks [OF pt_matchOrders_shrinks])
qed

lemma pt_cancelOrder_open: "all_open B \<Longrightarrow> all_open (pt_cancelOrder B oid)"
  by (auto simp: all_open_def pt_orders_def pt_cancelOrder_def)

lemma pt_stamp_open: "all_open B \<Longrightarrow> all_open (pt_stamp oid t B)"
  by (auto simp: all_open_def pt_orders_def pt_stamp_def open_order_def)

lemma pt_modifyOrder_open:
  assumes "all_open B" and "0 < req_quantity req"
  shows "all_open (fst (pt_modifyOrder B req x))"
proof (cases rule: pt_modifyOrder_cases [of B req x])
  case 1
  then show ?thesis using assms by (simp add: pt_addOrder_open pt_cancelOrder_open)
next
  case 2
  then show ?thesis using open_shrinks [OF pt_matchMarket_shrinks] pt_stamp_open [OF assms(1)] by simp
next
  case 3
  then show ?thesis using open_shrinks [OF pt_matchOrders_shrinks] pt_stamp_open [OF assms(1)] by simp
qed

lemma pt_process_open:
  assumes "all_open B" and "req_message_type req = CANCEL \<or> 0 < req_quantity req"
  shows "all_open (fst (pt_process B req))"
proof (cases rule: pt_process_cases [of B req])
  case 2
  then show ?thesis using assms enum_distinct by (simp add: pt_addOrder_open)
next
  case 4
  then show ?thesis using assms enum_distinct by (simp add: pt_modifyOrder_open)
qed (simp_all add: assms pt_cancelOrder_open)

section \<open>Queue order\<close>

text \<open>
  \<open>no_overtaking oid B' B\<close>: apart from the order \<open>oid\<close>, every order resting in \<open>B'\<close> rested in \<open>B\<close>
  on the same side, and they queue in the same order.
\<close>

definition ids_but :: "OrderId \<Rightarrow> Order list \<Rightarrow> OrderId list" where
  "ids_but oid xs = filter (\<lambda>i. i \<noteq> oid) (map o_id xs)"

definition no_overtaking :: "OrderId \<Rightarrow> PT_Book \<Rightarrow> PT_Book \<Rightarrow> bool" where
  "no_overtaking oid B' B \<longleftrightarrow> (\<forall>s. subseq (ids_but oid (pt_side B' s)) (ids_but oid (pt_side B s)))"

lemma no_overtaking_refl [simp]: "no_overtaking oid B B"
  by (simp add: no_overtaking_def)

lemma no_overtaking_trans: "no_overtaking oid B2 B1 \<Longrightarrow> no_overtaking oid B1 B \<Longrightarrow> no_overtaking oid B2 B"
  by (meson no_overtaking_def subseq_order.trans)

lemma no_overtaking_shrinks: "shrinks B' B \<Longrightarrow> no_overtaking oid B' B"
  unfolding no_overtaking_def all_sides shrinks_def ids_but_def pt_side.simps
  by (meson eaten_ids subseq_filter suffix_imp_subseq)

lemma no_overtaking_cong: "(\<And>s. ids_but oid (pt_side B' s) = ids_but oid (pt_side B s)) \<Longrightarrow> no_overtaking oid B' B"
  by (simp add: no_overtaking_def)

lemma ids_but_insert:
  assumes "o_id x = oid"
  shows "ids_but oid (pt_insert s x xs) = ids_but oid xs"
proof -
  let ?P = "\<lambda>y. \<not> better s (o_price x) (o_price y)"
  have "ids_but oid (takeWhile ?P xs @ x # dropWhile ?P xs) = ids_but oid (takeWhile ?P xs @ dropWhile ?P xs)"
    using assms by (simp add: ids_but_def del: takeWhile_dropWhile_id)
  then show ?thesis unfolding takeWhile_dropWhile_id by (simp add: pt_insert_def Let_def)
qed

lemma pt_addOrder_order: "no_overtaking (req_order_id req) (fst (pt_addOrder B req)) B"
proof (cases rule: pt_addOrder_cases [of B req])
  case 1
  then show ?thesis using no_overtaking_shrinks [OF pt_matchMarket_shrinks] by simp
next
  case (3 s)
  have "no_overtaking (req_order_id req)
      (pt_set s (pt_insert s (Order_of (req_order_id req) req) (pt_side B s)) B) B"
    by (rule no_overtaking_cong) (simp add: ids_but_insert Order_of_def)
  then show ?thesis unfolding 3 by (rule no_overtaking_trans [OF no_overtaking_shrinks [OF pt_matchOrders_shrinks]])
qed simp

lemma pt_cancelOrder_order: "no_overtaking oid (pt_cancelOrder B oid) B"
proof -
  have "ids_but oid (filter (\<lambda>x. o_id x \<noteq> oid) xs) = ids_but oid xs" for xs
    by (induction xs) (simp_all add: ids_but_def)
  then show ?thesis by (simp add: no_overtaking_def all_sides pt_cancelOrder_def)
qed

lemma pt_stamp_order: "no_overtaking oid (pt_stamp oid t B) B"
  by (simp add: no_overtaking_def all_sides pt_stamp_def ids_but_def comp_def)

lemma pt_modifyOrder_order: "no_overtaking (req_order_id req) (fst (pt_modifyOrder B req x)) B"
proof (cases rule: pt_modifyOrder_cases [of B req x])
  case 1
  then show ?thesis using no_overtaking_trans [OF pt_addOrder_order pt_cancelOrder_order] by simp
next
  case 2
  then show ?thesis
    using no_overtaking_trans [OF no_overtaking_shrinks [OF pt_matchMarket_shrinks] pt_stamp_order] by simp
next
  case 3
  then show ?thesis
    using no_overtaking_trans [OF no_overtaking_shrinks [OF pt_matchOrders_shrinks] pt_stamp_order] by simp
qed

lemma pt_process_order: "no_overtaking (req_order_id req) (fst (pt_process B req)) B"
  by (cases rule: pt_process_cases [of B req])
    (simp_all add: pt_addOrder_order pt_cancelOrder_order pt_modifyOrder_order)

lemma no_overtaking_ids:
  assumes "no_overtaking oid B' B" and "x \<in> set (pt_orders B')" and "o_id x \<noteq> oid"
  shows "o_id x \<in> o_id ` set (pt_orders B)"
proof -
  obtain s where "x \<in> set (pt_side B' s)"
    using assms(2) that [of Bids] that [of Asks] by (auto simp: pt_orders_def)
  then have "o_id x \<in> set (ids_but oid (pt_side B' s))" using assms(3) by (simp add: ids_but_def)
  then have "o_id x \<in> set (ids_but oid (pt_side B s))"
    using assms(1) unfolding no_overtaking_def by (metis subseq_singleton_left subseq_order.trans)
  then show ?thesis by (cases s) (auto simp: ids_but_def pt_orders_def)
qed

section \<open>Trades\<close>

text \<open>
  On an uncrossed book only the order \<open>oid\<close> that just arrived can cross, so it is a party to every
  trade.
\<close>

lemma requeue_prop:
  "\<forall>u \<in> set xs. P (o_id u) (o_price u) \<Longrightarrow> \<forall>u \<in> set (requeue q xs). P (o_id u) (o_price u)"
  by (cases xs) (auto simp: requeue_def take_qty_def)

lemma pt_match_party:
  assumes "pt_match xs ys = (xs', ys', ts)"
    and "\<forall>u \<in> set xs. \<forall>v \<in> set ys. o_id u \<noteq> oid \<and> o_id v \<noteq> oid \<longrightarrow> o_price u < o_price v"
  shows "\<forall>(x, y, q) \<in> set ts. o_id x = oid \<or> o_id y = oid"
  using assms
proof (induction xs ys arbitrary: xs' ys' ts rule: pt_match.induct)
  case (3 x xs y ys)
  show ?case
  proof (cases "o_price x < o_price y")
    case True then show ?thesis using 3 by simp
  next
    case False
    let ?q = "min (o_remaining_quantity x) (o_remaining_quantity y)"
    let ?xs = "requeue ?q (x # xs)" and ?ys = "requeue ?q (y # ys)"
    obtain us vs ts' where r: "pt_match ?xs ?ys = (us, vs, ts')" by (metis prod.exhaust)
    have "\<forall>u \<in> set ?xs. \<forall>v \<in> set (y # ys). o_id u \<noteq> oid \<and> o_id v \<noteq> oid \<longrightarrow> o_price u < o_price v"
      by (rule requeue_prop [where P = "\<lambda>i p. \<forall>v \<in> set (y # ys). i \<noteq> oid \<and> o_id v \<noteq> oid \<longrightarrow> p < o_price v"])
        (use "3.prems"(2) in blast)
    then have "\<forall>v \<in> set ?ys. \<forall>u \<in> set ?xs. o_id u \<noteq> oid \<and> o_id v \<noteq> oid \<longrightarrow> o_price u < o_price v"
      by (intro requeue_prop [where P = "\<lambda>i p. \<forall>u \<in> set ?xs. o_id u \<noteq> oid \<and> i \<noteq> oid \<longrightarrow> o_price u < p"]) blast
    then have "\<forall>(x, y, q) \<in> set ts'. o_id x = oid \<or> o_id y = oid" using "3.IH" [OF False refl r] by blast
    moreover have "o_id x = oid \<or> o_id y = oid" using False "3.prems"(2) by auto
    moreover have "ts = (x, y, ?q) # ts'" using "3.prems"(1) False r by (simp add: Let_def)
    ultimately show ?thesis by auto
  qed
qed auto

lemma residue_eaten:
  assumes "eaten xs' xs" and "\<exists>z \<in> set xs'. residue u z"
  shows "\<exists>z \<in> set xs. residue u z"
  using assms(2) eatenE [OF assms(1)] residue_trans by metis

text \<open>Both parties of a trade accept its price, and it never exceeds either open quantity.\<close>

lemma pt_match_trades:
  assumes "pt_match xs ys = (xs', ys', ts)"
  shows "\<forall>(x, y, q) \<in> set ts. o_price y \<le> o_price x \<and> q = min (o_remaining_quantity x) (o_remaining_quantity y)
     \<and> (\<exists>x0 \<in> set xs. residue x x0) \<and> (\<exists>y0 \<in> set ys. residue y y0)"
  using assms
proof (induction xs ys arbitrary: xs' ys' ts rule: pt_match.induct)
  case (3 x xs y ys)
  show ?case
  proof (cases "o_price x < o_price y")
    case True then show ?thesis using 3 by simp
  next
    case False
    let ?q = "min (o_remaining_quantity x) (o_remaining_quantity y)"
    let ?xs = "requeue ?q (x # xs)" and ?ys = "requeue ?q (y # ys)"
    obtain us vs ts' where r: "pt_match ?xs ?ys = (us, vs, ts')" by (metis prod.exhaust)
    have e: "eaten ?xs (x # xs)" "eaten ?ys (y # ys)" by (rule eaten_requeue; simp)+
    note up = residue_eaten [OF e(1)] residue_eaten [OF e(2)]
    have "\<forall>(u, v, q) \<in> set ts'. o_price v \<le> o_price u \<and> q = min (o_remaining_quantity u) (o_remaining_quantity v)
       \<and> (\<exists>z \<in> set (x # xs). residue u z) \<and> (\<exists>z \<in> set (y # ys). residue v z)"
      using "3.IH" [OF False refl r] up by (fastforce split: prod.splits)
    moreover have "ts = (x, y, ?q) # ts'" using "3.prems"(1) False r by (simp add: Let_def)
    ultimately show ?thesis using False by (auto simp: not_less)
  qed
qed auto

lemma pt_market_volume:
  "pt_market xs r = (xs', r', ts) \<Longrightarrow>
   volume xs = volume xs' + (\<Sum>(x, q) \<leftarrow> ts. unat q) \<and> unat r = unat r' + (\<Sum>(x, q) \<leftarrow> ts. unat q)"
proof (induction xs r arbitrary: xs' r' ts rule: pt_market.induct)
  case (2 x xs r)
  let ?q = "min r (o_remaining_quantity x)"
  have v: "volume (requeue ?q (x # xs)) + unat ?q = volume (x # xs)" by (rule volume_requeue) simp
  have u: "unat (r - ?q) + unat ?q = unat r" by (simp add: unat_sub_min unat_min del: word_sub_min_left)
  show ?case
  proof (cases "r \<noteq> 0 \<and> is_filled (take_qty ?q x)")
    case True
    obtain us r1 ts1 where m: "pt_market xs (r - ?q) = (us, r1, ts1)" by (metis prod.exhaust)
    from "2.IH" [OF _ refl _ m] True
    have "volume xs = volume us + (\<Sum>(x, q) \<leftarrow> ts1. unat q) \<and> unat (r - ?q) = unat r1 + (\<Sum>(x, q) \<leftarrow> ts1. unat q)"
      by blast
    moreover have "xs' = us" "r' = r1" "ts = (x, ?q) # ts1" using "2.prems" True m by (simp_all add: Let_def)
    moreover have "volume xs + unat ?q = volume (x # xs)" using v True by (simp add: requeue_Cons)
    ultimately show ?thesis using u by (simp del: volume_simps word_sub_min_left)
  next
    case False
    show ?thesis
    proof (cases "r = 0")
      case True
      then show ?thesis using "2.prems" by simp
    next
      case nz: False
      with False have "xs' = requeue ?q (x # xs)" "r' = r - ?q" "ts = [(x, ?q)]"
        using "2.prems" by (simp_all add: Let_def requeue_Cons)
      then show ?thesis using u v by (simp del: volume_simps word_sub_min_left)
    qed
  qed
qed simp

section \<open>Answers\<close>

text \<open>
  When the acknowledgement of a request is suppressed, a MATCH message names the request's order
  and its client.
\<close>

definition answers :: "OrderRequest \<Rightarrow> OutboundMessage \<Rightarrow> bool" where
  "answers req m \<longleftrightarrow> om_order_id m = req_order_id req \<and> om_client_id m = req_client_id req
     \<and> om_message_type m = MATCH \<and> om_status m = SUCCESS"

lemma match_msg_sel [simp]:
  "om_order_id (match_msg x) = o_id x" "om_client_id (match_msg x) = o_client_id x"
  "om_message_type (match_msg x) = MATCH" "om_status (match_msg x) = SUCCESS"
  by (simp_all add: match_msg_def)

lemma market_msg_answers [simp]: "answers req (market_msg req)"
  by (simp add: answers_def market_msg_def)

lemma set_match_msgs: "(x, y, q) \<in> set ts \<Longrightarrow> match_msg x \<in> set (match_msgs ts) \<and> match_msg y \<in> set (match_msgs ts)"
  by (force simp: match_msgs_def)

lemma pt_sweep_answers:
  assumes "pt_sweep s B req = (B', ms, True)" and "req_quantity req \<noteq> 0"
  shows "\<exists>m \<in> set ms. answers req m"
proof -
  obtain xs r ts where m: "pt_market (pt_side B s) (req_quantity req) = (xs, r, ts)" by (metis prod.exhaust)
  with assms(1) have "r = 0" "ms = market_msgs req ts" by (auto simp: pt_sweep_def)
  moreover have "ts \<noteq> []" using pt_market_volume [OF m] assms(2) \<open>r = 0\<close> by (auto simp: unat_eq_zero)
  ultimately show ?thesis by (cases ts) (auto simp: market_msgs_def intro: bexI [of _ "market_msg req"])
qed

lemma pt_matchMarket_answers:
  assumes "pt_matchMarket B req = (B', ms, True)" and "req_quantity req \<noteq> 0"
  shows "\<exists>m \<in> set ms. answers req m"
  using assms pt_sweep_answers unfolding pt_matchMarket_def by (auto split: if_splits)

lemma uncrossed_no_match:
  assumes "uncrossed B"
  shows "pt_matchOrders B = (B, [], False)"
proof -
  have "pt_match (pt_bids B) (pt_asks B) = (pt_bids B, pt_asks B, [])"
    using assms by (cases "pt_bids B"; cases "pt_asks B") (auto simp: uncrossed_def)
  then show ?thesis by (simp add: pt_matchOrders_def match_msgs_def)
qed

lemma pt_find_None: "pt_find B oid = None \<longleftrightarrow> (\<forall>x \<in> set (pt_orders B). o_id x \<noteq> oid)"
  by (auto simp: pt_find_def find_None_iff)

lemma insert_answers:
  assumes U: "uncrossed B" and fresh: "pt_find B (req_order_id req) = None"
    and C: "C = pt_set s (pt_insert s (Order_of (req_order_id req) req) (pt_side B s)) B"
    and m: "pt_matchOrders C = (B', ms, True)"
  shows "\<exists>m \<in> set ms. answers req m"
proof -
  let ?o = "Order_of (req_order_id req) req"
  obtain xs ys ts where p: "pt_match (pt_bids C) (pt_asks C) = (xs, ys, ts)" by (metis prod.exhaust)
  with m have ms: "ms = match_msgs ts" "ts \<noteq> []" by (auto simp: pt_matchOrders_def)
  have old: "z = ?o \<or> z \<in> set (pt_orders B)" if "z \<in> set (pt_side C s')" for z s'
    using that unfolding C by (cases s; cases s') (auto simp: set_pt_insert pt_orders_def)
  have mem: "z \<in> set (pt_side B s')" if "z \<in> set (pt_side C s')" "o_id z \<noteq> req_order_id req" for z s'
    using that unfolding C by (cases s; cases s') (auto simp: set_pt_insert Order_of_def)
  have "\<forall>u \<in> set (pt_bids C). \<forall>v \<in> set (pt_asks C).
      o_id u \<noteq> req_order_id req \<and> o_id v \<noteq> req_order_id req \<longrightarrow> o_price u < o_price v"
    using mem [of _ Bids] mem [of _ Asks] U by (auto simp: uncrossed_def)
  note party = pt_match_party [OF p this] and res = pt_match_trades [OF p]
  obtain x y q where t: "(x, y, q) \<in> set ts" using ms(2) by (cases ts) auto
  have ans: "answers req (match_msg z)" if "o_id z = req_order_id req" "z0 \<in> set (pt_side C s')" "residue z z0" for z z0 s'
  proof -
    have "o_id z0 = req_order_id req" using that residue_sel(1) by simp
    then have "z0 = ?o" using old [OF that(2)] fresh by (auto simp: pt_find_None)
    then show ?thesis using that residue_sel(4) [OF that(3)] by (simp add: answers_def Order_of_def)
  qed
  have "(\<exists>x0 \<in> set (pt_side C Bids). residue x x0) \<and> (\<exists>y0 \<in> set (pt_side C Asks). residue y y0)"
    using res t by (auto split: prod.splits)
  moreover have "o_id x = req_order_id req \<or> o_id y = req_order_id req" using party t by (auto split: prod.splits)
  ultimately have "answers req (match_msg x) \<or> answers req (match_msg y)" using ans by blast
  then show ?thesis using set_match_msgs [OF t] ms(1) by blast
qed

lemma pt_addOrder_answers:
  assumes "uncrossed B" and "pt_addOrder B req = (B', ms, True)" and "req_type req = MARKET \<longrightarrow> req_quantity req \<noteq> 0"
  shows "\<exists>m \<in> set ms. answers req m"
proof (cases "req_type req = MARKET")
  case True
  then show ?thesis using assms pt_matchMarket_answers by (simp add: pt_addOrder_def)
next
  case False
  then show ?thesis
    using assms(2) insert_answers [OF assms(1) _ refl, of req] by (auto simp: pt_addOrder_def Let_def split: if_splits)
qed

lemma pt_process_answers:
  assumes W: "pt_wf B" and p: "pt_process B req = (B', ms, r)" and "suppress_ack r"
    and q: "req_type req = MARKET \<longrightarrow> req_quantity req \<noteq> 0"
  shows "\<exists>m \<in> set ms. answers req m"
proof -
  have U: "uncrossed B" using W by (simp add: pt_wf_def)
  have Uc: "uncrossed (pt_cancelOrder B oid)" "uncrossed (pt_stamp oid t B)" for oid t
    using pt_cancelOrder_wf [OF W] pt_stamp_wf [OF W] by (simp_all add: pt_wf_def)
  consider (new) "pt_addOrder B req = (B', ms, True)"
    | (modify) x where "pt_modifyOrder B req x = (B', ms, True)"
    using p \<open>suppress_ack r\<close> unfolding pt_process_def Let_def
    by (auto split: if_splits option.splits prod.splits)
  then show ?thesis
  proof cases
    case new
    then show ?thesis using pt_addOrder_answers [OF U _ q] by blast
  next
    case (modify x)
    then show ?thesis
    proof (cases rule: pt_modifyOrder_cases [of B req x])
      case 1
      then show ?thesis using modify pt_addOrder_answers [OF Uc(1) _ q, of "req_order_id req" B' ms] by simp
    next
      case 2
      then show ?thesis using modify pt_matchMarket_answers [of _ req B' ms] q by simp
    next
      case 3
      then show ?thesis using modify uncrossed_no_match [OF Uc(2)] by simp
    qed
  qed
qed

end
