(* ===== verification/Orderbook_Refine.thy ===== *)
theory Orderbook_Refine
  imports Orderbook_Rep Price_Time_Laws
begin

text \<open>
  \<^verbatim>\<open>Orderbook::process\<close> implements the abstract price-time book of \<open>Orderbook_Spec\<close>.

  The abstraction \<open>book_abs\<close> reads the ladder from the best price outwards and concatenates the
  levels. \<open>refines b B\<close> says that the book \<open>b\<close> satisfies the representation invariant and
  abstracts to \<open>B\<close>. Each member function is shown to return normally (no fault, no divergence)
  and to commute with its abstract counterpart, pushing exactly the abstract messages onto the
  outbound ring.
\<close>

section \<open>The ladder in priority order\<close>

definition ladder :: "book_side \<Rightarrow> Price list" where
  "ladder s = (let up = map of_nat [1..<Suc (unat MAX_PRICE)]
               in case s of Asks \<Rightarrow> up | Bids \<Rightarrow> rev up)"

definition slots :: "ghost \<Rightarrow> book_side \<Rightarrow> slot list" where
  "slots sl s = concat (map (sl s) (ladder s))"

lemma sorted_up: "sorted_wrt (<) (map of_nat [1..<Suc (unat MAX_PRICE)] :: Price list)"
proof -
  have m: "unat MAX_PRICE < 2 ^ 32" by (simp add: MAX_PRICE_def)
  have "(of_nat i :: Price) < of_nat j" if "i < j" "j \<in> set [1..<Suc (unat MAX_PRICE)]" for i j
  proof -
    have "i < 2 ^ 32" "j < 2 ^ 32" using that m by auto
    with that(1) show ?thesis by (simp add: word_less_nat_alt unat_of_nat)
  qed
  then show ?thesis
    unfolding sorted_wrt_map by (intro sorted_wrt_mono_rel [OF _ sorted_wrt_upt]) blast
qed

lemma better_eq: "better Bids = (\<lambda>p q. q < p)" "better Asks = (<)"
  by (auto simp: fun_eq_iff)

lemma sorted_ladder: "sorted_wrt (better s) (ladder s)"
  using sorted_up by (cases s) (simp_all add: ladder_def Let_def sorted_wrt_rev better_eq del: upt_Suc)

lemma distinct_ladder: "distinct (ladder s)"
proof -
  have "distinct (map of_nat [1..<Suc (unat MAX_PRICE)] :: Price list)"
    using sorted_up by (simp only: strict_sorted_iff)
  then show ?thesis by (cases s) (simp_all add: ladder_def Let_def del: upt_Suc)
qed

lemma set_ladder [simp]: "set (ladder s) = {p. valid_price p}"
proof -
  have m: "unat MAX_PRICE = 100000" by (simp add: MAX_PRICE_def)
  have "set (map of_nat [1..<Suc (unat MAX_PRICE)] :: Price list) = {p. valid_price p}"
  proof (intro set_eqI iffI)
    fix p :: Price assume "p \<in> {p. valid_price p}"
    then have "p = of_nat (unat p)" "unat p \<in> {1..<Suc (unat MAX_PRICE)}"
      by (auto simp: valid_price_unat m)
    then show "p \<in> set (map of_nat [1..<Suc (unat MAX_PRICE)] :: Price list)"
      unfolding set_map set_upt by (rule image_eqI)
  next
    fix p :: Price assume "p \<in> set (map of_nat [1..<Suc (unat MAX_PRICE)])"
    then obtain i where "p = of_nat i" "1 \<le> i" "i \<le> 100000" by (auto simp: m simp del: upt_Suc)
    then show "p \<in> {p. valid_price p}" by (simp add: valid_price_unat unat_of_nat)
  qed
  then show ?thesis by (cases s) (simp_all add: ladder_def Let_def del: upt_Suc)
qed

lemma ladder_split:
  assumes "valid_price p"
  obtains us vs where "ladder s = us @ p # vs" "p \<notin> set us" "p \<notin> set vs"
    "\<forall>u \<in> set us. better s u p" "\<forall>v \<in> set vs. better s p v"
proof -
  obtain us vs where e: "ladder s = us @ p # vs"
    using assms set_ladder [of s] split_list [of p "ladder s"] by auto
  then have "\<forall>u \<in> set us. better s u p" "\<forall>v \<in> set vs. better s p v"
    using sorted_ladder [of s] by (auto simp: sorted_wrt_append)
  with e that [of us vs] show ?thesis by fastforce
qed

section \<open>The slots of a side in priority order\<close>

lemma slots_other: "s' \<noteq> s \<Longrightarrow> slots (put sl s p xs) s' = slots sl s'"
  by (simp add: slots_def put_def)

lemma put_side: "put sl s p xs s = (sl s)(p := xs)"
  by (simp add: put_def)

lemma slots_put:
  assumes "ladder s = us @ p # vs" "p \<notin> set us" "p \<notin> set vs"
  shows "slots (put sl s p xs) s = concat (map (sl s) us) @ xs @ concat (map (sl s) vs)"
  using assms by (simp add: slots_def put_side concat_map_upd_notin)

lemma slots_front:
  assumes "valid_price p" and "sl s p = x # xs" and "\<And>q. sl s q \<noteq> [] \<Longrightarrow> \<not> better s q p"
  shows "slots sl s = x # slots (put sl s p xs) s"
proof -
  obtain us vs where l: "ladder s = us @ p # vs" "p \<notin> set us" "p \<notin> set vs"
    "\<forall>u \<in> set us. better s u p" "\<forall>v \<in> set vs. better s p v" by (rule ladder_split [OF assms(1), of s])
  have c: "concat (map (sl s) us) = []" using l(4) assms(3) by (auto simp: concat_eq_Nil_conv)
  show ?thesis
    unfolding slots_put [OF l(1-3)] c unfolding slots_def l(1) map_append concat_append c
    by (simp add: assms(2))
qed

lemma slots_empty:
  assumes "links_rep b sl"
  shows "slots sl s = [] \<longleftrightarrow> (\<forall>p. sl s p = [])"
proof -
  have "sl s p = []" if "\<not> valid_price p" for p using assms that by (simp add: links_rep_def)
  then show ?thesis by (auto simp: slots_def)
qed

lemma set_slots: "links_rep b sl \<Longrightarrow> x \<in> set (slots sl s) \<longleftrightarrow> (\<exists>p. x \<in> set (sl s p))"
  unfolding slots_def using links_rep_valid [of b sl x s] by auto

lemma distinct_concat_disj:
  assumes "distinct ps" and "\<And>p. distinct (f p)" and "\<And>p q. p \<noteq> q \<Longrightarrow> set (f p) \<inter> set (f q) = {}"
  shows "distinct (concat (map f ps))"
  using assms(1)
proof (induction ps)
  case (Cons a ps)
  have "set (f a) \<inter> set (f p) = {}" if "p \<in> set ps" for p
    using Cons.prems that by (intro assms(3)) auto
  with Cons assms(2) show ?case by auto
qed simp

lemma distinct_slots:
  assumes "core_rep b sl"
  shows "distinct (slots sl s)"
  unfolding slots_def
proof (rule distinct_concat_disj [OF distinct_ladder])
  show "distinct (sl s p)" for p by (rule core_distinct [OF assms])
  have L: "links_rep b sl" using assms by (simp add: core_rep_def)
  show "p \<noteq> q \<Longrightarrow> set (sl s p) \<inter> set (sl s q) = {}" for p q
    using links_rep_disj [OF L, of _ s p s q] by auto
qed

lemma slots_delete:
  assumes C: "core_rep b sl" and x: "sl s p = us @ x # vs"
  shows "slots (put sl s p (us @ vs)) s' = filter (\<lambda>y. y \<noteq> x) (slots sl s')"
proof -
  have "put sl s p (us @ vs) s' = (\<lambda>q. filter (\<lambda>y. y \<noteq> x) (sl s' q))"
  proof (rule ext)
    fix q show "put sl s p (us @ vs) s' q = filter (\<lambda>y. y \<noteq> x) (sl s' q)"
  proof (cases "s' = s \<and> q = p")
    case True
    have "distinct (us @ x # vs)" using core_distinct [OF C, of s p] x by simp
    then have "filter (\<lambda>y. y \<noteq> x) us = us" "filter (\<lambda>y. y \<noteq> x) vs = vs"
      by (auto intro!: filter_id_conv_all)
    with True x show ?thesis by simp
  next
    case False
    have "x \<notin> set (sl s' q)"
      using links_rep_disj [of b sl x s p s' q] C x False by (auto simp: core_rep_def)
    then have "filter (\<lambda>y. y \<noteq> x) (sl s' q) = sl s' q" by (intro filter_id_conv_all) auto
    with False show ?thesis by auto
  qed
  qed
  then show ?thesis unfolding slots_def filter_concat by (simp add: comp_def)
qed

lemma slots_insert:
  assumes v: "valid_price p" and price: "\<And>q y. y \<in> set (sl s q) \<Longrightarrow> o_price (g y) = q"
    and "o_price (g x) = p"
  shows "map g (slots (put sl s p (sl s p @ [x])) s) = pt_insert s (g x) (map g (slots sl s))"
proof -
  obtain us vs where l: "ladder s = us @ p # vs" "p \<notin> set us" "p \<notin> set vs"
    "\<forall>u \<in> set us. better s u p" "\<forall>v \<in> set vs. better s p v"
    by (rule ladder_split [OF v, of s])
  let ?A = "map g (concat (map (sl s) us) @ sl s p)" and ?Z = "map g (concat (map (sl s) vs))"
  let ?ahead = "\<lambda>y. \<not> better s p (o_price y)"
  have old: "map g (slots sl s) = ?A @ ?Z" by (simp add: slots_def l(1))
  have a: "?ahead y" if "y \<in> set ?A" for y
  proof -
    from that obtain q z where z: "y = g z" "z \<in> set (sl s q)" "q = p \<or> q \<in> set us" by auto
    then show ?thesis using price [OF z(2)] l(4) better_antisym by auto
  qed
  have n: "\<not> ?ahead y" if "y \<in> set ?Z" for y
  proof -
    from that obtain q z where z: "y = g z" "z \<in> set (sl s q)" "q \<in> set vs" by auto
    then show ?thesis using price [OF z(2)] l(5) by auto
  qed
  have z: "takeWhile ?ahead ?Z = []" "dropWhile ?ahead ?Z = ?Z"
    using n [OF hd_in_set, of] by (auto simp only: takeWhile_eq_Nil_iff dropWhile_eq_self_iff)
  have "takeWhile ?ahead (?A @ ?Z) = ?A @ takeWhile ?ahead ?Z"
    by (rule takeWhile_append2) (rule a)
  moreover have "dropWhile ?ahead (?A @ ?Z) = dropWhile ?ahead ?Z"
    by (rule dropWhile_append2) (rule a)
  ultimately show ?thesis unfolding pt_insert_def old Let_def assms(3) slots_put [OF l(1-3)] z by simp
qed

section \<open>Abstraction\<close>

text \<open>From here on the members of a side are only named through their selectors.\<close>

lemmas raw_side = levels.simps [symmetric] best.simps [symmetric] non_empty.simps [symmetric]

declare levels.simps [simp del] best.simps [simp del] non_empty.simps [simp del]

definition book_abs :: "Orderbook \<Rightarrow> ghost \<Rightarrow> PT_Book" where
  "book_abs b sl = \<lparr>pt_bids = map (pay b) (slots sl Bids), pt_asks = map (pay b) (slots sl Asks),
     pt_cap = arena_size (pool b)\<rparr>"

definition refines :: "Orderbook \<Rightarrow> PT_Book \<Rightarrow> bool" where
  "refines b B \<longleftrightarrow> (\<exists>sl. book_rep b sl \<and> B = book_abs b sl)"

lemma book_abs_simps [simp]:
  "pt_side (book_abs b sl) s = map (pay b) (slots sl s)"
  "pt_bids (book_abs b sl) = map (pay b) (slots sl Bids)"
  "pt_asks (book_abs b sl) = map (pay b) (slots sl Asks)"
  "pt_cap (book_abs b sl) = arena_size (pool b)"
  by (cases s; simp add: book_abs_def)+

lemma side_exhaust_other: "s' \<noteq> s \<Longrightarrow> (s'' :: book_side) = s \<or> s'' = s'"
  by (cases s; cases s'; cases s'') auto

lemma slots_disjoint:
  assumes "links_rep b sl" and "x \<in> set (sl s p)" and "s' \<noteq> s"
  shows "x \<notin> set (slots sl s')"
  using set_slots [OF assms(1)] links_rep_disj [OF assms(1,2)] assms(3) by blast

lemma slots_requeue:
  assumes C: "core_rep b sl" and x: "sl s p = x # xs"
    and front: "\<forall>q. sl s q \<noteq> [] \<longrightarrow> \<not> better s q p"
    and sl': "sl' = (if is_filled (take_qty q (g x)) then put sl s p xs else sl)"
  shows "map (g(x := take_qty q (g x))) (slots sl' s) = requeue q (map g (slots sl s))"
    and "s' \<noteq> s \<Longrightarrow> map (g(x := take_qty q (g x))) (slots sl' s') = map g (slots sl s')"
proof -
  let ?g = "g(x := take_qty q (g x))"
  have L: "links_rep b sl" using C by (simp add: core_rep_def)
  have v: "valid_price p" using links_rep_valid [OF L, of x s p] x by simp
  have f: "slots sl s = x # slots (put sl s p xs) s" using front by (intro slots_front [of p sl s, OF v x]) blast
  have "x \<notin> set (slots (put sl s p xs) s)" using distinct_slots [OF C, of s] f by simp
  then have tl: "map ?g (slots (put sl s p xs) s) = map g (slots (put sl s p xs) s)"
    by auto
  show "map ?g (slots sl' s) = requeue q (map g (slots sl s))"
  proof (cases "is_filled (take_qty q (g x))")
    case True
    then show ?thesis unfolding f by (simp add: sl' requeue_Cons tl)
  next
    case False
    then have "sl' = sl" by (simp add: sl')
    then show ?thesis using False unfolding \<open>sl' = sl\<close> f list.map requeue_Cons tl by simp
  qed
  assume s': "s' \<noteq> s"
  then have "x \<notin> set (slots sl s')" using slots_disjoint [OF L, of x s p s'] x by simp
  moreover have "slots sl' s' = slots sl s'" using s' slots_other by (simp add: sl')
  ultimately show "map ?g (slots sl' s') = map g (slots sl s')" by auto
qed

text \<open>
  Accounting for a level after its front was consumed: \<open>f\<close> is the side before, \<open>sl\<close> the
  ghost after.
\<close>

definition other :: "book_side \<Rightarrow> book_side" where
  "other s = (case s of Bids \<Rightarrow> Asks | Asks \<Rightarrow> Bids)"

lemma other_simps [simp]: "other Bids = Asks" "other Asks = Bids" "other s \<noteq> s"
  by (cases s; simp add: other_def)+

lemma settle_rep:
  assumes C: "core_rep b sl" and P: "price_rep b s f" and p: "best b s = p" and ne: "f p \<noteq> []"
    and v: "valid_price p" and sl: "\<forall>r. r \<noteq> p \<longrightarrow> sl s r = f r"
  obtains b' where
    "(if plq_empty (levels b s (p - MIN_PRICE)) then level_done s b else ok b) = ok b'"
    "core_rep b' sl" "price_rep b' s (sl s)" "pay b' = pay b" "out_ring b' = out_ring b"
    "best b' (other s) = best b (other s)" "non_empty b' (other s) = non_empty b (other s)"
    "arena_size (pool b') = arena_size (pool b)" "levels b' = levels b"
    "sl s p \<noteq> [] \<longrightarrow> best b' s = p"
proof -
  have L: "links_rep b sl" using C by (simp add: core_rep_def)
  have e: "plq_empty (levels b s (p - MIN_PRICE)) \<longleftrightarrow> sl s p = []"
    using links_rep_empty [OF L v, of s] by simp
  show ?thesis
  proof (cases "sl s p = []")
    case False
    have "(sl s r = []) = (f r = [])" for r using ne sl False by (cases "r = p") auto
    then have "price_rep b s (sl s)" by (intro price_rep_cong [OF P]) auto
    with False C p e show ?thesis by (intro that [of b]) auto
  next
    case True
    have g: "sl s = f(best b s := [])" using sl True p by auto
    have "levels_rep (levels b s) (f(best b s := []))" using links_levels_rep [OF L, of s] g by simp
    then obtain p' where d: "level_done s b = ok (set_best s p' (set_non_empty s (non_empty b s - 1) b))"
      and P': "price_rep (set_best s p' (set_non_empty s (non_empty b s - 1) b)) s (f(best b s := []))"
      using level_done_ok [OF P] ne v p by auto
    let ?b = "set_best s p' (set_non_empty s (non_empty b s - 1) b)"
    have "core_rep ?b sl"
      using C links_rep_cong [OF L, of ?b] by (simp add: core_rep_def index_rep_def)
    moreover have "levels ?b = levels b" by (simp add: fun_eq_iff)
    ultimately show ?thesis using d P' e True g by (intro that [of ?b]) simp_all
  qed
qed

lemma take_qty_pay: "(pay b x)\<lparr>o_remaining_quantity := o_remaining_quantity (pay b x) - q\<rparr> = take_qty q (pay b x)"
  by (simp add: take_qty_def)

lemma book_rep_front:
  assumes "book_rep b sl" and "0 < non_empty b s"
  obtains x xs where "sl s (best b s) = x # xs" "valid_price (best b s)"
    "\<forall>q. sl s q \<noteq> [] \<longrightarrow> \<not> better s q (best b s)"
proof -
  have P: "price_rep b s (sl s)" and L: "links_rep b sl" using assms(1) by (auto simp: book_rep_def)
  note f = price_rep_best [OF P assms(2)]
  then obtain x xs where x: "sl s (best b s) = x # xs" by (cases "sl s (best b s)") auto
  moreover have "valid_price (best b s)" using links_rep_valid [OF L, of x s "best b s"] x by simp
  ultimately show ?thesis using f(2) that by blast
qed

lemma push_out_core: "core_rep b sl \<Longrightarrow> core_rep (push_out m b) sl"
  using links_rep_cong [of b sl "push_out m b"] by (simp add: core_rep_def index_rep_def)

lemma price_rep_env: "price_rep b s f \<Longrightarrow> best b' s = best b s \<Longrightarrow> non_empty b' s = non_empty b s \<Longrightarrow> price_rep b' s f"
  by (simp add: price_rep_def)

text \<open>Trading \<open>q\<close> between the two front orders, up to the accounting of emptied levels.\<close>

lemma fronts_consumed:
  assumes C: "core_rep b sl" and x: "sl Bids pb = x # xs" and y: "sl Asks pa = y # ys"
    and qx: "q \<le> o_remaining_quantity (pay b x)" and qy: "q \<le> o_remaining_quantity (pay b y)"
    and front: "\<forall>r. sl Bids r \<noteq> [] \<longrightarrow> \<not> better Bids r pb" "\<forall>r. sl Asks r \<noteq> [] \<longrightarrow> \<not> better Asks r pa"
    and ms: "m1 = match_msg (pay b x)" "m2 = match_msg (pay b y)"
  obtains b1 b2 b3 b4 sl' where
    "fill_order b x q = ok b1" "fill_order b1 y q = ok b2"
    "retire_filled (push_out m2 (push_out m1 b2)) Bids pb x = ok b3" "retire_filled b3 Asks pa y = ok b4"
    "core_rep b4 sl'" "\<And>s. best b4 s = best b s \<and> non_empty b4 s = non_empty b s"
    "map (pay b4) (slots sl' Bids) = requeue q (map (pay b) (slots sl Bids))"
    "map (pay b4) (slots sl' Asks) = requeue q (map (pay b) (slots sl Asks))"
    "out_ring b4 = ring_push_all (out_ring b) [m1, m2]" "arena_size (pool b4) = arena_size (pool b)"
    "\<forall>r. r \<noteq> pb \<longrightarrow> sl' Bids r = sl Bids r" "\<forall>r. r \<noteq> pa \<longrightarrow> sl' Asks r = sl Asks r"
proof -
  have L: "links_rep b sl" using C by (simp add: core_rep_def)
  have xy: "y \<noteq> x" using links_rep_disj [OF L, of x Bids pb Asks pa] x y by auto
  let ?g = "(pay b)(x := take_qty q (pay b x))"
  obtain b1 where b1: "fill_order b x q = ok b1" "core_rep b1 sl" "same_env b b1" "pay b1 = ?g"
    using fill_order_core [OF C qx] unfolding take_qty_pay by metis
  have "q \<le> o_remaining_quantity (pay b1 y)" using qy xy by (simp add: b1)
  then obtain b2 where b2: "fill_order b1 y q = ok b2" "core_rep b2 sl" "same_env b1 b2"
    "pay b2 = (pay b1)(y := take_qty q (pay b1 y))"
    using fill_order_core [OF b1(2), of q y] unfolding take_qty_pay by metis
  define b2' where "b2' = push_out m2 (push_out m1 b2)"
  have C2: "core_rep b2' sl" using b2(2) by (simp add: b2'_def push_out_core)
  have py2: "pay b2' = (pay b)(x := take_qty q (pay b x), y := take_qty q (pay b y))"
    using b2(4) b1(4) xy by (simp add: b2'_def)
  define sl1 where "sl1 = (if is_filled (take_qty q (pay b x)) then put sl Bids pb xs else sl)"
  obtain b3 where b3: "retire_filled b2' Bids pb x = ok b3" "core_rep b3 sl1" "same_env b2' b3" "pay b3 = pay b2'"
    using retire_filled_core [of _ sl Bids pb, OF C2 x] xy by (auto simp: sl1_def py2)
  have A: "sl1 Asks = sl Asks" by (auto simp: sl1_def)
  have y1: "sl1 Asks pa = y # ys" using y by (simp add: A)
  define sl2 where "sl2 = (if is_filled (take_qty q (pay b y)) then put sl1 Asks pa ys else sl1)"
  obtain b4 where b4: "retire_filled b3 Asks pa y = ok b4" "core_rep b4 sl2" "same_env b3 b4" "pay b4 = pay b3"
    using retire_filled_core [of _ sl1 Asks pa, OF b3(2) y1] by (auto simp: sl2_def py2 b3)
  have l1: "map ?g (slots sl1 Bids) = requeue q (map (pay b) (slots sl Bids))"
    "map ?g (slots sl1 Asks) = map (pay b) (slots sl Asks)"
    using slots_requeue [where sl = sl and s = Bids and p = pb and g = "pay b" and sl' = sl1 and q = q,
        OF C x front(1) sl1_def] by auto
  have p4: "pay b4 = ?g(y := take_qty q (?g y))" by (simp add: b4 b3 py2 xy)
  have f1: "\<forall>r. sl1 Asks r \<noteq> [] \<longrightarrow> \<not> better Asks r pa" using front(2) unfolding A .
  have e2: "sl2 = (if is_filled (take_qty q (?g y)) then put sl1 Asks pa ys else sl1)"
    using xy by (simp add: sl2_def)
  note r = slots_requeue [where sl = sl1 and s = Asks and p = pa and g = ?g and sl' = sl2 and q = q,
      OF b3(2) y1 f1 e2]
  have l2: "map (pay b4) (slots sl2 Bids) = requeue q (map (pay b) (slots sl Bids))"
    "map (pay b4) (slots sl2 Asks) = requeue q (map (pay b) (slots sl Asks))"
    unfolding p4 using r(1) r(2) [of Bids] unfolding l1 by simp_all
  have "\<forall>r. r \<noteq> pb \<longrightarrow> sl2 Bids r = sl Bids r" "\<forall>r. r \<noteq> pa \<longrightarrow> sl2 Asks r = sl Asks r"
    by (auto simp: sl2_def sl1_def)
  moreover have "best b4 s = best b s \<and> non_empty b4 s = non_empty b s" for s
    using b1(3) b2(3) b3(3) b4(3) by (auto simp: same_env_def b2'_def)
  moreover have "out_ring b4 = ring_push_all (out_ring b) [m1, m2]" "arena_size (pool b4) = arena_size (pool b)"
    using b1(3) b2(3) b3(3) b4(3) by (auto simp: same_env_def b2'_def)
  ultimately show ?thesis
    using that [OF b1(1) b2(1) b3(1) [unfolded b2'_def] b4(1,2) _ l2] by blast
qed

text \<open>Emptied levels on both sides are accounted for, one side after the other.\<close>

lemma both_settled:
  assumes C: "core_rep b sl'" and P: "\<And>s. price_rep b s (sl s)" and v: "valid_price pb" "valid_price pa"
    and ne: "sl Bids pb \<noteq> []" "sl Asks pa \<noteq> []" and pb: "best b Bids = pb" and pa: "best b Asks = pa"
    and sl': "\<forall>r. r \<noteq> pb \<longrightarrow> sl' Bids r = sl Bids r" "\<forall>r. r \<noteq> pa \<longrightarrow> sl' Asks r = sl Asks r"
  obtains b1 b2 where "(if plq_empty (levels b Bids (pb - MIN_PRICE)) then level_done Bids b else ok b) = ok b1"
    "(if plq_empty (levels b Asks (pa - MIN_PRICE)) then level_done Asks b1 else ok b1) = ok b2"
    "book_rep b2 sl'" "pay b2 = pay b" "out_ring b2 = out_ring b" "arena_size (pool b2) = arena_size (pool b)"
    "sl' Bids pb \<noteq> [] \<longrightarrow> best b2 Bids = pb" "sl' Asks pa \<noteq> [] \<longrightarrow> best b2 Asks = pa"
proof -
  obtain b1 where b1: "(if plq_empty (levels b Bids (pb - MIN_PRICE)) then level_done Bids b else ok b) = ok b1"
    "core_rep b1 sl'" "price_rep b1 Bids (sl' Bids)" "pay b1 = pay b" "out_ring b1 = out_ring b"
    "best b1 Asks = best b Asks" "non_empty b1 Asks = non_empty b Asks"
    "arena_size (pool b1) = arena_size (pool b)" "levels b1 = levels b" "sl' Bids pb \<noteq> [] \<longrightarrow> best b1 Bids = pb"
    by (rule settle_rep [where s = Bids and f = "sl Bids" and p = pb, OF C P]) (use ne(1) v(1) sl'(1) pb in auto)
  have P1: "price_rep b1 Asks (sl Asks)" using P by (rule price_rep_env) (simp_all add: b1)
  obtain b2 where b2: "(if plq_empty (levels b1 Asks (pa - MIN_PRICE)) then level_done Asks b1 else ok b1) = ok b2"
    "core_rep b2 sl'" "price_rep b2 Asks (sl' Asks)" "pay b2 = pay b1" "out_ring b2 = out_ring b1"
    "best b2 Bids = best b1 Bids" "non_empty b2 Bids = non_empty b1 Bids"
    "arena_size (pool b2) = arena_size (pool b1)" "levels b2 = levels b1" "sl' Asks pa \<noteq> [] \<longrightarrow> best b2 Asks = pa"
    by (rule settle_rep [where s = Asks and f = "sl Asks" and p = pa, OF b1(2) P1]) (use ne(2) v(2) sl'(2) pa b1(6) in auto)
  have "price_rep b2 s (sl' s)" for s using b2(3) price_rep_env [OF b1(3), of b2] b2(6,7) by (cases s) auto
  then have "book_rep b2 sl'" using b2(2) by (simp add: book_rep_core)
  then show ?thesis using that [OF b1(1)] b2(1,4-6,8,10) b1(4,5,8-10) by metis
qed

lemma match_fronts_ok:
  assumes R: "book_rep b sl" and ne: "0 < non_empty b Bids" "0 < non_empty b Asks"
    and x: "sl Bids (best b Bids) = x # xs" and y: "sl Asks (best b Asks) = y # ys"
    and q: "q = min (o_remaining_quantity (pay b x)) (o_remaining_quantity (pay b y))"
  obtains b' sl' fin where "match_fronts b (best b Bids) (best b Asks) x y = ok (b', fin)" "book_rep b' sl'"
    "map (pay b') (slots sl' Bids) = requeue q (map (pay b) (slots sl Bids))"
    "map (pay b') (slots sl' Asks) = requeue q (map (pay b) (slots sl Asks))"
    "arena_size (pool b') = arena_size (pool b)"
    "out_ring b' = ring_push_all (out_ring b) [match_msg (pay b x), match_msg (pay b y)]"
    "\<not> fin \<longrightarrow> best b' Bids = best b Bids \<and> best b' Asks = best b Asks
       \<and> 0 < non_empty b' Bids \<and> 0 < non_empty b' Asks"
proof -
  let ?pb = "best b Bids" and ?pa = "best b Asks"
  have C: "core_rep b sl" and P: "\<And>s. price_rep b s (sl s)" using R by (auto simp: book_rep_core)
  have L: "links_rep b sl" using C by (simp add: core_rep_def)
  have v: "valid_price ?pb" "valid_price ?pa"
    using links_rep_valid [OF L, of x Bids ?pb] links_rep_valid [OF L, of y Asks ?pa] x y by auto
  have nn: "0 < non_empty b s" for s using ne by (cases s) auto
  have front: "\<forall>r. sl s r \<noteq> [] \<longrightarrow> \<not> better s r (best b s)" for s
    using price_rep_best(2) [OF P nn] by blast
  have qxy: "q \<le> o_remaining_quantity (pay b x)" "q \<le> o_remaining_quantity (pay b y)" by (simp_all add: q)
  obtain b1 b2 b3 b4 sl' where
    steps: "fill_order b x q = ok b1" "fill_order b1 y q = ok b2"
      "retire_filled (push_out (match_msg (pay b y)) (push_out (match_msg (pay b x)) b2)) Bids ?pb x = ok b3"
      "retire_filled b3 Asks ?pa y = ok b4"
    and C4: "core_rep b4 sl'" and E: "\<And>s. best b4 s = best b s \<and> non_empty b4 s = non_empty b s"
    and lists: "map (pay b4) (slots sl' Bids) = requeue q (map (pay b) (slots sl Bids))"
      "map (pay b4) (slots sl' Asks) = requeue q (map (pay b) (slots sl Asks))"
    and out: "out_ring b4 = ring_push_all (out_ring b) [match_msg (pay b x), match_msg (pay b y)]"
      "arena_size (pool b4) = arena_size (pool b)"
    and sl': "\<forall>r. r \<noteq> ?pb \<longrightarrow> sl' Bids r = sl Bids r" "\<forall>r. r \<noteq> ?pa \<longrightarrow> sl' Asks r = sl Asks r"
    using fronts_consumed [where sl = sl and pb = ?pb and pa = ?pa, OF C x y qxy front front refl refl] by metis
  have P4: "price_rep b4 s (sl s)" for s using P [of s] by (rule price_rep_env) (simp_all add: E)
  have ne': "sl Bids ?pb \<noteq> []" "sl Asks ?pa \<noteq> []" using x y by simp_all
  have E': "best b4 Bids = ?pb" "best b4 Asks = ?pa" using E by simp_all
  obtain b5 b6 where b6: "(if plq_empty (levels b4 Bids (?pb - MIN_PRICE)) then level_done Bids b4 else ok b4) = ok b5"
    "(if plq_empty (levels b4 Asks (?pa - MIN_PRICE)) then level_done Asks b5 else ok b5) = ok b6"
    "book_rep b6 sl'" "pay b6 = pay b4" "out_ring b6 = out_ring b4" "arena_size (pool b6) = arena_size (pool b4)"
    "sl' Bids ?pb \<noteq> [] \<longrightarrow> best b6 Bids = ?pb" "sl' Asks ?pa \<noteq> [] \<longrightarrow> best b6 Asks = ?pa"
    by (rule both_settled [OF C4 P4 v ne' E' sl'])
  let ?fin = "plq_empty (levels b4 Bids (?pb - MIN_PRICE)) \<or> plq_empty (levels b4 Asks (?pa - MIN_PRICE))"
  have m: "match_fronts b ?pb ?pa x y = ok (b6, ?fin)"
    using steps b6(1,2) v q by (simp add: match_fronts_def deref_pay raw_side)
  have fin: "\<not> ?fin \<longrightarrow> sl' Bids ?pb \<noteq> [] \<and> sl' Asks ?pa \<noteq> []"
    using links_rep_empty [of b4 sl'] C4 v by (auto simp: core_rep_def)
  have "0 < non_empty b6 s" if "sl' s r \<noteq> []" for s r
    using price_rep_pos [of b6 s "sl' s"] b6(3) that by (auto simp: book_rep_core)
  with fin have "\<not> ?fin \<longrightarrow> best b6 Bids = ?pb \<and> best b6 Asks = ?pa \<and> 0 < non_empty b6 Bids \<and> 0 < non_empty b6 Asks"
    using b6(7,8) by metis
  then show ?thesis using that [OF m b6(3)] lists out b6(4-6) by metis
qed


end
