(* ===== verification/Orderbook_Match.thy ===== *)
theory Orderbook_Match
  imports Orderbook_Refine
begin

text \<open>
  The two matching routines of \<^verbatim>\<open>orderbook.cpp\<close> implement abstract matching:
  \<^verbatim>\<open>matchOrders\<close> (the nested loops over crossing levels) implements \<open>pt_matchOrders\<close>, and
  \<^verbatim>\<open>matchMarket\<close> implements \<open>pt_matchMarket\<close>. Both proofs are inductions on the number of resting
  orders, so they also show that the loops terminate.
\<close>


section \<open>Matching\<close>

text \<open>The state after a matching run that produced \<open>ms\<close> and left \<open>xs\<close> and \<open>ys\<close>.\<close>

definition match_post ::
  "Orderbook \<Rightarrow> Order list \<Rightarrow> Order list \<Rightarrow> OutboundMessage list \<Rightarrow> Orderbook \<Rightarrow> bool" where
  "match_post b xs ys ms b' \<longleftrightarrow> (\<exists>sl'. book_rep b' sl' \<and> map (pay b') (slots sl' Bids) = xs
     \<and> map (pay b') (slots sl' Asks) = ys) \<and> out_ring b' = ring_push_all (out_ring b) ms
     \<and> arena_size (pool b') = arena_size (pool b)"

lemma match_postI:
  "book_rep b' sl' \<Longrightarrow> map (pay b') (slots sl' Bids) = xs \<Longrightarrow> map (pay b') (slots sl' Asks) = ys \<Longrightarrow>
   out_ring b' = ring_push_all (out_ring b) ms \<Longrightarrow> arena_size (pool b') = arena_size (pool b) \<Longrightarrow>
   match_post b xs ys ms b'"
  by (auto simp: match_post_def)

lemma match_post_step:
  "match_post b1 xs ys ms b2 \<Longrightarrow> out_ring b1 = ring_push_all (out_ring b) ms1 \<Longrightarrow>
   arena_size (pool b1) = arena_size (pool b) \<Longrightarrow> match_post b xs ys (ms1 @ ms) b2"
  by (auto simp: match_post_def)

lemma match_msgs_simps [simp]:
  "match_msgs [] = []" "match_msgs ((x, y, q) # ts) = match_msg x # match_msg y # match_msgs ts"
  by (simp_all add: match_msgs_def)

lemma side_list_front:
  assumes R: "book_rep b sl" and ne: "0 < non_empty b s"
  obtains x xs where "sl s (best b s) = x # xs" "valid_price (best b s)"
    "slots sl s = x # slots (put sl s (best b s) xs) s" "o_price (pay b x) = best b s"
proof -
  obtain x xs where f: "sl s (best b s) = x # xs" "valid_price (best b s)"
    "\<forall>q. sl s q \<noteq> [] \<longrightarrow> \<not> better s q (best b s)" by (rule book_rep_front [OF R ne])
  have C: "core_rep b sl" using R by (simp add: book_rep_core)
  have "slots sl s = x # slots (put sl s (best b s) xs) s"
    using f(3) by (intro slots_front [of "best b s" sl s, OF f(2,1)]) blast
  moreover have "o_price (pay b x) = best b s" using core_side_price(2) [OF C, of x s "best b s"] f(1) by simp
  ultimately show ?thesis using that f(1,2) by blast
qed

lemma side_list_empty:
  assumes R: "book_rep b sl"
  shows "slots sl s = [] \<longleftrightarrow> \<not> 0 < non_empty b s"
proof -
  have L: "links_rep b sl" and P: "price_rep b s (sl s)" using R by (auto simp: book_rep_def)
  show ?thesis unfolding slots_empty [OF L] price_rep_pos [OF P] by blast
qed

text \<open>One entry of the inner loop: the two fronts and the comparison the code makes.\<close>

lemma match_level_unfold:
  assumes R: "book_rep b sl" and x: "sl Bids (best b Bids) = x # xs" and y: "sl Asks (best b Asks) = y # ys"
    and v: "valid_price (best b Bids)" "valid_price (best b Asks)"
  shows "match_level b (best b Bids) (best b Asks) lm af =
    (if best b Bids < best b Asks then ok (b, lm, af)
     else rbind (match_fronts b (best b Bids) (best b Asks) x y) (\<lambda>r.
          if snd r then ok (fst r, True, True) else match_level (fst r) (best b Bids) (best b Asks) True True))"
proof -
  have L: "links_rep b sl" using R by (simp add: book_rep_def)
  have "\<not> plq_empty (levels b Bids (best b Bids - MIN_PRICE))" "\<not> plq_empty (levels b Asks (best b Asks - MIN_PRICE))"
    using links_rep_empty [OF L] v x y by auto
  moreover have "plq_front (levels b Bids (best b Bids - MIN_PRICE)) = Some x"
    "plq_front (levels b Asks (best b Asks - MIN_PRICE)) = Some y"
    using links_rep_front [OF L v(1) x] links_rep_front [OF L v(2) y] .
  ultimately show ?thesis using v by (subst match_level.simps) (simp add: raw_side)
qed

text \<open>The rest of \<^verbatim>\<open>matchOrders\<close> from inside the inner loop.\<close>

definition level_then_loop :: "Orderbook \<Rightarrow> bool \<Rightarrow> bool \<Rightarrow> (Orderbook \<times> bool) res" where
  "level_then_loop b lm af =
     rbind (match_level b (best b Bids) (best b Asks) lm af) (\<lambda>r.
       if fst (snd r) then match_loop (fst r) (snd (snd r)) else ok (fst r, snd (snd r)))"

definition match_done ::
  "Orderbook \<Rightarrow> bool \<Rightarrow> Order list \<times> Order list \<times> (Order \<times> Order \<times> Quantity) list
   \<Rightarrow> (Orderbook \<times> bool) res \<Rightarrow> bool" where
  "match_done b af r m \<longleftrightarrow> (case r of (us, vs, ts) \<Rightarrow>
     \<exists>b'. m = ok (b', af \<or> ts \<noteq> []) \<and> match_post b us vs (match_msgs ts) b')"

lemma match_loop_unfold:
  "match_loop b af = (if 0 < non_empty b Bids \<and> 0 < non_empty b Asks then level_then_loop b False af else ok (b, af))"
  by (subst match_loop.simps) (simp add: level_then_loop_def raw_side)

lemma match_done_stop:
  assumes "book_rep b sl"
  shows "match_done b af (map (pay b) (slots sl Bids), map (pay b) (slots sl Asks), []) (ok (b, af))"
  using match_postI [OF assms refl refl, of b "[]"] by (simp add: match_done_def)

lemma match_done_step:
  assumes "match_done b1 True r m" and "out_ring b1 = ring_push_all (out_ring b) [match_msg x, match_msg y]"
    and "arena_size (pool b1) = arena_size (pool b)"
  shows "match_done b af (case r of (us, vs, ts) \<Rightarrow> (us, vs, (x, y, q) # ts)) m"
  using assms(1) match_post_step [OF _ assms(2,3)] by (auto simp: match_done_def split: prod.splits)

text \<open>
  One trade on a crossed book: what it leaves, what it reports, and how the loops go on after it.
\<close>

lemma match_step:
  assumes R: "book_rep b sl" and ne: "0 < non_empty b Bids" "0 < non_empty b Asks" and c: "\<not> best b Bids < best b Asks"
  obtains b1 sl1 fin x y q where "book_rep b1 sl1"
    "pt_match (map (pay b) (slots sl Bids)) (map (pay b) (slots sl Asks))
       = (case pt_match (map (pay b1) (slots sl1 Bids)) (map (pay b1) (slots sl1 Asks)) of
            (us, vs, ts) \<Rightarrow> (us, vs, (x, y, q) # ts))"
    "length (slots sl1 Bids) + length (slots sl1 Asks) < length (slots sl Bids) + length (slots sl Asks)"
    "arena_size (pool b1) = arena_size (pool b)" "out_ring b1 = ring_push_all (out_ring b) [match_msg x, match_msg y]"
    "\<And>lm af. level_then_loop b lm af = (if fin then match_loop b1 True else level_then_loop b1 True True)"
    "\<not> fin \<longrightarrow> 0 < non_empty b1 Bids \<and> 0 < non_empty b1 Asks \<and> best b1 Asks \<le> best b1 Bids"
proof -
  let ?pb = "best b Bids" and ?pa = "best b Asks"
  obtain x xs where x: "sl Bids ?pb = x # xs" "valid_price ?pb"
    "slots sl Bids = x # slots (put sl Bids ?pb xs) Bids" "o_price (pay b x) = ?pb"
    by (rule side_list_front [OF R ne(1)])
  obtain y ys where y: "sl Asks ?pa = y # ys" "valid_price ?pa"
    "slots sl Asks = y # slots (put sl Asks ?pa ys) Asks" "o_price (pay b y) = ?pa"
    by (rule side_list_front [OF R ne(2)])
  define q where "q = min (o_remaining_quantity (pay b x)) (o_remaining_quantity (pay b y))"
  obtain b1 sl1 fin where b1: "match_fronts b ?pb ?pa x y = ok (b1, fin)" "book_rep b1 sl1"
    "map (pay b1) (slots sl1 Bids) = requeue q (map (pay b) (slots sl Bids))"
    "map (pay b1) (slots sl1 Asks) = requeue q (map (pay b) (slots sl Asks))"
    "arena_size (pool b1) = arena_size (pool b)"
    "out_ring b1 = ring_push_all (out_ring b) [match_msg (pay b x), match_msg (pay b y)]"
    "\<not> fin \<longrightarrow> best b1 Bids = ?pb \<and> best b1 Asks = ?pa \<and> 0 < non_empty b1 Bids \<and> 0 < non_empty b1 Asks"
    by (rule match_fronts_ok [OF R ne x(1) y(1) q_def])
  have "pt_match (map (pay b) (slots sl Bids)) (map (pay b) (slots sl Asks))
       = (case pt_match (map (pay b1) (slots sl1 Bids)) (map (pay b1) (slots sl1 Asks)) of
            (us, vs, ts) \<Rightarrow> (us, vs, (pay b x, pay b y, q) # ts))"
    using c x(4) y(4) unfolding b1(3,4) x(3) y(3) q_def by (simp add: Let_def)
  moreover have "length (slots sl1 Bids) + length (slots sl1 Asks) < length (slots sl Bids) + length (slots sl Asks)"
    using b1(3,4) [THEN arg_cong, of length] is_filled_min [of "pay b x" "pay b y"]
    unfolding x(3) y(3) q_def by (auto simp: requeue_Cons split: if_splits)
  moreover have "level_then_loop b lm af = (if fin then match_loop b1 True else level_then_loop b1 True True)" for lm af
    using c b1(1,7) by (auto simp: level_then_loop_def match_level_unfold [OF R x(1) y(1) x(2) y(2)])
  ultimately show ?thesis using that [of b1 sl1 "pay b x" "pay b y" q fin] b1(2,5-7) c by (auto simp: not_less)
qed

lemma match_level_done:
  assumes R: "book_rep b sl" and ne: "0 < non_empty b Bids" "0 < non_empty b Asks" and c: "best b Bids < best b Asks"
  shows "match_done b af (pt_match (map (pay b) (slots sl Bids)) (map (pay b) (slots sl Asks))) (level_then_loop b False af)"
proof -
  let ?pb = "best b Bids" and ?pa = "best b Asks"
  obtain x xs where x: "sl Bids ?pb = x # xs" "valid_price ?pb"
    "slots sl Bids = x # slots (put sl Bids ?pb xs) Bids" "o_price (pay b x) = ?pb"
    by (rule side_list_front [OF R ne(1)])
  obtain y ys where y: "sl Asks ?pa = y # ys" "valid_price ?pa"
    "slots sl Asks = y # slots (put sl Asks ?pa ys) Asks" "o_price (pay b y) = ?pa"
    by (rule side_list_front [OF R ne(2)])
  have "pt_match (map (pay b) (slots sl Bids)) (map (pay b) (slots sl Asks)) = (map (pay b) (slots sl Bids), map (pay b) (slots sl Asks), [])"
    using c x(4) y(4) unfolding x(3) y(3) by simp
  then show ?thesis using c match_done_stop [OF R] by (simp add: level_then_loop_def match_level_unfold [OF R x(1) y(1) x(2) y(2)])
qed

lemma match_all:
  "book_rep b sl \<Longrightarrow> n = length (slots sl Bids) + length (slots sl Asks) \<Longrightarrow>
   r = pt_match (map (pay b) (slots sl Bids)) (map (pay b) (slots sl Asks)) \<Longrightarrow>
   (\<forall>af. match_done b af r (match_loop b af)) \<and>
   (0 < non_empty b Bids \<longrightarrow> 0 < non_empty b Asks \<longrightarrow>
     (\<forall>lm af. (lm \<longrightarrow> best b Asks \<le> best b Bids) \<longrightarrow> match_done b af r (level_then_loop b lm af)))"
proof (induction n arbitrary: b sl r rule: less_induct)
  case (less n)
  note R = less.prems(1)
  have step: "match_done b af r (level_then_loop b lm af)"
    if ne: "0 < non_empty b Bids" "0 < non_empty b Asks" and lm: "lm \<longrightarrow> best b Asks \<le> best b Bids" for lm af
  proof (cases "best b Bids < best b Asks")
    case True
    then show ?thesis using match_level_done [OF R ne] lm unfolding less.prems(3) by (cases lm) auto
  next
    case False
    obtain b1 sl1 fin x y q where b1: "book_rep b1 sl1"
      "r = (case pt_match (map (pay b1) (slots sl1 Bids)) (map (pay b1) (slots sl1 Asks)) of (us, vs, ts) \<Rightarrow> (us, vs, (x, y, q) # ts))"
      "length (slots sl1 Bids) + length (slots sl1 Asks) < n"
      "arena_size (pool b1) = arena_size (pool b)" "out_ring b1 = ring_push_all (out_ring b) [match_msg x, match_msg y]"
      "\<And>lm af. level_then_loop b lm af = (if fin then match_loop b1 True else level_then_loop b1 True True)"
      "\<not> fin \<longrightarrow> 0 < non_empty b1 Bids \<and> 0 < non_empty b1 Asks \<and> best b1 Asks \<le> best b1 Bids"
      using match_step [OF R ne False] unfolding less.prems(2,3) by metis
    note IH = less.IH [OF b1(3,1) refl refl]
    have "match_done b1 True (pt_match (map (pay b1) (slots sl1 Bids)) (map (pay b1) (slots sl1 Asks))) (level_then_loop b lm af)"
      using IH b1(7) unfolding b1(6) by auto
    then show ?thesis unfolding b1(2) by (rule match_done_step [OF _ b1(5,4)])
  qed
  have "match_done b af r (match_loop b af)" for af
  proof (cases "0 < non_empty b Bids \<and> 0 < non_empty b Asks")
    case True
    then show ?thesis using step by (simp add: match_loop_unfold)
  next
    case False
    then have "slots sl Bids = [] \<or> slots sl Asks = []" using side_list_empty [OF R] by blast
    then have "r = (map (pay b) (slots sl Bids), map (pay b) (slots sl Asks), [])"
      unfolding less.prems(3) by (cases "map (pay b) (slots sl Bids)") auto
    then show ?thesis using match_done_stop [OF R] by (simp only: match_loop_unfold if_not_P [OF False])
  qed
  with step show ?case by blast
qed

text \<open>
  \<open>implements b R m\<close>: the run \<open>m\<close> of a member function from \<open>b\<close> returns normally with the
  book, the messages and the result of the abstract operation \<open>R\<close>.
\<close>

definition implements :: "Orderbook \<Rightarrow> pt_result \<Rightarrow> (Orderbook \<times> bool) res \<Rightarrow> bool" where
  "implements b R m \<longleftrightarrow> (case R of (B', ms, r) \<Rightarrow>
     \<exists>b'. m = ok (b', r) \<and> refines b' B' \<and> out_ring b' = ring_push_all (out_ring b) ms)"

lemma refinesI: "book_rep b sl \<Longrightarrow> map (pay b) (slots sl Bids) = pt_bids B \<Longrightarrow>
    map (pay b) (slots sl Asks) = pt_asks B \<Longrightarrow> arena_size (pool b) = pt_cap B \<Longrightarrow> refines b B"
  unfolding refines_def book_abs_def by (intro exI [of _ sl]) simp

lemma refinesE:
  assumes "refines b B"
  obtains sl where "book_rep b sl" "pt_side B = (\<lambda>s. map (pay b) (slots sl s))"
    "pt_bids B = map (pay b) (slots sl Bids)" "pt_asks B = map (pay b) (slots sl Asks)"
    "pt_cap B = arena_size (pool b)"
  using assms unfolding refines_def by (auto simp: fun_eq_iff)

lemma matchOrders_refines:
  assumes "refines b B"
  shows "implements b (pt_matchOrders B) (matchOrders b)"
proof -
  obtain sl where R: "book_rep b sl" and B: "pt_bids B = map (pay b) (slots sl Bids)"
    "pt_asks B = map (pay b) (slots sl Asks)" "pt_cap B = arena_size (pool b)"
    by (rule refinesE [OF assms])
  obtain us vs ts where m: "pt_match (pt_bids B) (pt_asks B) = (us, vs, ts)" by (metis prod.exhaust)
  have "match_done b False (us, vs, ts) (match_loop b False)"
    using match_all [OF R refl refl] m unfolding B by simp
  then obtain b' where b': "match_loop b False = ok (b', ts \<noteq> [])" "match_post b us vs (match_msgs ts) b'"
    by (auto simp: match_done_def)
  then have "refines b' (B\<lparr>pt_bids := us, pt_asks := vs\<rparr>)" "out_ring b' = ring_push_all (out_ring b) (match_msgs ts)"
    using B by (auto simp: match_post_def intro: refinesI)
  with b' m show ?thesis by (simp add: implements_def matchOrders_def pt_matchOrders_def)
qed

section \<open>Market orders\<close>

lemma market_msgs_simps [simp]:
  "market_msgs req [] = []"
  "market_msgs req ((x, q) # ts) = market_msg req # match_msg x # market_msgs req ts"
  by (simp_all add: market_msgs_def)

text \<open>One iteration of a loop of \<^verbatim>\<open>matchMarket\<close>.\<close>

lemma market_step:
  assumes R: "book_rep b sl" and ne: "0 < non_empty b s" and rem: "0 < rem"
    and x: "sl s (best b s) = x # xs" and q: "q = min rem (o_remaining_quantity (pay b x))"
  obtains b' sl' where "market_loop s req b rem = market_loop s req b' (rem - q)" "book_rep b' sl'"
    "map (pay b') (slots sl' s) = requeue q (map (pay b) (slots sl s))"
    "map (pay b') (slots sl' (other s)) = map (pay b) (slots sl (other s))"
    "arena_size (pool b') = arena_size (pool b)"
    "out_ring b' = ring_push_all (out_ring b) [market_msg req, match_msg (pay b x)]"
proof -
  let ?p = "best b s"
  have C: "core_rep b sl" and P: "\<And>s. price_rep b s (sl s)" using R by (auto simp: book_rep_core)
  have L: "links_rep b sl" using C by (simp add: core_rep_def)
  have v: "valid_price ?p" using links_rep_valid [OF L, of x s ?p] x by simp
  have front: "\<forall>r. sl s r \<noteq> [] \<longrightarrow> \<not> better s r ?p" using price_rep_best(2) [OF P ne] by blast
  let ?g = "(pay b)(x := take_qty q (pay b x))"
  have "q \<le> o_remaining_quantity (pay b x)" by (simp add: q)
  then obtain b1 where b1: "fill_order b x q = ok b1" "core_rep b1 sl" "same_env b b1" "pay b1 = ?g"
    using fill_order_core [OF C] unfolding take_qty_pay by metis
  define b1' where "b1' = push_out (match_msg (pay b x)) (push_out (market_msg req) b1)"
  have C1: "core_rep b1' sl" using b1(2) by (simp add: b1'_def push_out_core)
  have p1: "pay b1' = ?g" using b1(4) by (simp add: b1'_def)
  define sl' where "sl' = (if is_filled (take_qty q (pay b x)) then put sl s ?p xs else sl)"
  obtain b2 where b2: "retire_filled b1' s ?p x = ok b2" "core_rep b2 sl'" "same_env b1' b2" "pay b2 = ?g"
    using retire_filled_core [of _ sl s ?p, OF C1 x] by (auto simp: sl'_def p1)
  have E: "best b2 s' = best b s' \<and> non_empty b2 s' = non_empty b s'" for s'
    using b1(3) b2(3) by (simp add: same_env_def b1'_def)
  have out: "out_ring b2 = ring_push_all (out_ring b) [market_msg req, match_msg (pay b x)]"
    "arena_size (pool b2) = arena_size (pool b)"
    using b1(3) b2(3) by (simp_all add: same_env_def b1'_def)
  have P2: "price_rep b2 s' (sl s')" for s' using P [of s'] by (rule price_rep_env) (simp_all add: E)
  obtain b3 where b3: "(if plq_empty (levels b2 s (?p - MIN_PRICE)) then level_done s b2 else ok b2) = ok b3"
    "core_rep b3 sl'" "price_rep b3 s (sl' s)" "pay b3 = pay b2" "out_ring b3 = out_ring b2"
    "best b3 (other s) = best b2 (other s)" "non_empty b3 (other s) = non_empty b2 (other s)"
    "arena_size (pool b3) = arena_size (pool b2)" "levels b3 = levels b2"
    "sl' s ?p \<noteq> [] \<longrightarrow> best b3 s = ?p"
    by (rule settle_rep [where s = s and f = "sl s" and p = ?p, OF b2(2) P2])
      (use x v E in \<open>auto simp: sl'_def\<close>)
  have sl'o: "sl' (other s) = sl (other s)" by (auto simp: sl'_def)
  have "price_rep b3 (other s) (sl' (other s))"
    unfolding sl'o using P2 by (rule price_rep_env) (simp_all add: b3)
  then have "price_rep b3 s' (sl' s')" for s'
    using b3(3) by (cases s; cases s') auto
  then have R3: "book_rep b3 sl'" using b3(2) by (simp add: book_rep_core)
  have "\<not> plq_empty (levels b s (?p - MIN_PRICE))" "plq_front (levels b s (?p - MIN_PRICE)) = Some x"
    using links_rep_empty [OF L v] links_rep_front [OF L v x] x by simp_all
  then have m: "market_loop s req b rem = market_loop s req b3 (rem - q)"
    using ne rem v b1(1) b2(1) b3(1)
    by (subst market_loop.simps) (simp add: deref_pay q [symmetric] b1'_def [symmetric] Let_def)
  note l = slots_requeue [where sl = sl and s = s and p = ?p and g = "pay b" and sl' = sl' and q = q,
      OF C x front sl'_def]
  show ?thesis using that [OF m R3] l(1) l(2) [of "other s"] out b2(4) b3(4,5,8) by simp
qed

definition market_done ::
  "book_side \<Rightarrow> OrderRequest \<Rightarrow> Orderbook \<Rightarrow> Order list \<Rightarrow> Order list \<times> Quantity \<times> (Order \<times> Quantity) list
   \<Rightarrow> (Orderbook \<times> bool) res \<Rightarrow> bool" where
  "market_done s req b os r m \<longleftrightarrow> (case r of (us, rem, ts) \<Rightarrow>
     \<exists>b' sl'. m = ok (b', rem = 0) \<and> book_rep b' sl' \<and> map (pay b') (slots sl' s) = us
       \<and> map (pay b') (slots sl' (other s)) = os \<and> arena_size (pool b') = arena_size (pool b)
       \<and> out_ring b' = ring_push_all (out_ring b) (market_msgs req ts))"

lemma pt_market_0: "pt_market xs 0 = (xs, 0, [])"
  by (cases xs) auto

lemma market_done_stop:
  "book_rep b sl \<Longrightarrow> os = map (pay b) (slots sl (other s)) \<Longrightarrow>
   market_done s req b os (map (pay b) (slots sl s), rem, []) (ok (b, rem = 0))"
  by (auto simp: market_done_def)

lemma market_done_step:
  assumes "market_done s req b1 os r m"
    and "out_ring b1 = ring_push_all (out_ring b) [market_msg req, match_msg x]"
    and "arena_size (pool b1) = arena_size (pool b)"
  shows "market_done s req b os (case r of (us, rem, ts) \<Rightarrow> (us, rem, (x, q) # ts)) m"
  using assms by (auto simp: market_done_def split: prod.splits)

lemma pt_market_front:
  assumes "0 < rem" and q: "q = min rem (o_remaining_quantity x)"
  shows "pt_market (x # xs) rem =
    (case pt_market (requeue q (x # xs)) (rem - q) of (us, r, ts) \<Rightarrow> (us, r, (x, q) # ts))"
proof (cases "is_filled (take_qty q x)")
  case True
  moreover have "rem \<noteq> 0" using assms(1) by (simp add: word_gt_0)
  ultimately show ?thesis using q by (simp add: requeue_Cons Let_def)
next
  case False
  then have "rem - q = 0" unfolding q by (auto simp: is_filled_def take_qty_def min_def split: if_splits)
  with False show ?thesis using q assms(1) by (auto simp: requeue_Cons Let_def pt_market_0)
qed

lemma market_loop_ok:
  "book_rep b sl \<Longrightarrow> os = map (pay b) (slots sl (other s)) \<Longrightarrow> n = length (slots sl s) + (if rem = 0 then 0 else 1) \<Longrightarrow>
   market_done s req b os (pt_market (map (pay b) (slots sl s)) rem) (market_loop s req b rem)"
proof (induction n arbitrary: b sl rem rule: less_induct)
  case (less n)
  note R = less.prems(1)
  show ?case
  proof (cases "0 < non_empty b s \<and> 0 < rem")
    case False
    then have "slots sl s = [] \<or> rem = 0" using side_list_empty [OF R] by (auto simp: word_gt_0)
    then have "pt_market (map (pay b) (slots sl s)) rem = (map (pay b) (slots sl s), rem, [])"
      by (auto simp: pt_market_0)
    moreover have "market_loop s req b rem = ok (b, rem = 0)"
      by (simp only: market_loop.simps [of s req b rem] if_not_P [OF False])
    ultimately show ?thesis using market_done_stop [OF R less.prems(2)] by simp
  next
    case True
    obtain x xs where x: "sl s (best b s) = x # xs" "valid_price (best b s)"
      "slots sl s = x # slots (put sl s (best b s) xs) s" "o_price (pay b x) = best b s"
      by (rule side_list_front [OF R]) (use True in blast)
    define q where "q = min rem (o_remaining_quantity (pay b x))"
    obtain b1 sl1 where b1: "market_loop s req b rem = market_loop s req b1 (rem - q)" "book_rep b1 sl1"
      "map (pay b1) (slots sl1 s) = requeue q (map (pay b) (slots sl s))"
      "map (pay b1) (slots sl1 (other s)) = map (pay b) (slots sl (other s))"
      "arena_size (pool b1) = arena_size (pool b)"
      "out_ring b1 = ring_push_all (out_ring b) [market_msg req, match_msg (pay b x)]"
      by (rule market_step [of _ sl, OF R _ _ x(1) q_def]) (use True in blast)+
    have f: "is_filled (take_qty q (pay b x)) \<or> rem - q = 0"
      unfolding q_def by (auto simp: is_filled_def take_qty_def min_def)
    have "length (slots sl1 s) + (if rem - q = 0 then 0 else 1) < n"
      using b1(3) [THEN arg_cong, of length] f True less.prems(3)
      unfolding x(3) by (auto simp: requeue_Cons split: if_splits)
    from less.IH [OF this b1(2) _ refl, of] less.prems(2) b1(4)
    have "market_done s req b1 os (pt_market (map (pay b1) (slots sl1 s)) (rem - q)) (market_loop s req b1 (rem - q))"
      by simp
    from market_done_step [OF this b1(6,5), of q]
    show ?thesis using True pt_market_front [of rem q "pay b x"] unfolding b1(1,3) x(3) by (simp add: q_def)
  qed
qed

lemma matchMarket_refines:
  assumes "refines b B"
  shows "implements b (pt_matchMarket B req) (matchMarket b req)"
proof -
  obtain sl where R: "book_rep b sl" and S: "pt_side B = (\<lambda>s. map (pay b) (slots sl s))"
    and B: "pt_bids B = map (pay b) (slots sl Bids)"
    "pt_asks B = map (pay b) (slots sl Asks)" "pt_cap B = arena_size (pool b)"
    by (rule refinesE [OF assms])
  have sweep: "implements b (pt_sweep s B req) (market_loop s req b (req_quantity req))" for s
  proof -
    obtain us r ts where m: "pt_market (pt_side B s) (req_quantity req) = (us, r, ts)" by (metis prod.exhaust)
    obtain b' sl' where b': "market_loop s req b (req_quantity req) = ok (b', r = 0)" "book_rep b' sl'"
      "map (pay b') (slots sl' s) = us" "map (pay b') (slots sl' (other s)) = pt_side B (other s)"
      "arena_size (pool b') = arena_size (pool b)" "out_ring b' = ring_push_all (out_ring b) (market_msgs req ts)"
      using market_loop_ok [OF R refl refl, where s = s and rem = "req_quantity req" and req = req] m unfolding S by (auto simp: market_done_def)
    have "refines b' (pt_set s us B)"
      using b' B by (cases s) (auto intro!: refinesI [OF b'(2)])
    with b' m show ?thesis by (simp add: implements_def pt_sweep_def)
  qed
  show ?thesis using sweep assms by (simp add: matchMarket_def pt_matchMarket_def implements_def)
qed

end
