(* ===== verification/Book_Contract.thy ===== *)
theory Book_Contract
  imports Price_Time_Laws
begin

text \<open>
  The contract between the engine and its book. The engine hands the book one
  \<^verbatim>\<open>OrderRequest\<close> at a time and relies on the call returning, on the book behaving like the
  abstract price-time book, and on the outbound ring receiving exactly the abstract messages.
  \<open>Orderbook_Process\<close> interprets the contract on \<^verbatim>\<open>Orderbook::process\<close>; \<open>Engine\<close> uses it.
\<close>

section \<open>Sequences of requests\<close>

text \<open>The prices the ladder can hold, for requests that may rest.\<close>

definition price_ok :: "OrderRequest \<Rightarrow> bool" where
  "price_ok req \<longleftrightarrow> (req_message_type req \<noteq> CANCEL \<and> req_type req \<noteq> MARKET \<longrightarrow> valid_price (req_price req))"

fun run_book :: "('b \<Rightarrow> OrderRequest \<Rightarrow> ('b \<times> ProcessResult) res) \<Rightarrow> 'b \<Rightarrow> OrderRequest list
    \<Rightarrow> ('b \<times> ProcessResult list) res" where
  "run_book proc b [] = ok (b, [])"
| "run_book proc b (req # reqs) =
     rbind (proc b req) (\<lambda>x. rbind (run_book proc (fst x) reqs) (\<lambda>y. ok (fst y, snd x # snd y)))"

fun pt_run :: "PT_Book \<Rightarrow> OrderRequest list \<Rightarrow> PT_Book \<times> OutboundMessage list \<times> ProcessResult list" where
  "pt_run B [] = (B, [], [])"
| "pt_run B (req # reqs) =
     (case pt_process B req of (B1, ms, r) \<Rightarrow>
        case pt_run B1 reqs of (B2, ms', rs) \<Rightarrow> (B2, ms @ ms', r # rs))"

lemma pt_run_wf: "pt_wf B \<Longrightarrow> pt_wf (fst (pt_run B reqs))"
proof (induction reqs arbitrary: B)
  case (Cons req reqs)
  then show ?case using pt_process_wf [of B req] by (force split: prod.splits)
qed simp

lemma pt_run_open:
  "all_open B \<Longrightarrow> \<forall>req \<in> set reqs. req_message_type req = CANCEL \<or> 0 < req_quantity req \<Longrightarrow>
   all_open (fst (pt_run B reqs))"
proof (induction reqs arbitrary: B)
  case (Cons req reqs)
  then show ?case using pt_process_open [of B req] by (force split: prod.splits)
qed simp

lemma run_book_length: "run_book proc b reqs = ok (b', rs) \<Longrightarrow> length rs = length reqs"
  by (induction reqs arbitrary: b b' rs) (auto simp: rbind_ok_iff)

section \<open>The contract\<close>

locale matching_book =
  fixes proc :: "'b \<Rightarrow> OrderRequest \<Rightarrow> ('b \<times> ProcessResult) res"
    and shows_as :: "'b \<Rightarrow> PT_Book \<Rightarrow> bool"
    and ring_of :: "'b \<Rightarrow> OutboundMessage RingBuffer"
    and emit :: "OutboundMessage \<Rightarrow> 'b \<Rightarrow> 'b"
  assumes simulates: "shows_as b B \<Longrightarrow> price_ok req \<Longrightarrow> pt_process B req = (B', ms, r) \<Longrightarrow>
      \<exists>b'. proc b req = ok (b', r) \<and> shows_as b' B' \<and> ring_of b' = ring_push_all (ring_of b) ms"
    and emit_shows: "shows_as b B \<Longrightarrow> shows_as (emit m b) B"
    and emit_ring: "ring_of (emit m b) = ring_push_all (ring_of b) [m]"
begin

lemma returns:
  assumes "shows_as b B" and "price_ok req"
  obtains b' where "proc b req = ok (b', snd (snd (pt_process B req)))" "shows_as b' (fst (pt_process B req))"
    "ring_of b' = ring_push_all (ring_of b) (fst (snd (pt_process B req)))"
  using simulates [OF assms, of "fst (pt_process B req)" "fst (snd (pt_process B req))" "snd (snd (pt_process B req))"]
  by auto

text \<open>A sequence of requests is processed to the end, like the abstract book does.\<close>

lemma run_simulates:
  assumes "shows_as b B" and "\<forall>req \<in> set reqs. price_ok req" and "pt_run B reqs = (B', ms, rs)"
  shows "\<exists>b'. run_book proc b reqs = ok (b', rs) \<and> shows_as b' B' \<and> ring_of b' = ring_push_all (ring_of b) ms"
  using assms
proof (induction reqs arbitrary: b B B' ms rs)
  case (Cons req reqs)
  obtain B1 ms1 r where p: "pt_process B req = (B1, ms1, r)" by (metis prod.exhaust)
  obtain ms2 rs2 where q: "pt_run B1 reqs = (B', ms2, rs2)" "ms = ms1 @ ms2" "rs = r # rs2"
    using Cons.prems(3) p by (auto split: prod.splits)
  obtain b1 where b1: "proc b req = ok (b1, r)" "shows_as b1 B1" "ring_of b1 = ring_push_all (ring_of b) ms1"
    using simulates [OF Cons.prems(1) _ p] Cons.prems(2) by auto
  obtain b2 where "run_book proc b1 reqs = ok (b2, rs2)" "shows_as b2 B'"
    "ring_of b2 = ring_push_all (ring_of b1) ms2"
    using Cons.IH [OF b1(2) _ q(1)] Cons.prems(2) by auto
  with b1 q show ?case by auto
qed auto

lemma run_wf:
  assumes "shows_as b B" and "\<forall>req \<in> set reqs. price_ok req" and "pt_wf B"
  shows "\<exists>b' B' rs. run_book proc b reqs = ok (b', rs) \<and> shows_as b' B' \<and> pt_wf B'"
proof -
  obtain B' ms rs where p: "pt_run B reqs = (B', ms, rs)" by (metis prod.exhaust)
  then have "pt_wf B'" using pt_run_wf [OF assms(3), of reqs] by simp
  with run_simulates [OF assms(1,2) p] show ?thesis by blast
qed

text \<open>Every request is answered: by its acknowledgement, or by a MATCH naming it.\<close>

lemma answered:
  assumes "shows_as b B" and "price_ok req" and "pt_wf B" and "req_type req = MARKET \<longrightarrow> req_quantity req \<noteq> 0"
  obtains b' r ms where "proc b req = ok (b', r)" "ring_of b' = ring_push_all (ring_of b) ms"
    "shows_as b' (fst (pt_process B req))" "suppress_ack r \<longrightarrow> (\<exists>m \<in> set ms. answers req m)"
  using returns [OF assms(1,2)] pt_process_answers [OF assms(3) _ _ assms(4)] by (metis prod.collapse)

end

end
