(* ===== verification/Orderbook_Process.thy ===== *)
theory Orderbook_Process
  imports Orderbook_Match Book_Contract
begin

text \<open>
  The state-changing member functions and the entry point of \<^verbatim>\<open>orderbook.cpp\<close> implement the
  abstract book: \<^verbatim>\<open>addOrder\<close>, \<^verbatim>\<open>cancelOrder\<close>, \<^verbatim>\<open>modifyOrder\<close> and \<^verbatim>\<open>process\<close>. The simulation
  needs the price of an order that may rest to lie on the ladder (\<open>price_ok\<close>); what happens
  otherwise is stated among the properties of the root theory.
\<close>


section \<open>Lookup and capacity\<close>

lemma find_unique:
  assumes "x \<in> set xs" and "P x" and "\<And>y. y \<in> set xs \<Longrightarrow> P y \<Longrightarrow> y = x"
  shows "find P xs = Some x"
proof (cases "find P xs")
  case None
  then show ?thesis using assms(1,2) by (simp add: find_None_iff)
next
  case (Some y)
  then have "y \<in> set xs" "P y" by (auto simp: find_Some_iff)
  with Some assms(3) show ?thesis by simp
qed

lemma find_map: "find P (map f xs) = map_option f (find (P \<circ> f) xs)"
  by (induction xs) auto

lemma set_all_slots:
  assumes "links_rep b sl"
  shows "set (slots sl Bids @ slots sl Asks) = resting sl"
  unfolding set_append set_eq_iff Un_iff set_slots [OF assms] in_resting
  by (metis book_side.exhaust)

lemma distinct_all_slots:
  assumes "core_rep b sl"
  shows "distinct (slots sl Bids @ slots sl Asks)"
proof -
  have L: "links_rep b sl" using assms by (simp add: core_rep_def)
  have "x \<notin> set (slots sl Asks)" if "x \<in> set (slots sl Bids)" for x
    using that slots_disjoint [OF L, of x Bids _ Asks] unfolding set_slots [OF L] by blast
  then show ?thesis using distinct_slots [OF assms] by auto
qed

lemma pt_find_orders:
  assumes "book_rep b sl" and B: "B = book_abs b sl"
  shows "pt_find B oid = map_option (pay b) (orders b oid)"
proof -
  have C: "core_rep b sl" using assms(1) by (simp add: book_rep_core)
  then have L: "links_rep b sl" and I: "index_rep b sl" by (simp_all add: core_rep_def)
  let ?xs = "slots sl Bids @ slots sl Asks"
  have o: "orders b (o_id (pay b y)) = Some y" if "y \<in> set ?xs" for y
    using that C core_side_price(3) unfolding set_all_slots [OF L] in_resting by blast
  have "find ((\<lambda>o'. o_id o' = oid) \<circ> pay b) ?xs = orders b oid"
  proof (cases "orders b oid")
    case None
    have "o_id (pay b y) \<noteq> oid" if "y \<in> set ?xs" for y using o [OF that] None by auto
    then show ?thesis unfolding None find_None_iff comp_def by blast
  next
    case (Some x)
    then have "x \<in> set ?xs" "o_id (pay b x) = oid"
      using I unfolding set_all_slots [OF L] by (auto simp: index_rep_def)
    moreover have "y = x" if "y \<in> set ?xs" "o_id (pay b y) = oid" for y using o [OF that(1)] that(2) Some by simp
    ultimately show ?thesis unfolding Some by - (rule find_unique; (unfold comp_def)?; blast)
  qed
  moreover have "pt_orders B = map (pay b) ?xs" by (simp add: pt_orders_def B)
  ultimately show ?thesis by (simp only: pt_find_def find_map)
qed

lemma pool_full:
  assumes "book_rep b sl" and B: "B = book_abs b sl"
  shows "length (pt_orders B) + available (pool b) = pt_cap B"
proof -
  have C: "core_rep b sl" using assms(1) by (simp add: book_rep_core)
  then have L: "links_rep b sl" and O: "pool_owns (pool b) (resting sl)" by (simp_all add: core_rep_def index_rep_def)
  have "length (pt_orders B) = card (resting sl)"
    unfolding set_all_slots [OF L, symmetric] distinct_card [OF distinct_all_slots [OF C]] by (simp add: B pt_orders_def)
  then show ?thesis using pool_owns_card [OF O] by (simp add: B)
qed

section \<open>Adding\<close>

lemma refines_out_ring: "implements b R m \<Longrightarrow> out_ring b = out_ring b0 \<Longrightarrow> implements b0 R m"
  by (simp add: implements_def split: prod.splits)

lemma insert_lists:
  assumes C: "core_rep b sl" and v: "valid_price (req_price req)" and x: "x \<notin> resting sl"
    and py: "g = (pay b)(x := Order_of oid req)"
  shows "map g (slots (put sl s (req_price req) (sl s (req_price req) @ [x])) s)
      = pt_insert s (Order_of oid req) (map (pay b) (slots sl s))"
    and "s' \<noteq> s \<Longrightarrow> map g (slots (put sl s (req_price req) (sl s (req_price req) @ [x])) s') = map (pay b) (slots sl s')"
proof -
  let ?sl = "put sl s (req_price req) (sl s (req_price req) @ [x])"
  have L: "links_rep b sl" using C by (simp add: core_rep_def)
  have xs: "x \<notin> set (slots sl s')" for s' using x unfolding set_slots [OF L] in_resting by blast
  have "map g (slots ?sl s) = pt_insert s (g x) (map g (slots sl s))"
  proof (rule slots_insert [OF v])
    fix q y assume y: "y \<in> set (sl s q)"
    with x have "y \<noteq> x" by (auto simp: in_resting)
    then show "o_price (g y) = q" using core_side_price(2) [OF C y] by (simp add: py)
  qed (simp add: py)
  moreover have "map g (slots sl s) = map (pay b) (slots sl s)" using xs by (auto simp: py)
  moreover have "g x = Order_of oid req" by (simp add: py)
  ultimately show "map g (slots ?sl s) = pt_insert s (Order_of oid req) (map (pay b) (slots sl s))" by (simp only:)
  show "map g (slots ?sl s') = map (pay b) (slots sl s')" if "s' \<noteq> s"
    using xs slots_other [OF that] by (auto simp: py)
qed

text \<open>\<^verbatim>\<open>addOrder\<close> of a new limit order, with a slot \<open>x\<close> allocated for it.\<close>

lemma addOrder_unfold:
  assumes "pool_owns (pool b) (resting sl)" and "orders b (req_order_id req) = None"
    and "allocate (pool b) (req_order_id req) req = (Some x, pool')" and "req_type req \<noteq> MARKET" and "s = side_of (req_side req)"
    and "b1 = b\<lparr>pool := pool', orders := (orders b)(req_order_id req \<mapsto> x)\<rparr>"
  shows "addOrder b req = rbind (level_get (levels b1 s) (req_price req)) (\<lambda>level.
      rbind (level_push (if plq_empty level then set_non_empty s (non_empty b1 s + 1) b1 else b1) s (req_price req) x)
        (\<lambda>b3. matchOrders (if better s (req_price req) (best b3 s) then set_best s (req_price req) b3 else b3)))"
proof -
  have "deref b1 x = Order_of (req_order_id req) req" using allocate_fresh(3) [OF assms(1,3)] by (simp add: deref_def assms(6))
  then show ?thesis using assms(2-5) unfolding addOrder_def by (simp add: assms(6) Let_def cong: if_cong)
qed

lemma insert_refines:
  assumes R: "book_rep b sl" and B: "B = book_abs b sl" and fresh: "orders b (req_order_id req) = None"
    and al: "allocate (pool b) (req_order_id req) req = (Some x, pool')"
    and v: "valid_price (req_price req)" and s: "s = side_of (req_side req)"
    and nm: "req_type req \<noteq> MARKET"
  obtains b' where "addOrder b req = matchOrders b'" "out_ring b' = out_ring b"
    "refines b' (pt_set s (pt_insert s (Order_of (req_order_id req) req) (pt_side B s)) B)"
proof -
  let ?p = "req_price req" and ?i = "req_order_id req"
  have C: "core_rep b sl" and P: "\<And>s. price_rep b s (sl s)" using R by (auto simp: book_rep_core)
  have L: "links_rep b sl" and O: "pool_owns (pool b) (resting sl)" using C by (simp_all add: core_rep_def index_rep_def)
  define b1 where "b1 = b\<lparr>pool := pool', orders := (orders b)(?i \<mapsto> x)\<rparr>"
  define b2 where "b2 = (if plq_empty (levels b1 s (?p - MIN_PRICE)) then set_non_empty s (non_empty b1 s + 1) b1 else b1)"
  have b2: "pool b2 = pool'" "orders b2 = (orders b)(?i \<mapsto> x)" "\<And>s. levels b2 s = levels b s"
    by (simp_all add: b2_def b1_def)
  obtain h' q' where push: "level_push b2 s ?p x = ok (set_arena h' (set_level s ?p q' b2))"
    "core_rep (set_arena h' (set_level s ?p q' b2)) (put sl s ?p (sl s ?p @ [x]))"
    "pay (set_arena h' (set_level s ?p q' b2)) = (pay b)(x := Order_of ?i req)" "x \<notin> resting sl"
    using insert_core [OF C fresh al v s b2] by blast
  define b3 where "b3 = set_arena h' (set_level s ?p q' b2)"
  define b4 where "b4 = (if better s ?p (best b3 s) then set_best s ?p b3 else b3)"
  let ?sl = "put sl s ?p (sl s ?p @ [x])"
  note push' = push(1-3) [folded b3_def]
  have py: "pay b4 = (pay b)(x := Order_of ?i req)" by (simp add: b4_def push')
  have C4: "core_rep b4 ?sl"
    using push'(2) links_rep_cong [of b3 ?sl b4] by (simp add: b4_def core_rep_def index_rep_def)
  have vf: "valid_price q" if "sl s' q \<noteq> []" for s' q using L that unfolding links_rep_def by blast
  have emp: "plq_empty (levels b s (?p - MIN_PRICE)) \<longleftrightarrow> sl s ?p = []"
    by (rule links_rep_empty [OF L v])
  have "price_rep b4 s ((sl s)(?p := sl s ?p @ [x]))"
    using P v vf by (rule price_insert) (simp_all add: b4_def b3_def b2_def b1_def emp)
  moreover have "price_rep b4 s' (sl s')" if "s' \<noteq> s" for s'
    using P [of s'] by (rule price_rep_env) (use that in \<open>simp_all add: b4_def b3_def b2_def b1_def\<close>)
  ultimately have P4: "price_rep b4 s' (?sl s')" for s' by (cases "s' = s") (simp_all add: put_def)
  have R4: "book_rep b4 ?sl" using C4 P4 by (simp add: book_rep_core)
  have lists: "map (pay b4) (slots ?sl s) = pt_insert s (Order_of ?i req) (map (pay b) (slots sl s))"
    "\<And>s'. s' \<noteq> s \<Longrightarrow> map (pay b4) (slots ?sl s') = map (pay b) (slots sl s')"
    using insert_lists [OF C v push(4) py] by blast+
  have "arena_size (pool b4) = arena_size (pool b)"
    using allocate_fresh(4) [OF O al] b2(1) by (simp add: b4_def b3_def)
  then have "refines b4 (pt_set s (pt_insert s (Order_of ?i req) (pt_side B s)) B)"
    using lists by (cases s) (auto intro!: refinesI [OF R4] simp: B)
  moreover have "out_ring b4 = out_ring b" by (simp add: b4_def b3_def b2_def b1_def)
  moreover have "addOrder b req = matchOrders b4"
    unfolding addOrder_unfold [OF O fresh al nm s b1_def] using v push'(1) by (simp add: b2_def [symmetric] b4_def)
  ultimately show ?thesis using that by blast
qed

lemma addOrder_refines:
  assumes "refines b B" and "req_type req \<noteq> MARKET \<longrightarrow> valid_price (req_price req)"
  shows "implements b (pt_addOrder B req) (addOrder b req)"
proof (cases "req_type req = MARKET")
  case True
  then show ?thesis using matchMarket_refines [OF assms(1)] by (simp add: addOrder_def pt_addOrder_def)
next
  case False
  obtain sl where R: "book_rep b sl" and B: "B = book_abs b sl" using assms(1) by (auto simp: refines_def)
  have stay: "implements b (B, [], False) (ok (b, False))" using assms(1) by (simp add: implements_def)
  note f = pt_find_orders [OF R B, of "req_order_id req"]
  show ?thesis
  proof (cases "orders b (req_order_id req) = None")
    case dup: False
    then show ?thesis using False f stay by (simp add: addOrder_def pt_addOrder_def)
  next
    case fresh: True
    show ?thesis
    proof (cases "available (pool b) = 0")
      case True
      then have "length (pt_orders B) = pt_cap B" using pool_full [OF R B] by simp
      then show ?thesis using False fresh f stay True
        by (simp add: addOrder_def pt_addOrder_def allocate_exhausted)
    next
      case av: False
      then have "length (pt_orders B) \<noteq> pt_cap B" using pool_full [OF R B] by simp
      moreover obtain x pool' where al: "allocate (pool b) (req_order_id req) req = (Some x, pool')"
        using allocate_None [of "pool b"] av by (metis option.exhaust prod.collapse)
      obtain b' where "addOrder b req = matchOrders b'" "out_ring b' = out_ring b"
        "refines b' (pt_set (side_of (req_side req)) (pt_insert (side_of (req_side req))
           (Order_of (req_order_id req) req) (pt_side B (side_of (req_side req)))) B)"
        using insert_refines [OF R B fresh al _ refl False] assms(2) False by blast
      ultimately show ?thesis using False fresh f refines_out_ring [OF matchOrders_refines]
        by (simp add: pt_addOrder_def Let_def)
    qed
  qed
qed


section \<open>Cancelling\<close>

text \<open>The accounting of \<^verbatim>\<open>cancelOrder\<close> after the order left the level of price \<open>p\<close>.\<close>

definition cancel_settle :: "book_side \<Rightarrow> Price \<Rightarrow> Orderbook \<Rightarrow> Orderbook res" where
  "cancel_settle s p b =
     (let b2 = set_non_empty s (non_empty b s - 1) b
      in if non_empty b2 s = 0 then ok (set_best s (worst s) b2)
         else if p = best b2 s then update_best s b2 else ok b2)"

lemma cancel_settle_ok:
  assumes P: "price_rep b s f" and ne: "f p \<noteq> []" and vb: "valid_price (best b s)"
    and l: "levels_rep (levels b s) (f(p := []))"
  shows "\<exists>p' b2. cancel_settle s p b = ok b2 \<and> b2 = set_best s p' (set_non_empty s (non_empty b s - 1) b)
     \<and> price_rep b2 s (f(p := []))"
proof -
  let ?g = "f(p := [])" and ?b = "set_non_empty s (non_empty b s - 1) b"
  note dec = non_empty_dec [OF P ne]
  have pos: "0 < non_empty b s" using price_rep_pos [OF P] ne by blast
  have nb: "\<not> better s q (best b s)" if "?g q \<noteq> []" for q
    using that price_rep_best(2) [OF P pos, of q] by (auto split: if_splits)
  have same: "set_best s (best b s) (set_non_empty s n b) = set_non_empty s n b" for n by (cases s) (simp_all add: best.simps)
  consider "non_empty b s - 1 = 0" | "non_empty b s - 1 \<noteq> 0" "p = best b s"
    | "non_empty b s - 1 \<noteq> 0" "p \<noteq> best b s" by blast
  then show ?thesis
  proof cases
    case 1
    then have "best_ok s (worst s) ?g" using dec(2) best_ok_all_empty by blast
    with 1 dec(1) show ?thesis
      by (intro exI [of _ "worst s"] exI conjI) (auto simp: cancel_settle_def Let_def price_rep_def)
  next
    case 2
    then obtain r where r: "?g r \<noteq> []" using dec(2) by blast
    obtain p' where "update_best s ?b = ok (set_best s p' ?b)" "best_ok s p' ?g"
      using update_best_ok [of ?b s ?g r] l vb nb r by auto
    with 2 dec(1) show ?thesis
      by (intro exI [of _ p'] exI conjI) (auto simp: cancel_settle_def Let_def price_rep_def)
  next
    case 3
    then have g: "?g (best b s) \<noteq> []" using price_rep_best(1) [OF P pos] by simp
    then have "\<not> (\<forall>q. ?g q = [])" by blast
    then have "best_ok s (best b s) ?g" using nb g unfolding best_ok_def by presburger
    with 3 dec(1) show ?thesis
      by (intro exI [of _ "best b s"] exI conjI) (auto simp: cancel_settle_def Let_def price_rep_def same)
  qed
qed

lemma cancelOrder_unfold:
  "orders b oid = Some x \<Longrightarrow> p = o_price (deref b x) \<Longrightarrow> s = side_of (o_side (deref b x)) \<Longrightarrow>
   cancelOrder b oid =
     rbind (level_remove b s p x) (\<lambda>b1.
     rbind (level_get (levels b1 s) p) (\<lambda>level.
     rbind (if plq_empty level then cancel_settle s p b1 else ok b1) (\<lambda>b3. ok (erase_order oid x b3))))"
  by (simp add: cancelOrder_def cancel_settle_def Let_def cong: if_cong)

lemma filter_ids:
  assumes C: "core_rep b sl" and o: "orders b oid = Some x"
  shows "map (pay b) (filter (\<lambda>y. y \<noteq> x) (slots sl s)) = filter (\<lambda>o'. o_id o' \<noteq> oid) (map (pay b) (slots sl s))"
proof -
  have L: "links_rep b sl" using C by (simp add: core_rep_def)
  have "o_id (pay b y) = oid \<longleftrightarrow> y = x" if "y \<in> set (slots sl s)" for y
  proof -
    from that obtain p where "y \<in> set (sl s p)" unfolding set_slots [OF L] by blast
    from core_side_price(3) [OF C this] core_orders(1) [OF C o] o show ?thesis by (metis option.inject)
  qed
  then have "filter (\<lambda>y. y \<noteq> x) (slots sl s) = filter (\<lambda>y. o_id (pay b y) \<noteq> oid) (slots sl s)"
    by (intro filter_cong refl) blast
  then show ?thesis by (simp only: filter_map comp_def)
qed

text \<open>The accounting after the order has left its level \<open>p\<close>, which now holds \<open>ys\<close>.\<close>

lemma cancel_settles:
  assumes P: "price_rep b s (sl s)" and L: "links_rep b (put sl s p ys)" and v: "\<And>q. sl s q \<noteq> [] \<Longrightarrow> valid_price q"
    and ne: "sl s p \<noteq> []"
  shows "\<exists>b'. (if plq_empty (levels b s (p - MIN_PRICE)) then cancel_settle s p b else ok b) = ok b'
     \<and> price_rep b' s (put sl s p ys s) \<and> pool b' = pool b \<and> orders b' = orders b \<and> out_ring b' = out_ring b
     \<and> levels b' = levels b \<and> (\<forall>s'. s' \<noteq> s \<longrightarrow> best b' s' = best b s' \<and> non_empty b' s' = non_empty b s')"
proof (cases "ys = []")
  case False
  have "price_rep b s (put sl s p ys s)" using P by (rule price_rep_cong) (use False ne in auto)
  with False show ?thesis using links_rep_empty [OF L v [OF ne], of s] by auto
next
  case True
  have pos: "0 < non_empty b s" using price_rep_pos [OF P] ne by blast
  have "levels_rep (levels b s) ((sl s)(p := []))" using links_levels_rep [OF L, of s] True by (simp add: put_def)
  then obtain p' b2 where "cancel_settle s p b = ok b2"
    "b2 = set_best s p' (set_non_empty s (non_empty b s - 1) b)" "price_rep b2 s ((sl s)(p := []))"
    using cancel_settle_ok [of b s "sl s" p, OF P ne v [OF price_rep_best(1) [OF P pos]]] by auto
  then show ?thesis using True links_rep_empty [OF L v [OF ne], of s] by (auto simp: fun_eq_iff put_side)
qed

lemma cancelOrder_refines:
  assumes "refines b B" and o: "orders b oid = Some x"
  shows "\<exists>b'. cancelOrder b oid = ok b' \<and> refines b' (pt_cancelOrder B oid) \<and> out_ring b' = out_ring b"
proof -
  obtain sl where R: "book_rep b sl" and B: "B = book_abs b sl" using assms(1) by (auto simp: refines_def)
  have C: "core_rep b sl" and P: "\<And>s. price_rep b s (sl s)" using R by (auto simp: book_rep_core)
  have L: "links_rep b sl" using C by (simp add: core_rep_def)
  define s where "s = side_of (o_side (pay b x))"
  define p where "p = o_price (pay b x)"
  have xin: "x \<in> set (sl s p)" and xid: "o_id (pay b x) = oid" using core_orders [OF C o] by (simp_all add: s_def p_def)
  then obtain us vs where x: "sl s p = us @ x # vs" by (meson split_list)
  have v: "valid_price p" using links_rep_valid [OF L xin] .
  let ?sl = "put sl s p (us @ vs)"
  obtain h' q' where rm: "level_remove b s p x = ok (set_arena h' (set_level s p q' b))"
    "links_rep (set_arena h' (set_level s p q' b)) ?sl" "pay (set_arena h' (set_level s p q' b)) = pay b"
    by (rule level_remove_rep [OF L x])
  define b1 where "b1 = set_arena h' (set_level s p q' b)"
  note rm' = rm [folded b1_def]
  have P1: "price_rep b1 s' (sl s')" for s' using P by (rule price_rep_env) (simp_all add: b1_def)
  have vf: "valid_price q" if "sl s q \<noteq> []" for q using L that unfolding links_rep_def by blast
  have "sl s p \<noteq> []" using x by simp
  from cancel_settles [OF P1 rm'(2) vf this]
  obtain b3 where b3: "(if plq_empty (levels b1 s (p - MIN_PRICE)) then cancel_settle s p b1 else ok b1) = ok b3"
    "price_rep b3 s (?sl s)" "pool b3 = pool b1" "orders b3 = orders b1" "out_ring b3 = out_ring b1"
    "levels b3 = levels b1" "\<And>s'. s' \<noteq> s \<Longrightarrow> best b3 s' = best b1 s' \<and> non_empty b3 s' = non_empty b1 s'" by blast
  define b4 where "b4 = erase_order oid x b3"
  have c: "cancelOrder b oid = ok b4"
    using rm'(1) v b3(1) by (subst cancelOrder_unfold [OF o, of p s]) (simp_all add: deref_pay s_def [symmetric] p_def [symmetric] b4_def)
  have py: "pay b4 = pay b" using rm'(3) b3(3) by (simp add: b4_def pay_def fun_eq_iff)
  have "links_rep b4 ?sl" using rm'(2) by (rule links_rep_cong) (simp_all add: b4_def b3)
  moreover have "index_rep b4 ?sl"
    by (rule index_erase [OF C x py, where pl = "pool b3"]) (simp_all add: b4_def b3 xid b1_def)
  moreover have "price_rep b4 s' (?sl s')" for s'
  proof (cases "s' = s")
    case True
    then show ?thesis using price_rep_env [OF b3(2), of b4] by (simp add: b4_def)
  next
    case False
    then have "?sl s' = sl s'" by (simp add: put_def)
    then show ?thesis using price_rep_env [OF P1, of b4 s'] b3(7) [OF False] by (simp add: b4_def)
  qed
  ultimately have R4: "book_rep b4 ?sl" by (simp add: book_rep_def)
  have "refines b4 (pt_cancelOrder B oid)"
    by (rule refinesI [OF R4], unfold py slots_delete [OF C x] filter_ids [OF C o] B)
      (simp_all add: pt_cancelOrder_def b4_def b3 b1_def)
  then show ?thesis using c b3(5) by (auto simp: b4_def b1_def)
qed


section \<open>Modifying\<close>

lemma stamp_refines:
  assumes "refines b B" and o: "orders b oid = Some x"
    and b1: "b1 = set_arena ((arena (pool b))(x := (deref b x)\<lparr>o_recv_tsc := t\<rparr>)) b"
  shows "refines b1 (B\<lparr>pt_bids := map (stamp oid t) (pt_bids B), pt_asks := map (stamp oid t) (pt_asks B)\<rparr>)"
    and "out_ring b1 = out_ring b"
proof -
  obtain sl where R: "book_rep b sl" and B: "B = book_abs b sl" using assms(1) by (auto simp: refines_def)
  have C: "core_rep b sl" and P: "\<And>s. price_rep b s (sl s)" using R by (auto simp: book_rep_core)
  have L: "links_rep b sl" using C by (simp add: core_rep_def)
  have "core_rep b1 sl" unfolding b1 using C by (rule core_set_arena) (auto simp: deref_def pay_def)
  moreover have "price_rep b1 s (sl s)" for s using P by (rule price_rep_env) (simp_all add: b1)
  ultimately have R1: "book_rep b1 sl" by (simp add: book_rep_core)
  have "pay b1 y = stamp oid t (pay b y)" if "y \<in> set (slots sl s)" for y s
  proof -
    from that obtain p where "y \<in> set (sl s p)" unfolding set_slots [OF L] by blast
    from core_side_price(3) [OF C this] core_orders(1) [OF C o] o have "o_id (pay b y) = oid \<longleftrightarrow> y = x"
      by (metis option.inject)
    then show ?thesis by (auto simp: b1 pay_set_arena stamp_def) (auto simp: pay_def deref_def strip_def)
  qed
  then show "refines b1 (B\<lparr>pt_bids := map (stamp oid t) (pt_bids B), pt_asks := map (stamp oid t) (pt_asks B)\<rparr>)"
    by (intro refinesI [OF R1]) (simp_all add: B b1)
  show "out_ring b1 = out_ring b" by (simp add: b1)
qed

lemma modifyOrder_refines:
  assumes "refines b B" and o: "orders b (req_order_id req) = Some x"
    and v: "req_type req \<noteq> MARKET \<longrightarrow> valid_price (req_price req)"
  shows "implements b (pt_modifyOrder B req (pay b x)) (modifyOrder b req)"
proof (cases "req_price req \<noteq> o_price (pay b x) \<or> req_quantity req \<noteq> o_initial_quantity (pay b x)")
  case True
  obtain b1 where b1: "cancelOrder b (req_order_id req) = ok b1" "refines b1 (pt_cancelOrder B (req_order_id req))"
    "out_ring b1 = out_ring b" using cancelOrder_refines [OF assms(1) o] by blast
  from refines_out_ring [OF addOrder_refines [OF b1(2) v] b1(3)] True b1(1) o
  show ?thesis by (simp add: modifyOrder_def pt_modifyOrder_def deref_pay)
next
  case False
  define b1 where "b1 = set_arena ((arena (pool b))(x := (deref b x)\<lparr>o_recv_tsc := req_recv_tsc req\<rparr>)) b"
  note s = stamp_refines [OF assms(1) o b1_def]
  from refines_out_ring [OF matchMarket_refines [OF s(1)] s(2), of req]
    refines_out_ring [OF matchOrders_refines [OF s(1)] s(2)] False o
  show ?thesis by (simp add: modifyOrder_def pt_modifyOrder_def deref_pay b1_def [symmetric] Let_def)
qed

section \<open>The entry point\<close>

lemma process_simulates:
  assumes R: "refines b B" and v: "price_ok req"
    and p: "pt_process B req = (B', ms, r)"
  shows "\<exists>b'. process b req = ok (b', r) \<and> refines b' B' \<and> out_ring b' = ring_push_all (out_ring b) ms"
proof -
  obtain sl where R': "book_rep b sl" and B: "B = book_abs b sl" using R by (auto simp: refines_def)
  note f = pt_find_orders [OF R' B, of "req_order_id req"]
  consider "req_message_type req = NEW" | "req_message_type req = CANCEL" | "req_message_type req = MODIFY"
    | "req_message_type req \<noteq> NEW" "req_message_type req \<noteq> CANCEL" "req_message_type req \<noteq> MODIFY" by blast
  then show ?thesis
  proof cases
    case 1
    then have "implements b (pt_addOrder B req) (addOrder b req)"
      using addOrder_refines [OF R] v enum_distinct by (simp add: price_ok_def)
    with 1 p show ?thesis by (auto simp: process_def pt_process_def implements_def Let_def split: prod.splits)
  next
    case 2
    then have "req_message_type req \<noteq> NEW" using enum_distinct by simp
    with 2 p f R cancelOrder_refines [OF R, of "req_order_id req"] show ?thesis
      by (cases "orders b (req_order_id req)")
        (auto simp: process_def pt_process_def Let_def deref_pay split: if_splits)
  next
    case 3
    then have n: "req_message_type req \<noteq> NEW" "req_message_type req \<noteq> CANCEL" using enum_distinct by simp_all
    show ?thesis
    proof (cases "orders b (req_order_id req)")
      case None
      with 3 n p f R show ?thesis by (auto simp: process_def pt_process_def Let_def)
    next
      case (Some x)
      then have "implements b (pt_modifyOrder B req (pay b x)) (modifyOrder b req)"
        using modifyOrder_refines [OF R Some] v n by (simp add: price_ok_def)
      with 3 n p f R Some show ?thesis
        by (auto simp: process_def pt_process_def implements_def Let_def deref_pay split: prod.splits if_splits)
    qed
  next
    case 4
    with p R show ?thesis by (simp add: process_def pt_process_def Let_def)
  qed
qed

lemma Orderbook_new_refines:
  "refines (Orderbook_new n ring) \<lparr>pt_bids = [], pt_asks = [], pt_cap = n\<rparr>"
proof -
  let ?b = "Orderbook_new n ring" and ?sl = "\<lambda>_ _. []"
  have "levels ?b s = (\<lambda>_. PriceLevelQueue_new)" for s by (cases s) (simp_all add: Orderbook_new_def levels.simps)
  then have "links_rep ?b ?sl" by (auto simp: links_rep_def plq_rep_def PriceLevelQueue_new_def)
  moreover have "index_rep ?b ?sl" using pool_owns_new [of n] by (simp add: index_rep_def resting_def Orderbook_new_def)
  moreover have "price_rep ?b s (?sl s)" for s
    by (cases s) (simp_all add: price_rep_def best_ok_def Orderbook_new_def best.simps non_empty.simps)
  ultimately have "book_rep ?b ?sl" by (simp add: book_rep_def)
  then show ?thesis by (rule refinesI) (simp_all add: slots_def Orderbook_new_def OrderPool_new_def)
qed

section \<open>What a represented book looks like\<close>

lemma price_sorted_concat:
  assumes "sorted_wrt (better s) ps" and "\<And>p x. x \<in> set (f p) \<Longrightarrow> o_price (g x) = p"
  shows "price_sorted s (map g (concat (map f ps)))"
  using assms(1)
proof (induction ps)
  case Nil
  then show ?case by (simp add: price_sorted_def)
next
  case (Cons p ps)
  have eq: "sorted_wrt (\<lambda>x y. \<not> better s (o_price (g y)) (o_price (g x))) (f p)"
    by (rule sorted_wrt_mono_rel [of _ "\<lambda>_ _. True"]) (simp_all add: assms(2) sorted_wrt_true)
  have "\<not> better s (o_price (g y)) (o_price (g x))" if "x \<in> set (f p)" "q \<in> set ps" "y \<in> set (f q)" for x q y
    using Cons.prems that assms(2) [OF that(1)] assms(2) [OF that(3)] better_antisym by auto
  with eq Cons show ?case by (auto simp: price_sorted_def sorted_wrt_append sorted_wrt_map)
qed

lemma refines_sorted:
  assumes "refines b B"
  shows "price_sorted s (pt_side B s)"
proof -
  obtain sl where R: "book_rep b sl" and B: "B = book_abs b sl" using assms by (auto simp: refines_def)
  then have "core_rep b sl" by (simp add: book_rep_core)
  from core_side_price(2) [OF this] show ?thesis
    unfolding B book_abs_simps slots_def by (intro price_sorted_concat [OF sorted_ladder])
qed

lemma refines_orders:
  assumes "refines b B"
  shows "distinct (map o_id (pt_orders B))" and "length (pt_orders B) \<le> pt_cap B"
    and "x \<in> set (pt_side B s) \<Longrightarrow> side_of (o_side x) = s \<and> valid_price (o_price x)"
proof -
  obtain sl where R: "book_rep b sl" and B: "B = book_abs b sl" using assms by (auto simp: refines_def)
  have C: "core_rep b sl" using R by (simp add: book_rep_core)
  then have L: "links_rep b sl" by (simp add: core_rep_def)
  show "length (pt_orders B) \<le> pt_cap B" using pool_full [OF R B] by simp
  have "inj_on (o_id \<circ> pay b) (set (slots sl Bids @ slots sl Asks))"
    unfolding set_all_slots [OF L] in_resting
  proof (rule inj_onI)
    fix x y assume xy: "x \<in> resting sl" "y \<in> resting sl" and e: "(o_id \<circ> pay b) x = (o_id \<circ> pay b) y"
    have "orders b (o_id (pay b x)) = Some x" "orders b (o_id (pay b y)) = Some y"
      using xy core_side_price(3) [OF C] unfolding in_resting by blast+
    with e show "x = y" by (metis comp_apply option.inject)
  qed
  then have "distinct (map (o_id \<circ> pay b) (slots sl Bids @ slots sl Asks))"
    using distinct_all_slots [OF C] unfolding distinct_map by blast
  then show "distinct (map o_id (pt_orders B))" unfolding pt_orders_def B book_abs_simps by simp
  show "side_of (o_side x) = s \<and> valid_price (o_price x)" if "x \<in> set (pt_side B s)"
  proof -
    from that obtain y where "y \<in> set (slots sl s)" "x = pay b y" unfolding B by auto
    then obtain p where "y \<in> set (sl s p)" unfolding set_slots [OF L] by blast
    from core_side_price [OF C this] \<open>x = pay b y\<close> show ?thesis by simp
  qed
qed

text \<open>The cached best price and the level counter.\<close>

lemma refines_best:
  assumes "refines b B"
  shows "non_empty b s = of_nat (card (o_price ` set (pt_side B s)))"
    and "pt_side B s \<noteq> [] \<Longrightarrow> best b s = o_price (hd (pt_side B s))"
    and "pt_side B s = [] \<Longrightarrow> best b s = worst s"
proof -
  obtain sl where R: "book_rep b sl" and B: "B = book_abs b sl" using assms by (auto simp: refines_def)
  have C: "core_rep b sl" and P: "price_rep b s (sl s)" using R by (auto simp: book_rep_core)
  then have L: "links_rep b sl" by (simp add: core_rep_def)
  have "o_price ` set (pt_side B s) = {p. sl s p \<noteq> []}"
  proof -
    have "p \<in> o_price ` set (pt_side B s) \<longleftrightarrow> (\<exists>x. x \<in> set (slots sl s) \<and> o_price (pay b x) = p)" for p
      by (auto simp: B)
    also have "\<dots> p \<longleftrightarrow> (\<exists>x. x \<in> set (sl s p))" for p
      unfolding set_slots [OF L] using core_side_price(2) [OF C] by blast
    finally show ?thesis by (auto simp: ex_in_conv)
  qed
  then show "non_empty b s = of_nat (card (o_price ` set (pt_side B s)))" using P by (simp add: price_rep_def)
  show "best b s = o_price (hd (pt_side B s))" if ne: "pt_side B s \<noteq> []"
  proof -
    have "0 < non_empty b s" using side_list_empty [OF R, of s] ne by (auto simp: B)
    from side_list_front [OF R this] show ?thesis by (metis B book_abs_simps(1) list.sel(1) list.simps(9))
  qed
  show "best b s = worst s" if "pt_side B s = []"
  proof -
    have "\<forall>p. sl s p = []" using slots_empty [OF L, of s] that by (simp add: B)
    then show ?thesis using P by (simp add: price_rep_def best_ok_def)
  qed
qed

text \<open>The abstract book of a represented book is determined by the book.\<close>

lemma refines_find:
  assumes "refines b B"
  shows "pt_find B oid = map_option (pay b) (orders b oid)"
  using assms pt_find_orders by (auto simp: refines_def)

lemma refines_in_use:
  assumes "refines b B"
  shows "in_use (pool b) = length (pt_orders B)"
proof -
  obtain sl where R: "book_rep b sl" and B: "B = book_abs b sl" using assms by (auto simp: refines_def)
  then show ?thesis using pool_full [OF R B] by (simp add: in_use_def available_def)
qed

lemma canMatch_iff:
  assumes "refines b B"
  shows "canMatch b side price \<longleftrightarrow>
    (if side = BID then \<exists>y \<in> set (pt_asks B). o_price y \<le> price
     else \<exists>x \<in> set (pt_bids B). price \<le> o_price x)"
proof -
  have ne: "non_empty b s = 0 \<longleftrightarrow> pt_side B s = []" for s
  proof -
    obtain sl where R: "book_rep b sl" and B: "B = book_abs b sl" using assms by (auto simp: refines_def)
    show ?thesis using side_list_empty [OF R, of s] by (auto simp: B word_gt_0)
  qed
  have A: "(\<exists>y \<in> set (pt_asks B). o_price y \<le> price) \<longleftrightarrow> pt_asks B \<noteq> [] \<and> best b Asks \<le> price"
  proof (cases "pt_asks B")
    case (Cons y ys)
    have "o_price y \<le> o_price z" if "z \<in> set (y # ys)" for z
      using price_sorted_hd [OF _ that, of Asks] refines_sorted [OF assms, of Asks] Cons by (simp add: not_less)
    then show ?thesis using refines_best(2) [OF assms, of Asks] Cons by (auto intro: order_trans)
  qed simp
  have B': "(\<exists>x \<in> set (pt_bids B). price \<le> o_price x) \<longleftrightarrow> pt_bids B \<noteq> [] \<and> price \<le> best b Bids"
  proof (cases "pt_bids B")
    case (Cons y ys)
    have "o_price z \<le> o_price y" if "z \<in> set (y # ys)" for z
      using price_sorted_hd [OF _ that, of Bids] refines_sorted [OF assms, of Bids] Cons by (simp add: not_less)
    then show ?thesis using refines_best(2) [OF assms, of Bids] Cons by (auto intro: order_trans)
  qed simp
  show ?thesis unfolding A B' canMatch_def raw_side ne by simp
qed

section \<open>The contract\<close>

lemma push_out_refines: "refines b B \<Longrightarrow> refines (push_out m b) B"
proof -
  assume "refines b B"
  then obtain sl where R: "book_rep b sl" and B: "B = book_abs b sl" by (auto simp: refines_def)
  have "book_rep (push_out m b) sl"
    using R push_out_core price_rep_env [of b _ _ "push_out m b"] by (simp add: book_rep_core)
  then show ?thesis by (rule refinesI) (simp_all add: B)
qed

interpretation book: matching_book process refines out_ring push_out
proof
  show "\<exists>b'. process b req = ok (b', r) \<and> refines b' B' \<and> out_ring b' = ring_push_all (out_ring b) ms"
    if "refines b B" "price_ok req" "pt_process B req = (B', ms, r)" for b B req B' ms r
    using that by (rule process_simulates)
  show "refines (push_out m b) B" if "refines b B" for b B m using that by (rule push_out_refines)
  show "out_ring (push_out m b) = ring_push_all (out_ring b) [m]" for m b by simp
qed

end
