(* ===== verification/Book_Properties.thy ===== *)
theory Book_Properties
  imports Orderbook_Process
begin

text \<open>
  The properties of the order book, over \<^verbatim>\<open>Orderbook::process\<close> itself. They rest on the
  interpretation \<open>book\<close> of the contract and on the laws of the abstract book.
\<close>

section \<open>Helper lemmas\<close>

lemma volume_pt_insert: "volume (pt_insert s x xs) = volume xs + unat (o_remaining_quantity x)"
proof -
  let ?P = "\<lambda>y. \<not> better s (o_price x) (o_price y)"
  have "volume (pt_insert s x xs) = volume (takeWhile ?P xs @ dropWhile ?P xs) + unat (o_remaining_quantity x)"
    unfolding pt_insert_def Let_def by (simp del: takeWhile_dropWhile_id)
  then show ?thesis by simp
qed

lemma pt_market_exhausts: "pt_market xs r = (xs', r', ts) \<Longrightarrow> xs' = [] \<or> r' = 0"
proof (induction xs r arbitrary: xs' r' ts rule: pt_market.induct)
  case (2 x xs r)
  let ?q = "min r (o_remaining_quantity x)"
  have f: "is_filled (take_qty ?q x) \<or> r - ?q = 0"
    by (auto simp: is_filled_def take_qty_def min_def)
  show ?case
  proof (cases "r \<noteq> 0 \<and> is_filled (take_qty ?q x)")
    case True
    obtain us r1 ts1 where m: "pt_market xs (r - ?q) = (us, r1, ts1)" by (metis prod.exhaust)
    from "2.IH" [OF _ refl _ m] True have "us = [] \<or> r1 = 0" by blast
    with m True "2.prems" show ?thesis by (auto simp: Let_def)
  next
    case False
    with "2.prems" f show ?thesis by (auto simp: Let_def split: if_splits)
  qed
qed simp

lemma pt_market_traded:
  assumes "pt_market xs r = (xs', r', ts)"
  shows "volume xs' + min (unat r) (volume xs) = volume xs" and "unat r' + min (unat r) (volume xs) = unat r"
  using pt_market_volume [OF assms] pt_market_exhausts [OF assms] by (auto simp: min_def)

lemma filter_ids_insert:
  assumes "\<forall>y \<in> set xs. o_id y \<noteq> o_id x"
  shows "filter (\<lambda>y. o_id y \<noteq> o_id x) (pt_insert s x xs) = xs"
proof -
  let ?P = "\<lambda>y. \<not> better s (o_price x) (o_price y)"
  have "filter (\<lambda>y. o_id y \<noteq> o_id x) (pt_insert s x xs)
      = filter (\<lambda>y. o_id y \<noteq> o_id x) (takeWhile ?P xs @ dropWhile ?P xs)"
    unfolding pt_insert_def Let_def by (simp del: takeWhile_dropWhile_id)
  then show ?thesis using assms by (simp add: filter_id_conv_all)
qed

definition pt_put :: "OrderRequest \<Rightarrow> PT_Book \<Rightarrow> PT_Book" where
  "pt_put req B = (let s = side_of (req_side req)
     in pt_set s (pt_insert s (Order_of (req_order_id req) req) (pt_side B s)) B)"

lemma pt_put_orders: "set (pt_orders (pt_put req B)) = insert (Order_of (req_order_id req) req) (set (pt_orders B))"
  by (cases "side_of (req_side req)") (auto simp: pt_put_def Let_def pt_orders_def set_pt_insert)

lemma pt_put_find:
  "pt_find B (req_order_id req) = None \<Longrightarrow>
   pt_find (pt_put req B) (req_order_id req) = Some (Order_of (req_order_id req) req)"
  unfolding pt_find_def by (rule find_unique) (auto simp: pt_put_orders find_None_iff)

lemma pt_put_cancel:
  assumes "pt_find B (req_order_id req) = None"
  shows "pt_cancelOrder (pt_put req B) (req_order_id req) = B"
proof -
  have f: "\<forall>y \<in> set (pt_bids B). o_id y \<noteq> req_order_id req" "\<forall>y \<in> set (pt_asks B). o_id y \<noteq> req_order_id req"
    using assms by (auto simp: pt_find_None pt_orders_def)
  note i = filter_ids_insert [of _ "Order_of (req_order_id req) req", simplified]
  show ?thesis using f i [OF f(1)] i [OF f(2)]
    by (cases "side_of (req_side req)") (simp_all add: pt_put_def pt_cancelOrder_def Let_def filter_id_conv_all)
qed

lemma pt_put_uncrossed:
  assumes "refines b B" and "uncrossed B" and "\<not> canMatch b (req_side req) (req_price req)"
  shows "uncrossed (pt_put req B)"
proof (cases "req_side req = BID")
  case True
  then show ?thesis using assms canMatch_iff [OF assms(1), of BID "req_price req"]
    by (auto simp: pt_put_def side_of_def uncrossed_def set_pt_insert not_le)
next
  case False
  then show ?thesis using assms canMatch_iff [OF assms(1), of "req_side req" "req_price req"]
    by (auto simp: pt_put_def side_of_def uncrossed_def set_pt_insert not_le)
qed

lemma pt_new_limit:
  assumes "req_message_type req = NEW" "req_type req \<noteq> MARKET" "pt_find B (req_order_id req) = None"
    and "length (pt_orders B) \<noteq> pt_cap B"
  shows "pt_process B req = (case pt_matchOrders (pt_put req B) of (B', ms, sp) \<Rightarrow>
      (B', ms, \<lparr>status = SUCCESS, suppress_ack = sp\<rparr>))"
  using assms by (simp add: pt_process_def pt_addOrder_def pt_put_def Let_def)

lemma pt_new_market:
  assumes "req_message_type req = NEW" "req_type req = MARKET"
  shows "pt_process B req = (case pt_matchMarket B req of (B', ms, sp) \<Rightarrow>
      (B', ms, \<lparr>status = SUCCESS, suppress_ack = sp\<rparr>))"
  using assms by (simp add: pt_process_def pt_addOrder_def)

lemma price_ok_market: "req_type req = MARKET \<Longrightarrow> price_ok req"
  and price_ok_cancel: "req_message_type req = CANCEL \<Longrightarrow> price_ok req"
  by (simp_all add: price_ok_def)

lemma volume_put:
  "volume (pt_bids (pt_put req B)) = volume (pt_bids B) + (if req_side req = BID then unat (req_quantity req) else 0)"
  "volume (pt_asks (pt_put req B)) = volume (pt_asks B) + (if req_side req = BID then 0 else unat (req_quantity req))"
  by (simp_all add: pt_put_def side_of_def volume_pt_insert Order_of_def Let_def)

lemma pt_matchOrders_volume:
  "pt_matchOrders B = (B', ms, sp) \<Longrightarrow>
   \<exists>t. volume (pt_bids B') + t = volume (pt_bids B) \<and> volume (pt_asks B') + t = volume (pt_asks B)"
  using pt_match_volume [of "pt_bids B" "pt_asks B"] by (force simp: pt_matchOrders_def split: prod.splits)

lemma side_of_Bids: "side_of x = Bids \<longleftrightarrow> x = BID" and side_of_Asks: "side_of x = Asks \<longleftrightarrow> x \<noteq> BID"
  by (auto simp: side_of_def)

lemma pt_cancel_orders: "pt_orders (pt_cancelOrder B oid) = filter (\<lambda>x. o_id x \<noteq> oid) (pt_orders B)"
  by (simp add: pt_orders_def pt_cancelOrder_def)

lemma find_filter_other: "find (\<lambda>x. f x = i) (filter (\<lambda>x. f x \<noteq> j) xs) = (if i = j then None else find (\<lambda>x. f x = i) xs)"
  by (induction xs) auto

lemma pt_find_cancel: "pt_find (pt_cancelOrder B oid) i = (if i = oid then None else pt_find B i)"
  unfolding pt_find_def pt_cancel_orders by (rule find_filter_other)

lemma pt_cancel_length:
  assumes "distinct (map o_id (pt_orders B))" and "pt_find B oid = Some x"
  shows "length (pt_orders (pt_cancelOrder B oid)) + 1 = length (pt_orders B)"
proof -
  have "x \<in> set (pt_orders B)" "o_id x = oid" using assms(2) by (auto simp: pt_find_def find_Some_iff)
  then obtain us vs where e: "pt_orders B = us @ x # vs" by (meson split_list)
  then have "\<forall>y \<in> set us. o_id y \<noteq> oid" "\<forall>y \<in> set vs. o_id y \<noteq> oid"
    using assms(1) \<open>o_id x = oid\<close> by (auto simp: image_iff)
  then have "filter (\<lambda>y. o_id y \<noteq> oid) us = us" "filter (\<lambda>y. o_id y \<noteq> oid) vs = vs"
    by (simp_all only: filter_id_conv_all)
  then show ?thesis by (simp add: pt_cancel_orders e \<open>o_id x = oid\<close>)
qed

lemma refines_available:
  assumes "refines b B"
  shows "available (pool b) = pt_cap B - length (pt_orders B)"
proof -
  obtain sl where "book_rep b sl" and "B = book_abs b sl" using assms by (auto simp: refines_def)
  from pool_full [OF this] show ?thesis by simp
qed

lemma off_ladder:
  assumes "req_message_type req = NEW" and "req_type req \<noteq> MARKET" and "orders b (req_order_id req) = None"
    and "available (pool b) \<noteq> 0" and "\<not> valid_price (req_price req)"
  shows "process b req = fail Index_Out_Of_Range"
proof -
  obtain x pool' where al: "allocate (pool b) (req_order_id req) req = (Some x, pool')"
    using allocate_None [of "pool b"] assms(4) by (metis option.exhaust prod.collapse)
  then have "arena pool' x = Order_of (req_order_id req) req" by (auto simp: allocate_def Let_def split: if_splits)
  then show ?thesis using assms al
    by (simp add: process_def addOrder_def Let_def deref_def level_get_invalid)
qed

section \<open>Sample states for the witnesses\<close>

definition ring8 :: "OutboundMessage RingBuffer" where
  "ring8 = \<lparr>write_idx = 0, read_idx = 0, buffer = replicate 8 OutboundMessage_zero, rb_mask = 7\<rparr>"

definition book4 :: Orderbook where "book4 = Orderbook_new 4 ring8"

definition empty4 :: PT_Book where "empty4 = \<lparr>pt_bids = [], pt_asks = [], pt_cap = 4\<rparr>"

definition req_at :: "MessageType \<Rightarrow> OrderId \<Rightarrow> Side \<Rightarrow> OrderType \<Rightarrow> Price \<Rightarrow> Quantity \<Rightarrow> OrderRequest" where
  "req_at t oid s ty p q =
     \<lparr>req_message_type = t, req_order_id = oid, req_client_id = 1, req_side = s, req_type = ty,
      req_price = p, req_quantity = q, req_recv_tsc = 0, req_server_push_tsc = 0, req_engine_pop_tsc = 0\<rparr>"

lemma book4_refines: "refines book4 empty4"
  unfolding book4_def empty4_def by (rule Orderbook_new_refines)

lemma empty4_wf: "pt_wf empty4"
  by (simp add: empty4_def pt_wf_def all_sides price_sorted_def uncrossed_def)

text \<open>The book after one resting bid, for the witnesses about resting orders.\<close>

abbreviation bid7 :: OrderRequest where "bid7 \<equiv> req_at NEW 7 BID LIMIT 100 5"

definition one_bid :: PT_Book where "one_bid = empty4\<lparr>pt_bids := [Order_of 7 bid7]\<rparr>"

lemma book_with_bid:
  "\<exists>b. process book4 bid7 = ok (b, \<lparr>status = SUCCESS, suppress_ack = False\<rparr>) \<and> refines b one_bid"
proof -
  have "price_ok bid7" by code_simp
  moreover have "pt_process empty4 bid7 = (one_bid, [], \<lparr>status = SUCCESS, suppress_ack = False\<rparr>)" by code_simp
  ultimately show ?thesis using book.simulates [OF book4_refines] by blast
qed

lemma one_bid_wf: "pt_wf one_bid"
  by (simp add: one_bid_def empty4_def pt_wf_def all_sides price_sorted_def uncrossed_def)

section \<open>Properties\<close>

text \<open>
  C1: \<^verbatim>\<open>Orderbook::process\<close> implements the abstract price-time book. From a book that represents
  \<open>B\<close>, a request whose price lies on the ladder makes \<^verbatim>\<open>process\<close> return (no loop runs forever, no
  array is indexed out of range, no null pointer is followed, no exception is thrown), with the
  result, the next book and exactly the outbound messages of \<open>pt_process\<close>.
\<close>

theorem process_refines:
  assumes "refines b B" and "price_ok req" and "pt_process B req = (B', ms, r)"
  shows "\<exists>b'. process b req = ok (b', r) \<and> refines b' B' \<and> out_ring b' = ring_push_all (out_ring b) ms"
  using assms by (rule book.simulates)

theorem process_refines_witness:
  "\<exists>b'. process book4 (req_at NEW 7 BID LIMIT 100 5) = ok (b', \<lparr>status = SUCCESS, suppress_ack = False\<rparr>)
     \<and> refines b' (empty4\<lparr>pt_bids := [Order_of 7 (req_at NEW 7 BID LIMIT 100 5)]\<rparr>) \<and> out_ring b' = ring8"
proof -
  have "price_ok (req_at NEW 7 BID LIMIT 100 5)" by code_simp
  moreover have "pt_process empty4 (req_at NEW 7 BID LIMIT 100 5) =
      (empty4\<lparr>pt_bids := [Order_of 7 (req_at NEW 7 BID LIMIT 100 5)]\<rparr>, [], \<lparr>status = SUCCESS, suppress_ack = False\<rparr>)"
    by code_simp
  moreover have "out_ring book4 = ring8" by (simp add: book4_def Orderbook_new_def)
  ultimately show ?thesis using process_refines [OF book4_refines] by fastforce
qed

text \<open>
  C3: a fresh book survives every sequence of requests with prices on the ladder: all of them are
  processed, and afterwards the spread is not crossed, as read off the book's own cached prices.
\<close>

theorem book_never_crossed:
  assumes "\<forall>req \<in> set reqs. price_ok req"
  shows "\<exists>b' rs. run_book process (Orderbook_new n ring) reqs = ok (b', rs) \<and> length rs = length reqs
     \<and> (0 < non_empty_bid_levels b' \<and> 0 < non_empty_ask_levels b' \<longrightarrow> best_bid_price b' < best_ask_price b')"
proof -
  have wf: "pt_wf \<lparr>pt_bids = [], pt_asks = [], pt_cap = n\<rparr>"
    by (simp add: pt_wf_def all_sides price_sorted_def uncrossed_def)
  obtain b' B' rs where r: "run_book process (Orderbook_new n ring) reqs = ok (b', rs)" "refines b' B'" "pt_wf B'"
    using book.run_wf [OF Orderbook_new_refines assms wf] by blast
  have ne: "pt_side B' s \<noteq> []" if "0 < non_empty b' s" for s
    using that refines_best(1) [OF r(2), of s] by auto
  have "best b' Bids < best b' Asks" if "0 < non_empty b' Bids" "0 < non_empty b' Asks"
    using refines_best(2) [OF r(2) ne [OF that(1)]] refines_best(2) [OF r(2) ne [OF that(2)]] r(3)
      hd_in_set [OF ne [OF that(1)]] hd_in_set [OF ne [OF that(2)]]
    by (auto simp: pt_wf_def uncrossed_def)
  moreover have "length rs = length reqs" using r(1) by (rule run_book_length)
  ultimately show ?thesis using r(1) by (auto simp: best.simps non_empty.simps)
qed

theorem book_never_crossed_witness:
  "\<exists>b' rs. run_book process (Orderbook_new 4 ring8) [req_at NEW 0 BID LIMIT 100 5, req_at NEW 1 ASK LIMIT 90 7] = ok (b', rs)
     \<and> length rs = 2
     \<and> (0 < non_empty_bid_levels b' \<and> 0 < non_empty_ask_levels b' \<longrightarrow> best_bid_price b' < best_ask_price b')"
proof -
  have "\<forall>req \<in> set [req_at NEW 0 BID LIMIT 100 5, req_at NEW 1 ASK LIMIT 90 7]. price_ok req" by code_simp
  from book_never_crossed [OF this, of 4 ring8] show ?thesis by (simp add: numeral_2_eq_2)
qed





text \<open>
  The cached best prices and level counters are right: the counter is the number of distinct
  prices resting on the side, the best price is the front order's price, and an empty side shows
  \<^verbatim>\<open>MIN_PRICE\<close> respectively \<^verbatim>\<open>MAX_PRICE\<close>.
\<close>

theorem best_prices_cached:
  assumes "refines b B"
  shows "non_empty_bid_levels b = of_nat (card (o_price ` set (pt_bids B)))
     \<and> non_empty_ask_levels b = of_nat (card (o_price ` set (pt_asks B)))
     \<and> best_bid_price b = (if pt_bids B = [] then MIN_PRICE else o_price (hd (pt_bids B)))
     \<and> best_ask_price b = (if pt_asks B = [] then MAX_PRICE else o_price (hd (pt_asks B)))"
  using refines_best [OF assms, of Bids] refines_best [OF assms, of Asks] by (simp add: best.simps non_empty.simps)

theorem best_prices_cached_witness:
  "best_bid_price book4 = MIN_PRICE \<and> best_ask_price book4 = MAX_PRICE \<and> non_empty_bid_levels book4 = 0"
  using best_prices_cached [OF book4_refines] by (simp add: empty4_def)

text \<open>
  C10: volume is conserved by a limit order: what the trades take off one side they take off the
  other, and the new order's quantity is added to its own side before matching.
\<close>

theorem new_limit_conserves_volume:
  assumes "refines b B" and "price_ok req" and "req_message_type req = NEW" and "req_type req \<noteq> MARKET"
    and "pt_find B (req_order_id req) = None" and "length (pt_orders B) \<noteq> pt_cap B"
  shows "\<exists>b' r B' t. process b req = ok (b', r) \<and> refines b' B'
     \<and> volume (pt_bids B') + t = volume (pt_bids B) + (if req_side req = BID then unat (req_quantity req) else 0)
     \<and> volume (pt_asks B') + t = volume (pt_asks B) + (if req_side req = BID then 0 else unat (req_quantity req))"
proof -
  obtain B' ms sp where m: "pt_matchOrders (pt_put req B) = (B', ms, sp)" by (metis prod.exhaust)
  then have "pt_process B req = (B', ms, \<lparr>status = SUCCESS, suppress_ack = sp\<rparr>)"
    using pt_new_limit [OF assms(3-6)] by simp
  with book.simulates [OF assms(1,2)] obtain b' where
    "process b req = ok (b', \<lparr>status = SUCCESS, suppress_ack = sp\<rparr>)" "refines b' B'" by blast
  then show ?thesis using pt_matchOrders_volume [OF m] unfolding volume_put by blast
qed

theorem new_limit_conserves_volume_witness:
  "\<exists>b' r B' t. process book4 (req_at NEW 7 BID LIMIT 100 5) = ok (b', r) \<and> refines b' B'
     \<and> volume (pt_bids B') + t = 5 \<and> volume (pt_asks B') + t = 0"
proof -
  let ?r = "req_at NEW 7 BID LIMIT 100 5"
  have "price_ok ?r" "req_message_type ?r = NEW" "req_type ?r \<noteq> MARKET" "pt_find empty4 (req_order_id ?r) = None"
    "length (pt_orders empty4) \<noteq> pt_cap empty4" by code_simp+
  from new_limit_conserves_volume [OF book4_refines this] show ?thesis by (simp add: req_at_def empty4_def)
qed

text \<open>
  C18: a market order trades the smaller of its quantity and what the opposite side holds, leaves
  its own side alone, never rests, and its acknowledgement is suppressed exactly when it was
  filled completely.
\<close>

theorem market_order_sweeps:
  assumes "refines b B" and "req_message_type req = NEW" and "req_type req = MARKET"
    and "req_side req = BID \<or> req_side req = ASK" and "s = (if req_side req = BID then Asks else Bids)"
  shows "\<exists>b' r B'. process b req = ok (b', r) \<and> refines b' B' \<and> pt_side B' (other s) = pt_side B (other s)
     \<and> volume (pt_side B' s) + min (unat (req_quantity req)) (volume (pt_side B s)) = volume (pt_side B s)
     \<and> (suppress_ack r \<longleftrightarrow> unat (req_quantity req) \<le> volume (pt_side B s))"
proof -
  obtain xs q ts where m: "pt_market (pt_side B s) (req_quantity req) = (xs, q, ts)" by (metis prod.exhaust)
  have sw: "pt_matchMarket B req = (pt_set s xs B, market_msgs req ts, q = 0)"
    using assms(4,5) m by (auto simp: pt_matchMarket_def pt_sweep_def)
  let ?r = "\<lparr>status = SUCCESS, suppress_ack = (q = 0)\<rparr>"
  have "pt_process B req = (pt_set s xs B, market_msgs req ts, ?r)" using sw pt_new_market [OF assms(2,3)] by simp
  with book.simulates [OF assms(1) price_ok_market [OF assms(3)]]
  obtain b' where b': "process b req = ok (b', ?r)" "refines b' (pt_set s xs B)" by blast
  have "q = 0 \<longleftrightarrow> unat (req_quantity req) \<le> volume (pt_side B s)"
    using pt_market_traded(2) [OF m] by (auto simp: min_def unat_eq_zero [symmetric] split: if_splits)
  with b' pt_market_traded(1) [OF m] show ?thesis
    by (intro exI [of _ b'] exI [of _ ?r] exI [of _ "pt_set s xs B"]) simp
qed

theorem market_order_sweeps_witness:
  "\<exists>b' r B'. process book4 (req_at NEW 7 BID MARKET 0 5) = ok (b', r) \<and> refines b' B' \<and> \<not> suppress_ack r"
proof -
  let ?r = "req_at NEW 7 BID MARKET 0 5"
  have "req_message_type ?r = NEW" "req_type ?r = MARKET" "req_side ?r = BID \<or> req_side ?r = ASK"
    "Asks = (if req_side ?r = BID then Asks else Bids)" by (simp_all add: req_at_def)
  from market_order_sweeps [OF book4_refines this] show ?thesis by (auto simp: req_at_def empty4_def)
qed

text \<open>
  C11: cancelling. The owner of a resting order cancels it: exactly that order leaves the book, its
  slot returns to the pool, every other order keeps its contents, and no MATCH is sent.
\<close>

theorem cancel_removes_one:
  assumes "refines b B" and "req_message_type req = CANCEL"
    and "pt_find B (req_order_id req) = Some x" and "o_client_id x = req_client_id req"
  shows "\<exists>b'. process b req = ok (b', \<lparr>status = SUCCESS, suppress_ack = False\<rparr>)
     \<and> refines b' (pt_cancelOrder B (req_order_id req)) \<and> out_ring b' = out_ring b
     \<and> orders b' (req_order_id req) = None
     \<and> (\<forall>i. i \<noteq> req_order_id req \<longrightarrow> map_option (pay b') (orders b' i) = map_option (pay b) (orders b i))
     \<and> available (pool b') = available (pool b) + 1"
proof -
  let ?i = "req_order_id req" and ?B = "pt_cancelOrder B (req_order_id req)"
  have "pt_process B req = (?B, [], \<lparr>status = SUCCESS, suppress_ack = False\<rparr>)"
    using assms by (simp add: pt_process_def)
  with book.simulates [OF assms(1) price_ok_cancel [OF assms(2)]]
  obtain b' where b': "process b req = ok (b', \<lparr>status = SUCCESS, suppress_ack = False\<rparr>)" "refines b' ?B"
    "out_ring b' = out_ring b" by force
  have f: "pt_find ?B i = (if i = ?i then None else pt_find B i)" for i
    by (rule pt_find_cancel)
  have "orders b' ?i = None" using refines_find [OF b'(2), of ?i] f [of ?i] by simp
  moreover have "map_option (pay b') (orders b' i) = map_option (pay b) (orders b i)" if "i \<noteq> ?i" for i
    using refines_find [OF b'(2), of i] refines_find [OF assms(1), of i] f [of i] that by simp
  moreover have "available (pool b') = available (pool b) + 1"
    using refines_available [OF b'(2)] refines_available [OF assms(1)]
      pt_cancel_length [OF refines_orders(1) [OF assms(1)] assms(3)] refines_orders(2) [OF assms(1)]
    by (simp add: pt_cancelOrder_def)
  ultimately show ?thesis using b' by blast
qed

theorem cancel_removes_one_witness:
  "\<exists>b b'. process book4 bid7 = ok (b, \<lparr>status = SUCCESS, suppress_ack = False\<rparr>)
     \<and> process b (req_at CANCEL 7 0 0 0 0) = ok (b', \<lparr>status = SUCCESS, suppress_ack = False\<rparr>)
     \<and> orders b' 7 = None \<and> available (pool b') = available (pool b) + 1"
proof -
  obtain b where b: "process book4 bid7 = ok (b, \<lparr>status = SUCCESS, suppress_ack = False\<rparr>)" "refines b one_bid"
    using book_with_bid by blast
  let ?c = "req_at CANCEL 7 0 0 0 0"
  have "req_message_type ?c = CANCEL" "pt_find one_bid (req_order_id ?c) = Some (Order_of 7 bid7)"
    "o_client_id (Order_of 7 bid7) = req_client_id ?c" by code_simp+
  from cancel_removes_one [OF b(2) this] b(1) show ?thesis by (auto simp: req_at_def)
qed

text \<open>
  Adding and cancelling is a round trip. A limit order that cannot match (as \<^verbatim>\<open>canMatch\<close> tells)
  and is then cancelled by its owner leaves the abstract book and the outbound ring as they were.
\<close>

theorem add_cancel_roundtrip:
  assumes "refines b B" and "uncrossed B" and "price_ok req" and "req_message_type req = NEW" and "req_type req \<noteq> MARKET"
    and "pt_find B (req_order_id req) = None" and "length (pt_orders B) \<noteq> pt_cap B"
    and "\<not> canMatch b (req_side req) (req_price req)"
    and "req_message_type creq = CANCEL" "req_order_id creq = req_order_id req" "req_client_id creq = req_client_id req"
  shows "\<exists>b1 b2. process b req = ok (b1, \<lparr>status = SUCCESS, suppress_ack = False\<rparr>)
     \<and> process b1 creq = ok (b2, \<lparr>status = SUCCESS, suppress_ack = False\<rparr>)
     \<and> refines b2 B \<and> out_ring b2 = out_ring b"
proof -
  let ?ok = "\<lparr>status = SUCCESS, suppress_ack = False\<rparr>"
  have "uncrossed (pt_put req B)" by (rule pt_put_uncrossed [OF assms(1,2,8)])
  then have "pt_process B req = (pt_put req B, [], ?ok)"
    unfolding pt_new_limit [OF assms(4-7)] by (simp add: uncrossed_no_match)
  with book.simulates [OF assms(1,3)]
  obtain b1 where b1: "process b req = ok (b1, ?ok)" "refines b1 (pt_put req B)" "out_ring b1 = out_ring b" by force
  have "pt_process (pt_put req B) creq = (B, [], ?ok)"
    using assms(9-11) pt_put_find [OF assms(6)] pt_put_cancel [OF assms(6)] by (simp add: pt_process_def)
  with book.simulates [OF b1(2) price_ok_cancel [OF assms(9)]]
  obtain b2 where "process b1 creq = ok (b2, ?ok)" "refines b2 B" "out_ring b2 = out_ring b1" by force
  with b1 show ?thesis by auto
qed

theorem add_cancel_roundtrip_witness:
  "\<exists>b1 b2. process book4 bid7 = ok (b1, \<lparr>status = SUCCESS, suppress_ack = False\<rparr>)
     \<and> process b1 (req_at CANCEL 7 0 0 0 0) = ok (b2, \<lparr>status = SUCCESS, suppress_ack = False\<rparr>)
     \<and> refines b2 empty4 \<and> out_ring b2 = out_ring book4"
proof -
  have "uncrossed empty4" "price_ok bid7" "req_message_type bid7 = NEW" "req_type bid7 \<noteq> MARKET"
    "pt_find empty4 (req_order_id bid7) = None" "length (pt_orders empty4) \<noteq> pt_cap empty4"
    "\<not> canMatch book4 (req_side bid7) (req_price bid7)" "req_message_type (req_at CANCEL 7 0 0 0 0) = CANCEL"
    "req_order_id (req_at CANCEL 7 0 0 0 0) = req_order_id bid7" "req_client_id (req_at CANCEL 7 0 0 0 0) = req_client_id bid7"
    by code_simp+
  from add_cancel_roundtrip [OF book4_refines this] show ?thesis .
qed

text \<open>
  Rejection. A CANCEL or MODIFY for an id that does not rest, or from a client that does not
  own the order, or a MODIFY that names the other side, and every unknown message type, is answered
  with FAILURE and leaves the whole book (and the outbound ring) untouched.
\<close>

theorem process_rejects:
  assumes "req_message_type req \<noteq> NEW"
    and "case orders b (req_order_id req) of None \<Rightarrow> True
      | Some x \<Rightarrow> o_client_id (deref b x) \<noteq> req_client_id req
          \<or> req_message_type req = MODIFY \<and> o_side (deref b x) \<noteq> req_side req
          \<or> req_message_type req \<noteq> CANCEL \<and> req_message_type req \<noteq> MODIFY"
  shows "process b req = ok (b, \<lparr>status = FAILURE, suppress_ack = False\<rparr>)"
  using assms by (auto simp: process_def split: option.splits)

theorem process_rejects_witness:
  "process book4 (req_at CANCEL 7 0 0 0 0) = ok (book4, \<lparr>status = FAILURE, suppress_ack = False\<rparr>)"
  by (rule process_rejects) (simp_all add: req_at_def book4_def Orderbook_new_def)

text \<open>
  Every request is answered. On an uncrossed book, when \<^verbatim>\<open>process\<close> tells the engine to suppress
  the acknowledgement, it has pushed a MATCH that names the request's order and client. (A market
  order needs a quantity; see the property on empty market orders.)
\<close>

theorem suppressed_means_matched:
  assumes "refines b B" and "pt_wf B" and "price_ok req" and "req_type req = MARKET \<longrightarrow> req_quantity req \<noteq> 0"
  shows "\<exists>b' r ms. process b req = ok (b', r) \<and> out_ring b' = ring_push_all (out_ring b) ms
     \<and> (suppress_ack r \<longrightarrow> (\<exists>m \<in> set ms. om_message_type m = MATCH \<and> om_order_id m = req_order_id req
           \<and> om_client_id m = req_client_id req))"
proof -
  obtain b' r ms where "process b req = ok (b', r)" "out_ring b' = ring_push_all (out_ring b) ms"
    "suppress_ack r \<longrightarrow> (\<exists>m \<in> set ms. answers req m)"
    by (rule book.answered [OF assms(1,3,2,4)])
  then show ?thesis unfolding answers_def by blast
qed

theorem suppressed_means_matched_witness:
  "\<exists>b' r ms. process book4 bid7 = ok (b', r) \<and> out_ring b' = ring_push_all (out_ring book4) ms
     \<and> (suppress_ack r \<longrightarrow> (\<exists>m \<in> set ms. om_message_type m = MATCH \<and> om_order_id m = 7 \<and> om_client_id m = 1))"
proof -
  have "price_ok bid7" "req_type bid7 = MARKET \<longrightarrow> req_quantity bid7 \<noteq> 0" by code_simp+
  from suppressed_means_matched [OF book4_refines empty4_wf this] show ?thesis by (simp add: req_at_def)
qed

text \<open>
  Quantities. Whatever a fresh book is fed, as long as every order asks for some quantity, every
  resting order has something left to fill and no more than it asked for: fills never exceed what
  is open, and a filled order never stays.
\<close>

theorem resting_orders_open:
  assumes "\<forall>req \<in> set reqs. price_ok req \<and> (req_message_type req = CANCEL \<or> 0 < req_quantity req)"
  shows "\<exists>b' rs B'. run_book process (Orderbook_new n ring) reqs = ok (b', rs) \<and> refines b' B'
     \<and> (\<forall>x \<in> set (pt_orders B'). 0 < o_remaining_quantity x \<and> o_remaining_quantity x \<le> o_initial_quantity x)"
proof -
  let ?E = "\<lparr>pt_bids = [], pt_asks = [], pt_cap = n\<rparr>"
  obtain B' ms rs where p: "pt_run ?E reqs = (B', ms, rs)" by (metis prod.exhaust)
  have "all_open ?E" by (simp add: all_open_def pt_orders_def)
  then have "all_open B'" using pt_run_open [of ?E reqs] assms p by auto
  moreover obtain b' where "run_book process (Orderbook_new n ring) reqs = ok (b', rs)" "refines b' B'"
    using book.run_simulates [OF Orderbook_new_refines _ p] assms by blast
  ultimately show ?thesis unfolding all_open_def open_order_def by blast
qed

theorem resting_orders_open_witness:
  "\<exists>b' rs B'. run_book process (Orderbook_new 4 ring8) [bid7, req_at NEW 8 ASK LIMIT 90 7] = ok (b', rs) \<and> refines b' B'
     \<and> (\<forall>x \<in> set (pt_orders B'). 0 < o_remaining_quantity x \<and> o_remaining_quantity x \<le> o_initial_quantity x)"
proof -
  have "\<forall>req \<in> set [bid7, req_at NEW 8 ASK LIMIT 90 7]. price_ok req \<and> (req_message_type req = CANCEL \<or> 0 < req_quantity req)"
    by code_simp
  from resting_orders_open [OF this] show ?thesis .
qed



text \<open>
  \<^verbatim>\<open>canMatch\<close> is exact: it says yes when some resting order of the opposite side accepts the
  price, and only then.
\<close>

theorem canMatch_correct:
  assumes "refines b B"
  shows "canMatch b side price \<longleftrightarrow>
    (if side = BID then \<exists>y \<in> set (pt_asks B). o_price y \<le> price else \<exists>x \<in> set (pt_bids B). price \<le> o_price x)"
  by (rule canMatch_iff [OF assms])

theorem canMatch_correct_witness: "\<not> canMatch book4 BID 500"
  using canMatch_correct [OF book4_refines, of BID 500] by (simp add: empty4_def)

section \<open>Behaviours that surprise\<close>

text \<open>
  A limit order priced off the ladder makes \<^verbatim>\<open>addOrder\<close> index the level array out of range: the
  only check is the one of the gateway, which has no upper bound.
\<close>

theorem off_ladder_price_faults:
  assumes "req_message_type req = NEW" and "req_type req \<noteq> MARKET" and "orders b (req_order_id req) = None"
    and "available (pool b) \<noteq> 0" and "\<not> valid_price (req_price req)"
  shows "process b req = fail Index_Out_Of_Range"
  using assms by (rule off_ladder)

theorem off_ladder_price_faults_witness:
  "process book4 (req_at NEW 7 BID LIMIT 100001 5) = fail Index_Out_Of_Range"
  by (rule off_ladder_price_faults)
    (simp_all add: req_at_def book4_def Orderbook_new_def available_def OrderPool_new_def valid_price_def
      MIN_PRICE_def MAX_PRICE_def)

text \<open>
  A market order of quantity zero is swallowed: \<^verbatim>\<open>process\<close> reports success with the
  acknowledgement suppressed, although it sent nothing.
\<close>

theorem empty_market_order_unanswered:
  assumes "req_message_type req = NEW" and "req_type req = MARKET" and "req_quantity req = 0"
  shows "process b req = ok (b, \<lparr>status = SUCCESS, suppress_ack = True\<rparr>)"
  using assms by (auto simp: process_def addOrder_def matchMarket_def market_loop.simps)

theorem empty_market_order_unanswered_witness:
  "process book4 (req_at NEW 7 BID MARKET 0 0) = ok (book4, \<lparr>status = SUCCESS, suppress_ack = True\<rparr>)"
  by (rule empty_market_order_unanswered) (simp_all add: req_at_def)

text \<open>
  With every slot of the pool taken, a new limit order is dropped and acknowledged as a
  success: the book is unchanged, the order does not rest.
\<close>

theorem exhausted_pool_acks_success:
  assumes "req_message_type req = NEW" and "req_type req \<noteq> MARKET" and "available (pool b) = 0"
  shows "process b req = ok (b, \<lparr>status = SUCCESS, suppress_ack = False\<rparr>)"
  using assms by (simp add: process_def addOrder_def allocate_exhausted)

theorem exhausted_pool_acks_success_witness:
  "process (Orderbook_new 0 ring8) bid7 = ok (Orderbook_new 0 ring8, \<lparr>status = SUCCESS, suppress_ack = False\<rparr>)"
  by (rule exhausted_pool_acks_success)
    (simp_all add: req_at_def Orderbook_new_def available_def OrderPool_new_def)

lemma modify_same_find:
  assumes d: "distinct (map o_id (pt_orders B))" and f: "pt_find B oid = Some x"
    and x: "x \<in> set (pt_side B (other s))" and e: "eaten xs (pt_side (pt_stamp oid t B) s)"
  shows "pt_find (pt_set s xs (pt_stamp oid t B)) oid = Some (x\<lparr>o_recv_tsc := t\<rparr>)"
  unfolding pt_find_def
proof (rule find_unique)
  have i: "o_id x = oid" "x \<in> set (pt_orders B)" using f by (auto simp: pt_find_def find_Some_iff)
  have u: "z = x" if "z \<in> set (pt_orders B)" "o_id z = oid" for z
    using d i that by (metis distinct_map inj_onD)
  have side: "pt_side (pt_stamp oid t B) s' = map (stamp oid t) (pt_side B s')" for s'
    by (cases s') (simp_all add: pt_stamp_def)
  have orders: "set (pt_orders C) = set (pt_side C s) \<union> set (pt_side C (other s))" for C
    by (cases s) (auto simp: pt_orders_def)
  have own: "pt_side (pt_set s xs (pt_stamp oid t B)) (other s) = map (stamp oid t) (pt_side B (other s))"
    by (simp add: side)
  show "x\<lparr>o_recv_tsc := t\<rparr> \<in> set (pt_orders (pt_set s xs (pt_stamp oid t B)))"
    unfolding orders own using x i(1) by (force simp: stamp_def)
  show "o_id (x\<lparr>o_recv_tsc := t\<rparr>) = oid" using i by simp
  fix y assume y: "y \<in> set (pt_orders (pt_set s xs (pt_stamp oid t B)))" "o_id y = oid"
  then consider z where "z \<in> set (pt_side B (other s))" "y = stamp oid t z" | "y \<in> set xs"
    unfolding orders own by auto
  then show "y = x\<lparr>o_recv_tsc := t\<rparr>"
  proof cases
    case (1 z)
    then have "z = x" using u [of z] y(2) orders [of B] by auto
    with 1 i(1) show ?thesis by (simp add: stamp_def)
  next
    case 2
    obtain y0 where "y0 \<in> set (pt_side (pt_stamp oid t B) s)" "residue y y0" by (rule eatenE [OF e 2])
    then obtain z where z: "z \<in> set (pt_side B s)" "o_id z = oid"
      using residue_sel(1) y(2) unfolding side by fastforce
    then have "x \<in> set (pt_side B s)" using u [of z] orders [of B] by auto
    moreover have "set (pt_bids B) \<inter> set (pt_asks B) = {}"
      using d by (auto simp: pt_orders_def distinct_map inj_on_def)
    ultimately show ?thesis using x by (cases s) auto
  qed
qed

text \<open>
  A MODIFY that turns an order into a MARKET order without changing its price or quantity
  trades the full quantity against the opposite side and leaves the original order resting with
  all it had open.
\<close>

theorem market_modify_keeps_order:
  assumes "refines b B" and "req_message_type req = MODIFY" and "req_type req = MARKET"
    and "pt_find B (req_order_id req) = Some x" and "o_client_id x = req_client_id req" and "o_side x = req_side req"
    and "req_price req = o_price x" and "req_quantity req = o_initial_quantity x"
    and "req_side req = BID \<or> req_side req = ASK" and "s = (if req_side req = BID then Asks else Bids)"
  shows "\<exists>b' r B'. process b req = ok (b', r) \<and> refines b' B'
     \<and> pt_find B' (req_order_id req) = Some (x\<lparr>o_recv_tsc := req_recv_tsc req\<rparr>)
     \<and> volume (pt_side B' s) + min (unat (req_quantity req)) (volume (pt_side B s)) = volume (pt_side B s)"
proof -
  let ?B = "pt_stamp (req_order_id req) (req_recv_tsc req) B"
  obtain xs q ts where m: "pt_market (pt_side ?B s) (req_quantity req) = (xs, q, ts)" by (metis prod.exhaust)
  have v: "volume (pt_side ?B s) = volume (pt_side B s)"
    by (cases s) (simp_all add: pt_stamp_def volume_def comp_def)
  have sw: "pt_matchMarket ?B req = (pt_set s xs ?B, market_msgs req ts, q = 0)"
    using assms(9,10) m by (auto simp: pt_matchMarket_def pt_sweep_def)
  let ?r = "\<lparr>status = SUCCESS, suppress_ack = (q = 0)\<rparr>"
  have "pt_process B req = (pt_set s xs ?B, market_msgs req ts, ?r)"
    using sw assms(2-8) by (simp add: pt_process_def pt_modifyOrder_def pt_stamp_def Let_def)
  with book.simulates [OF assms(1) price_ok_market [OF assms(3)]]
  obtain b' where b': "process b req = ok (b', ?r)" "refines b' (pt_set s xs ?B)" by blast
  have xB: "x \<in> set (pt_orders B)" using assms(4) by (auto simp: pt_find_def find_Some_iff)
  have "x \<in> set (pt_side B (other s))"
  proof -
    obtain s' where s': "x \<in> set (pt_side B s')"
      using xB that [of Bids] that [of Asks] by (auto simp: pt_orders_def)
    then have "side_of (o_side x) = s'" using refines_orders(3) [OF assms(1)] by blast
    then have "s' = other s" using assms(6,9,10) by (auto simp: side_of_def)
    with s' show ?thesis by simp
  qed
  from modify_same_find [OF refines_orders(1) [OF assms(1)] assms(4) this pt_market_eaten [OF m]]
  show ?thesis using b' pt_market_traded(1) [OF m] v
    by (intro exI [of _ b'] exI [of _ ?r] exI [of _ "pt_set s xs ?B"]) simp
qed

theorem market_modify_keeps_order_witness:
  "\<exists>b b' r B'. process book4 bid7 = ok (b, \<lparr>status = SUCCESS, suppress_ack = False\<rparr>)
     \<and> process b (req_at MODIFY 7 BID MARKET 100 5) = ok (b', r) \<and> refines b' B'
     \<and> pt_find B' 7 = Some (Order_of 7 bid7)"
proof -
  obtain b where b: "process book4 bid7 = ok (b, \<lparr>status = SUCCESS, suppress_ack = False\<rparr>)" "refines b one_bid"
    using book_with_bid by blast
  let ?m = "req_at MODIFY 7 BID MARKET 100 5" and ?o = "Order_of 7 bid7"
  have "req_message_type ?m = MODIFY" "req_type ?m = MARKET" "pt_find one_bid (req_order_id ?m) = Some ?o"
    "o_client_id ?o = req_client_id ?m" "o_side ?o = req_side ?m" "req_price ?m = o_price ?o"
    "req_quantity ?m = o_initial_quantity ?o" "req_side ?m = BID \<or> req_side ?m = ASK"
    "Asks = (if req_side ?m = BID then Asks else Bids)" by code_simp+
  from market_modify_keeps_order [OF b(2) this] b(1) show ?thesis by (auto simp: req_at_def Order_of_def)
qed

end
