(* ===== verification/Validation.thy ===== *)
theory Validation
  imports Order_Types
begin

text \<open>
  \<^verbatim>\<open>server/include/validation.hpp\<close>: the checks the gateway applies to an inbound message before
  it is handed to the engine. Each early \<^verbatim>\<open>return false\<close> is one conjunct or branch, in the order
  of the source; the raw bytes are compared as the source compares them.
\<close>

definition validate_new :: "InboundMessage \<Rightarrow> bool" where
  "validate_new msg =
     (if im_message_type msg \<noteq> 0 then False
      else if im_side msg \<noteq> 0 \<and> im_side msg \<noteq> 1 then False
      else if im_order_type msg \<noteq> 0 \<and> im_order_type msg \<noteq> 1 then False
      else if im_order_type msg = LIMIT \<and> im_price msg = 0 then False
      else if 1000000 < im_quantity msg then False
      else True)"

definition validate_cancel :: "InboundMessage \<Rightarrow> bool" where
  "validate_cancel msg = (if im_message_type msg \<noteq> 1 then False else True)"

definition validate_modify :: "InboundMessage \<Rightarrow> bool" where
  "validate_modify msg =
     (if im_message_type msg \<noteq> 2 then False
      else if im_side msg \<noteq> 0 \<and> im_side msg \<noteq> 1 then False
      else if im_order_type msg \<noteq> 0 \<and> im_order_type msg \<noteq> 1 then False
      else if im_order_type msg = LIMIT \<and> im_price msg = 0 then False
      else if 1000000 < im_quantity msg then False
      else True)"

definition validate_message :: "InboundMessage \<Rightarrow> bool" where
  "validate_message msg =
     (if im_message_type msg = NEW then validate_new msg
      else if im_message_type msg = CANCEL then validate_cancel msg
      else if im_message_type msg = MODIFY then validate_modify msg
      else False)"

text \<open>What a validated message is, without the case distinction.\<close>

lemma validate_message_iff:
  "validate_message msg \<longleftrightarrow>
     im_message_type msg = CANCEL \<or>
     (im_message_type msg = NEW \<or> im_message_type msg = MODIFY)
     \<and> (im_side msg = BID \<or> im_side msg = ASK)
     \<and> (im_order_type msg = MARKET \<or> im_order_type msg = LIMIT \<and> MIN_PRICE \<le> im_price msg)
     \<and> im_quantity msg \<le> 1000000"
proof -
  have p: "(1 :: Price) \<le> w \<longleftrightarrow> w \<noteq> 0" for w by unat_arith
  show ?thesis
    by (auto simp: validate_message_def validate_new_def validate_cancel_def validate_modify_def
        enum_defs MIN_PRICE_def p not_less)
qed

end
