(* ===== verification/Engine.thy ===== *)
theory Engine
  imports Orderbook_Process Validation
begin

text \<open>
  \<^verbatim>\<open>engine/include/engine.hpp\<close> and \<^verbatim>\<open>engine/src/engine.cpp\<close>: id assignment, request routing and
  the matching thread.

  The outbound ring is one object that the engine and its book hold by reference; it lives in the
  book record, and the engine's own push goes through \<open>push_out\<close>. \<^verbatim>\<open>executeRequest\<close> is a state
  transformer; \<^verbatim>\<open>handleMatching\<close> is a step relation with one step per shared-memory access, so
  that the gateway's pushes may fall between any two of them.
\<close>

section \<open>Request routing\<close>

record Engine =
  book :: Orderbook
  next_id :: OrderId
  in_ring :: "InboundMessage RingBuffer"

definition Engine_new :: "nat \<Rightarrow> InboundMessage RingBuffer \<Rightarrow> OutboundMessage RingBuffer \<Rightarrow> Engine" where
  "Engine_new capacity inr outr = \<lparr>book = Orderbook_new capacity outr, next_id = 0, in_ring = inr\<rparr>"

text \<open>The \<^verbatim>\<open>OrderRequest\<close> without diagnostics: the three timestamps take their default 0.\<close>

definition request_of :: "OrderId \<Rightarrow> InboundMessage \<Rightarrow> OrderRequest" where
  "request_of assigned_id msg =
     \<lparr>req_message_type = im_message_type msg, req_order_id = assigned_id, req_client_id = im_client_id msg,
      req_side = im_side msg, req_type = im_order_type msg, req_price = im_price msg,
      req_quantity = im_quantity msg, req_recv_tsc = 0, req_server_push_tsc = 0, req_engine_pop_tsc = 0\<rparr>"

definition ack_of :: "OrderId \<Rightarrow> InboundMessage \<Rightarrow> Status \<Rightarrow> OutboundMessage" where
  "ack_of assigned_id msg st = OutboundMessage_zero
     \<lparr>om_read_begin_tsc := im_read_begin_tsc msg, om_order_id := assigned_id,
      om_client_id := im_client_id msg, om_message_type := im_message_type msg, om_status := st\<rparr>"

definition assigned_id :: "OrderId \<Rightarrow> InboundMessage \<Rightarrow> OrderId" where
  "assigned_id nid msg = (if im_message_type msg = NEW then nid else im_order_id msg)"

definition bump_id :: "OrderId \<Rightarrow> InboundMessage \<Rightarrow> OrderId" where
  "bump_id nid msg = (if im_message_type msg = NEW then nid + 1 else nid)"

definition executeRequest :: "Engine \<Rightarrow> InboundMessage \<Rightarrow> Engine res" where
  "executeRequest e msg =
     (let oid = assigned_id (next_id e) msg;
          e1 = e\<lparr>next_id := bump_id (next_id e) msg\<rparr>
      in rbind (process (book e1) (request_of oid msg)) (\<lambda>r.
           let (b, res) = r
           in ok (e1\<lparr>book := if suppress_ack res then b else push_out (ack_of oid msg (status res)) b\<rparr>)))"

text \<open>\<^verbatim>\<open>step()\<close>: execute whatever the ring holds; \<open>fuel\<close> bounds the number of pops.\<close>

fun engine_step :: "nat \<Rightarrow> Engine \<Rightarrow> Engine res" where
  "engine_step 0 e = None"
| "engine_step (Suc n) e =
     (case ring_pop (in_ring e) of
        (None, r) \<Rightarrow> ok (e\<lparr>in_ring := r\<rparr>)
      | (Some msg, r) \<Rightarrow> rbind (executeRequest (e\<lparr>in_ring := r\<rparr>) msg) (engine_step n))"

section \<open>The abstract engine\<close>

text \<open>The reply to one message, and the state after it.\<close>

definition pt_execute :: "PT_Book \<Rightarrow> OrderId \<Rightarrow> InboundMessage \<Rightarrow> PT_Book \<times> OrderId \<times> OutboundMessage list" where
  "pt_execute B nid msg =
     (let oid = assigned_id nid msg
      in case pt_process B (request_of oid msg) of
           (B', ms, r) \<Rightarrow> (B', bump_id nid msg,
              ms @ (if suppress_ack r then [] else [ack_of oid msg (status r)])))"

fun pt_execute_all :: "PT_Book \<Rightarrow> OrderId \<Rightarrow> InboundMessage list \<Rightarrow> PT_Book \<times> OrderId \<times> OutboundMessage list" where
  "pt_execute_all B nid [] = (B, nid, [])"
| "pt_execute_all B nid (msg # msgs) =
     (case pt_execute B nid msg of (B1, n1, ms1) \<Rightarrow>
        case pt_execute_all B1 n1 msgs of (B2, n2, ms2) \<Rightarrow> (B2, n2, ms1 @ ms2))"

definition msg_ok :: "InboundMessage \<Rightarrow> bool" where
  "msg_ok msg \<longleftrightarrow> (im_message_type msg \<noteq> CANCEL \<and> im_order_type msg \<noteq> MARKET \<longrightarrow> valid_price (im_price msg))"

lemma price_ok_request [simp]: "price_ok (request_of oid msg) \<longleftrightarrow> msg_ok msg"
  by (simp add: price_ok_def msg_ok_def request_of_def)

definition engine_as :: "Engine \<Rightarrow> PT_Book \<Rightarrow> OrderId \<Rightarrow> bool" where
  "engine_as e B nid \<longleftrightarrow> refines (book e) B \<and> next_id e = nid"

lemma executeRequest_simulates:
  assumes "engine_as e B nid" and "msg_ok msg" and "pt_execute B nid msg = (B', nid', ms)"
  shows "\<exists>e'. executeRequest e msg = ok e' \<and> engine_as e' B' nid' \<and> in_ring e' = in_ring e
     \<and> out_ring (book e') = ring_push_all (out_ring (book e)) ms"
proof -
  let ?req = "request_of (assigned_id nid msg) msg"
  obtain B1 ms1 r where p: "pt_process B ?req = (B1, ms1, r)" by (metis prod.exhaust)
  have R: "refines (book e) B" "next_id e = nid" using assms(1) by (simp_all add: engine_as_def)
  obtain b' where b': "process (book e) ?req = ok (b', r)" "refines b' B1"
    "out_ring b' = ring_push_all (out_ring (book e)) ms1"
    using book.simulates [OF R(1) _ p] assms(2) by auto
  from assms(3) p have q: "B' = B1" "nid' = bump_id nid msg"
    "ms = ms1 @ (if suppress_ack r then [] else [ack_of (assigned_id nid msg) msg (status r)])"
    by (auto simp: pt_execute_def Let_def)
  show ?thesis using b' q R book.emit_shows [OF b'(2)]
    by (auto simp: executeRequest_def engine_as_def Let_def)
qed

text \<open>Ids below the counter are in use or were; the counter itself is fresh.\<close>

definition ids_below :: "OrderId \<Rightarrow> PT_Book \<Rightarrow> bool" where
  "ids_below nid B \<longleftrightarrow> (\<forall>x \<in> set (pt_orders B). o_id x < nid)"

lemma ids_below_fresh: "ids_below nid B \<Longrightarrow> pt_find B nid = None"
  by (auto simp: ids_below_def pt_find_None)

lemma pt_process_new_ids:
  assumes "x \<in> set (pt_orders (fst (pt_process B req)))" and "o_id x = req_order_id req"
  shows "req_message_type req = NEW \<or> (\<exists>y \<in> set (pt_orders B). o_id y = req_order_id req)"
proof (cases rule: pt_process_cases [of B req])
  case 1
  then show ?thesis using assms by auto
next
  case 3
  then show ?thesis using assms by (auto simp: pt_orders_def pt_cancelOrder_def)
next
  case (4 y)
  then show ?thesis using pt_find_None [of B "req_order_id req"] by auto
qed simp

lemma word_less_Suc:
  assumes "n \<noteq> - 1"
  shows "(n :: OrderId) < n + 1" and "i < n \<Longrightarrow> i < n + 1"
proof -
  have "1 + n \<noteq> 0" using assms by (simp add: add_eq_0_iff)
  from unatSuc [OF this] have "unat (n + 1) = Suc (unat n)" by (simp add: add.commute)
  then show "n < n + 1" "i < n \<Longrightarrow> i < n + 1" by (simp_all add: word_less_nat_alt)
qed

lemma ids_below_execute:
  assumes "ids_below nid B" and "pt_execute B nid msg = (B', nid', ms)" and "nid \<noteq> - 1"
  shows "ids_below nid' B'"
  unfolding ids_below_def
proof
  fix x assume x: "x \<in> set (pt_orders B')"
  let ?req = "request_of (assigned_id nid msg) msg"
  have B': "B' = fst (pt_process B ?req)" and n: "nid' = bump_id nid msg"
    using assms(2) by (auto simp: pt_execute_def Let_def split: prod.splits)
  have id: "req_order_id ?req = assigned_id nid msg" "req_message_type ?req = im_message_type msg"
    by (simp_all add: request_of_def)
  have le: "i < nid' " if "i < nid" for i using that word_less_Suc(2) [OF assms(3) that] by (simp add: n bump_id_def)
  show "o_id x < nid'"
  proof (cases "o_id x = assigned_id nid msg")
    case True
    show ?thesis
    proof (cases "im_message_type msg = NEW")
      case new: True
      have "nid < nid + 1" using assms(3) by (rule word_less_Suc)
      with True new show ?thesis by (simp add: n assigned_id_def bump_id_def)
    next
      case False
      then obtain y where "y \<in> set (pt_orders B)" "o_id y = o_id x"
        using pt_process_new_ids [of x B ?req] x True unfolding B' id by auto
      then have "o_id x < nid" using assms(1) by (auto simp: ids_below_def)
      then show ?thesis by (rule le)
    qed
  next
    case False
    then have "o_id x \<in> o_id ` set (pt_orders B)"
      using no_overtaking_ids [OF pt_process_order [of ?req B], of x] x unfolding B' id by simp
    then have "o_id x < nid" using assms(1) by (auto simp: ids_below_def)
    then show ?thesis by (rule le)
  qed
qed

text \<open>A batch of messages, and the reading of the ring by \<^verbatim>\<open>step()\<close>.\<close>

lemma engine_step_executes:
  assumes "engine_as e B nid" and "ring_inv (in_ring e)" and "\<forall>msg \<in> set (ring_contents (in_ring e)). msg_ok msg"
    and "pt_execute_all B nid (ring_contents (in_ring e)) = (B', nid', ms)"
    and "length (ring_contents (in_ring e)) < n"
  shows "\<exists>e'. engine_step n e = ok e' \<and> engine_as e' B' nid' \<and> ring_contents (in_ring e') = []
     \<and> out_ring (book e') = ring_push_all (out_ring (book e)) ms"
  using assms
proof (induction n arbitrary: e B nid ms)
  case (Suc n)
  note I = Suc.prems(2)
  show ?case
  proof (cases "ring_contents (in_ring e)")
    case Nil
    then have "ring_pop (in_ring e) = (None, in_ring e)" using ring.pop_empty [OF I] by blast
    with Nil Suc.prems show ?thesis by simp
  next
    case (Cons msg msgs)
    obtain r where r: "ring_pop (in_ring e) = (Some msg, r)" "ring_contents r = msgs" "ring_inv r"
      using ring.pop_front [OF I Cons] ring.inv_pop [OF I] by (metis prod.collapse)
    obtain B1 n1 ms1 where x: "pt_execute B nid msg = (B1, n1, ms1)" by (metis prod.exhaust)
    obtain ms2 where y: "pt_execute_all B1 n1 msgs = (B', nid', ms2)" "ms = ms1 @ ms2"
      using Suc.prems(4) Cons x by (auto split: prod.splits)
    have "engine_as (e\<lparr>in_ring := r\<rparr>) B nid" using Suc.prems(1) by (simp add: engine_as_def)
    from executeRequest_simulates [OF this _ x] Suc.prems(3) Cons
    obtain e1 where e1: "executeRequest (e\<lparr>in_ring := r\<rparr>) msg = ok e1" "engine_as e1 B1 n1" "in_ring e1 = r"
      "out_ring (book e1) = ring_push_all (out_ring (book e)) ms1" by auto
    have "\<exists>e'. engine_step n e1 = ok e' \<and> engine_as e' B' nid' \<and> ring_contents (in_ring e') = []
       \<and> out_ring (book e') = ring_push_all (out_ring (book e1)) ms2"
      by (rule Suc.IH [OF e1(2)]) (use e1(3) r y(1) Suc.prems(3,5) Cons in auto)
    with e1 y(2) r(1) show ?thesis by auto
  qed
qed simp

section \<open>The matching thread\<close>

text \<open>
  \<^verbatim>\<open>handleMatching\<close> between two accesses to the inbound ring: at the loop head, about to look
  for the next request, about to execute the current one, or stopped.
\<close>

datatype pc = Loop_Head | Fetch_Next | Run_Current bool | Stopped

record Matching =
  engine :: Engine
  cur :: InboundMessage
  nxt :: InboundMessage
  have_cur :: bool
  pc_at :: pc

definition Matching_new :: "Engine \<Rightarrow> Matching" where
  "Matching_new e = \<lparr>engine = e, cur = InboundMessage_zero, nxt = InboundMessage_zero, have_cur = False, pc_at = Loop_Head\<rparr>"

definition set_in_ring :: "InboundMessage RingBuffer \<Rightarrow> Matching \<Rightarrow> Matching" where
  "set_in_ring r m = m\<lparr>engine := (engine m)\<lparr>in_ring := r\<rparr>\<rparr>"

text \<open>One step of the thread from each program point; \<open>stop\<close> is what it reads from the flag.\<close>

definition loop_head :: "bool \<Rightarrow> Matching \<Rightarrow> Matching" where
  "loop_head stop m =
     (if stop then m\<lparr>pc_at := Stopped\<rparr>
      else if have_cur m then m\<lparr>pc_at := Fetch_Next\<rparr>
      else case ring_pop (in_ring (engine m)) of
             (None, r) \<Rightarrow> set_in_ring r m
           | (Some msg, r) \<Rightarrow> (set_in_ring r m)\<lparr>cur := msg, have_cur := True, pc_at := Fetch_Next\<rparr>)"

definition fetch_next :: "Matching \<Rightarrow> Matching" where
  "fetch_next m =
     (case ring_pop (in_ring (engine m)) of
        (None, r) \<Rightarrow> (set_in_ring r m)\<lparr>pc_at := Run_Current False\<rparr>
      | (Some msg, r) \<Rightarrow> (set_in_ring r m)\<lparr>nxt := msg, pc_at := Run_Current True\<rparr>)"

definition run_current :: "bool \<Rightarrow> Matching \<Rightarrow> Matching res" where
  "run_current have_next m =
     rbind (executeRequest (engine m) (cur m)) (\<lambda>e.
       ok (if have_next then m\<lparr>engine := e, cur := nxt m, have_cur := True, pc_at := Loop_Head\<rparr>
           else m\<lparr>engine := e, have_cur := False, pc_at := Loop_Head\<rparr>))"

text \<open>
  A run of the matching thread beside the gateway: \<open>acc\<close> are the messages the inbound ring
  accepted so far, \<open>exe\<close> the requests executed so far, both in order.
\<close>

inductive matching_run :: "Matching \<Rightarrow> InboundMessage list \<Rightarrow> InboundMessage list \<Rightarrow> Matching \<Rightarrow> bool"
  for m0 :: Matching where
  start: "matching_run m0 [] [] m0"
| gateway: "matching_run m0 acc exe m \<Longrightarrow> ring_push (in_ring (engine m)) msg = (ok', r) \<Longrightarrow>
    matching_run m0 (if ok' then acc @ [msg] else acc) exe (set_in_ring r m)"
| head: "matching_run m0 acc exe m \<Longrightarrow> pc_at m = Loop_Head \<Longrightarrow>
    matching_run m0 acc exe (loop_head stop m)"
| fetch: "matching_run m0 acc exe m \<Longrightarrow> pc_at m = Fetch_Next \<Longrightarrow>
    matching_run m0 acc exe (fetch_next m)"
| run: "matching_run m0 acc exe m \<Longrightarrow> pc_at m = Run_Current hn \<Longrightarrow> run_current hn m = ok m' \<Longrightarrow>
    matching_run m0 acc (exe @ [cur m]) m'"

text \<open>What the thread holds back: the requests it popped and has not executed.\<close>

definition held :: "Matching \<Rightarrow> InboundMessage list" where
  "held m = (if have_cur m then [cur m] else []) @ (if pc_at m = Run_Current True then [nxt m] else [])"

definition matching_inv :: "Matching \<Rightarrow> bool" where
  "matching_inv m \<longleftrightarrow> ring_inv (in_ring (engine m))
     \<and> (pc_at m = Fetch_Next \<or> (\<exists>hn. pc_at m = Run_Current hn) \<longrightarrow> have_cur m)"

lemma set_in_ring_sel [simp]:
  "in_ring (engine (set_in_ring r m)) = r" "book (engine (set_in_ring r m)) = book (engine m)"
  "next_id (engine (set_in_ring r m)) = next_id (engine m)" "cur (set_in_ring r m) = cur m"
  "nxt (set_in_ring r m) = nxt m" "have_cur (set_in_ring r m) = have_cur m" "pc_at (set_in_ring r m) = pc_at m"
  by (simp_all add: set_in_ring_def)

lemma set_in_ring_upd [simp]:
  "held ((set_in_ring r m)) = held m"
  by (simp add: held_def)

lemma ring_pop_cases:
  assumes "ring_inv r"
  obtains "ring_pop r = (None, r)" "ring_contents r = []"
  | x r' where "ring_pop r = (Some x, r')" "ring_contents r = x # ring_contents r'" "ring_inv r'"
proof (cases "ring_contents r")
  case Nil
  then show thesis using that(1) ring.pop_empty [OF assms] by blast
next
  case (Cons x xs)
  then show thesis using that(2) [of x "snd (ring_pop r)"] ring.pop_front [OF assms Cons] ring.inv_pop [OF assms]
    by (metis prod.collapse)
qed

lemma executeRequest_in_ring: "executeRequest e msg = ok e' \<Longrightarrow> in_ring e' = in_ring e"
  by (auto simp: executeRequest_def Let_def rbind_ok_iff split: prod.splits)

text \<open>Nothing is lost, duplicated or reordered between the ring and the book.\<close>

lemma matching_fifo:
  assumes "matching_run m0 acc exe m" and "matching_inv m0" and "pc_at m0 = Loop_Head"
  shows "matching_inv m \<and> held m0 @ ring_contents (in_ring (engine m0)) @ acc
     = exe @ held m @ ring_contents (in_ring (engine m))"
  using assms(1)
proof induction
  case start
  then show ?case using assms by simp
next
  case (gateway acc exe m msg ok' r)
  then have I: "ring_inv (in_ring (engine m))" by (simp add: matching_inv_def)
  have "ring_inv r" using ring.inv_push [OF I, of msg] gateway by simp
  moreover have "ring_contents r = ring_contents (in_ring (engine m)) @ (if ok' then [msg] else [])"
    using ring.push_room [OF I, of msg] ring.push_full [OF I, of msg] gateway(2)
    by (cases "length (ring_contents (in_ring (engine m))) < ring_cap (in_ring (engine m))") auto
  ultimately show ?case using gateway by (auto simp: matching_inv_def)
next
  case (head acc exe m stop)
  then have I: "ring_inv (in_ring (engine m))" by (simp add: matching_inv_def)
  from head show ?case
    by (cases rule: ring_pop_cases [OF I]) (auto simp: loop_head_def matching_inv_def held_def)
next
  case (fetch acc exe m)
  then have I: "ring_inv (in_ring (engine m))" by (simp add: matching_inv_def)
  from fetch show ?case
    by (cases rule: ring_pop_cases [OF I]) (auto simp: fetch_next_def matching_inv_def held_def)
next
  case (run acc exe m hn m')
  obtain e where e: "executeRequest (engine m) (cur m) = ok e" "m' = (if hn then m\<lparr>engine := e, cur := nxt m, have_cur := True, pc_at := Loop_Head\<rparr>
           else m\<lparr>engine := e, have_cur := False, pc_at := Loop_Head\<rparr>)"
    using run(3) by (auto simp: run_current_def rbind_ok_iff)
  with run executeRequest_in_ring [OF e(1)] show ?case
    by (cases hn) (auto simp: matching_inv_def held_def)
qed

lemma pt_execute_all_snoc:
  "pt_execute_all B nid (msgs @ [msg]) =
     (case pt_execute_all B nid msgs of (B1, n1, ms1) \<Rightarrow>
        case pt_execute B1 n1 msg of (B2, n2, ms2) \<Rightarrow> (B2, n2, ms1 @ ms2))"
  by (induction msgs arbitrary: B nid) (auto split: prod.splits)

text \<open>The engine's state and output are those of executing the requests one by one.\<close>

lemma matching_refines:
  assumes "matching_run m0 acc exe m" and "engine_as (engine m0) B nid" and "\<forall>msg \<in> set exe. msg_ok msg"
    and "pt_execute_all B nid exe = (B', nid', ms)"
  shows "engine_as (engine m) B' nid' \<and> out_ring (book (engine m)) = ring_push_all (out_ring (book (engine m0))) ms"
  using assms(1,3,4)
proof (induction arbitrary: B' nid' ms)
  case start
  then show ?case using assms(2) by simp
next
  case (gateway acc exe m msg ok' r)
  then show ?case by (simp add: engine_as_def)
next
  case (head acc exe m stop)
  then show ?case by (auto simp: loop_head_def engine_as_def split: prod.splits option.splits)
next
  case (fetch acc exe m)
  then show ?case by (auto simp: fetch_next_def engine_as_def split: prod.splits option.splits)
next
  case (run acc exe m hn m')
  obtain B1 n1 ms1 where p: "pt_execute_all B nid exe = (B1, n1, ms1)" by (metis prod.exhaust)
  obtain ms2 where q: "pt_execute B1 n1 (cur m) = (B', nid', ms2)" "ms = ms1 @ ms2"
    using run.prems(2) p by (auto simp: pt_execute_all_snoc split: prod.splits)
  have IH: "engine_as (engine m) B1 n1" "out_ring (book (engine m)) = ring_push_all (out_ring (book (engine m0))) ms1"
    using run.IH [OF _ p] run.prems(1) by auto
  from executeRequest_simulates [OF IH(1) _ q(1)] run.prems(1)
  obtain e where e: "executeRequest (engine m) (cur m) = ok e" "engine_as e B' nid'"
    "out_ring (book e) = ring_push_all (out_ring (book (engine m))) ms2" by auto
  have "engine m' = e" using run.hyps e(1) by (auto simp: run_current_def split: if_splits)
  with e IH(2) q(2) show ?case by simp
qed

text \<open>The thread can always execute the request it holds.\<close>

lemma run_current_ok:
  assumes "engine_as (engine m) B nid" and "msg_ok (cur m)"
  shows "\<exists>m'. run_current hn m = ok m'"
proof -
  obtain B' nid' ms where "pt_execute B nid (cur m) = (B', nid', ms)" by (metis prod.exhaust)
  from executeRequest_simulates [OF assms this] show ?thesis by (auto simp: run_current_def)
qed

text \<open>The prefetch hint for a NEW request: the level it touches, if any.\<close>

definition prefetch :: "InboundMessage \<Rightarrow> (book_side \<times> 32 word) option" where
  "prefetch nx =
     (if im_message_type nx = NEW
      then if im_price nx < MIN_PRICE \<or> MAX_PRICE < im_price nx then None
           else Some (if im_side nx = BID then Bids else Asks, im_price nx - MIN_PRICE)
      else None)"

lemma Engine_new_as: "engine_as (Engine_new n inr outr) \<lparr>pt_bids = [], pt_asks = [], pt_cap = n\<rparr> 0"
  by (simp add: engine_as_def Engine_new_def Orderbook_new_refines)

lemma pt_execute_all_ids:
  "ids_below nid B \<Longrightarrow> unat nid + length msgs < 2 ^ 64 \<Longrightarrow> pt_execute_all B nid msgs = (B', nid', ms) \<Longrightarrow>
   ids_below nid' B' \<and> unat nid' \<le> unat nid + length msgs"
proof (induction msgs arbitrary: B nid B' nid' ms)
  case (Cons msg msgs)
  obtain B1 n1 ms1 where x: "pt_execute B nid msg = (B1, n1, ms1)" by (metis prod.exhaust)
  then obtain ms2 where y: "pt_execute_all B1 n1 msgs = (B', nid', ms2)" using Cons.prems(3) by (auto split: prod.splits)
  have "unat nid < 2 ^ 64 - 1" using Cons.prems(2) by simp
  moreover have "unat (- 1 :: OrderId) = 2 ^ 64 - 1" by (simp add: unsigned_minus_1_eq_mask mask_eq_exp_minus_1)
  ultimately have n: "nid \<noteq> - 1" by auto
  have "n1 = bump_id nid msg" using x by (auto simp: pt_execute_def Let_def split: prod.splits)
  moreover have "unat (nid + 1) = Suc (unat nid)"
    using n unatSuc [of nid] by (simp add: add.commute add_eq_0_iff)
  ultimately have "unat n1 \<le> Suc (unat nid)" by (simp add: bump_id_def)
  with Cons.IH [OF ids_below_execute [OF Cons.prems(1) x n] _ y] Cons.prems(2) show ?case by simp
qed simp

end
