(* ===== verification/Book_Observers.thy ===== *)
theory Book_Observers
  imports Orderbook_Refine Engine
begin

text \<open>
  What the tests look at: the accessors that \<^verbatim>\<open>orderbook.hpp\<close>, \<^verbatim>\<open>price_level_queue.hpp\<close> and \<^verbatim>\<open>engine.hpp\<close> add in a
  \<^verbatim>\<open>TESTING\<close> build. They read counters and links of the representation; each is shown to tell the truth about
  the abstract book.
\<close>

definition order_count :: "Orderbook \<Rightarrow> size_t" where
  "order_count b = of_nat (card (dom (orders b)))"

definition bid_level_count :: "Orderbook \<Rightarrow> size_t" where
  "bid_level_count b = non_empty_bid_levels b"

definition ask_level_count :: "Orderbook \<Rightarrow> size_t" where
  "ask_level_count b = non_empty_ask_levels b"

definition bids_at :: "Orderbook \<Rightarrow> Price \<Rightarrow> size_t res" where
  "bids_at b p = rbind (level_get (bids b) p) (\<lambda>q. ok (plq_size q))"

definition asks_at :: "Orderbook \<Rightarrow> Price \<Rightarrow> size_t res" where
  "asks_at b p = rbind (level_get (asks b) p) (\<lambda>q. ok (plq_size q))"

definition has_order :: "Orderbook \<Rightarrow> OrderId \<Rightarrow> bool" where
  "has_order b oid \<longleftrightarrow> orders b oid \<noteq> None"

definition next_order_id :: "Engine \<Rightarrow> OrderId" where
  "next_order_id e = next_id e"

text \<open>The engine hands the questions on to its book; \<^verbatim>\<open>pop_outbound\<close> takes the oldest message off the shared ring.\<close>

definition engine_order_count :: "Engine \<Rightarrow> size_t" where
  "engine_order_count e = order_count (book e)"

definition engine_bid_level_count :: "Engine \<Rightarrow> size_t" where
  "engine_bid_level_count e = bid_level_count (book e)"

definition engine_ask_level_count :: "Engine \<Rightarrow> size_t" where
  "engine_ask_level_count e = ask_level_count (book e)"

definition engine_bids_at :: "Engine \<Rightarrow> Price \<Rightarrow> size_t res" where
  "engine_bids_at e p = bids_at (book e) p"

definition engine_asks_at :: "Engine \<Rightarrow> Price \<Rightarrow> size_t res" where
  "engine_asks_at e p = asks_at (book e) p"

definition engine_has_order :: "Engine \<Rightarrow> OrderId \<Rightarrow> bool" where
  "engine_has_order e oid \<longleftrightarrow> has_order (book e) oid"

definition engine_pop_outbound :: "Engine \<Rightarrow> OutboundMessage option \<times> Engine" where
  "engine_pop_outbound e =
     (case ring_pop (out_ring (book e)) of (m, r) \<Rightarrow> (m, e\<lparr>book := (book e)\<lparr>out_ring := r\<rparr>\<rparr>))"

section \<open>Against the abstract book\<close>

lemma level_orders:
  assumes "book_rep b sl" and "valid_price p"
  shows "filter (\<lambda>o'. o_price o' = p) (map (pay b) (slots sl s)) = map (pay b) (sl s p)"
proof -
  have i: "o_price (pay b x) = q" if "x \<in> set (sl s q)" for x q using assms(1) that by (auto simp: book_rep_def index_rep_def)
  have f: "filter (\<lambda>x. o_price (pay b x) = p) (sl s q) = (if q = p then sl s p else [])" for q
    using i [of _ q] by (auto simp: filter_id_conv filter_empty_conv)
  have "filter (\<lambda>x. o_price (pay b x) = p) (concat (map (sl s) ps)) = concat (map (\<lambda>q. if q = p then sl s p else []) ps)" for ps
    by (induction ps) (simp_all add: f)
  moreover have "concat (map (\<lambda>q. if q = p then sl s p else []) ps) = (if p \<in> set ps then sl s p else [])" if "distinct ps" for ps
    using that by (induction ps) auto
  ultimately have "filter (\<lambda>x. o_price (pay b x) = p) (slots sl s) = sl s p"
    using distinct_ladder [of s] assms(2) by (simp add: slots_def)
  then show ?thesis by (simp add: filter_map comp_def)
qed

lemma level_size:
  assumes "book_rep b sl" and "valid_price p"
  shows "rbind (level_get (levels b s) p) (\<lambda>q. ok (plq_size q)) = ok (of_nat (length (sl s p)))"
  using assms by (simp add: book_rep_def links_rep_def plq_rep_def)

lemma index_bij:
  assumes "book_rep b sl"
  shows "bij_betw (\<lambda>x. o_id (pay b x)) (set (slots sl Bids) \<union> set (slots sl Asks)) (dom (orders b))"
proof -
  have L: "links_rep b sl" and I: "index_rep b sl" using assms by (auto simp: book_rep_def)
  have r: "set (slots sl Bids) \<union> set (slots sl Asks) = resting sl"
  proof (intro set_eqI)
    fix x
    have "(\<exists>s p. x \<in> set (sl s p)) \<longleftrightarrow> (\<exists>p. x \<in> set (sl Bids p)) \<or> (\<exists>p. x \<in> set (sl Asks p))" by (metis book_side.exhaust)
    then show "x \<in> set (slots sl Bids) \<union> set (slots sl Asks) \<longleftrightarrow> x \<in> resting sl" using set_slots [OF L] by (simp add: in_resting)
  qed
  have o: "orders b (o_id (pay b x)) = Some x" if "x \<in> resting sl" for x using I that by (auto simp: index_rep_def in_resting)
  moreover have "\<exists>x \<in> resting sl. oid = o_id (pay b x)" if "oid \<in> dom (orders b)" for oid
    using I that unfolding index_rep_def by blast
  ultimately show ?thesis unfolding r by (auto simp: bij_betw_def inj_on_def) (metis option.inject)
qed

lemma order_count_abs:
  assumes "book_rep b sl"
  shows "order_count b = of_nat (length (pt_orders (book_abs b sl)))"
proof -
  have C: "core_rep b sl" using assms by (simp add: book_rep_core)
  have "set (slots sl Bids) \<inter> set (slots sl Asks) = {}"
    using slots_disjoint [of b sl _ Bids _ Asks] set_slots [of b sl] C by (auto simp: core_rep_def)
  then have "card (set (slots sl Bids) \<union> set (slots sl Asks)) = length (slots sl Bids) + length (slots sl Asks)"
    using distinct_slots [OF C] by (simp add: card_Un_disjoint distinct_card)
  then show ?thesis using bij_betw_same_card [OF index_bij [OF assms]] by (simp add: order_count_def pt_orders_def)
qed

lemma level_count_abs:
  assumes "book_rep b sl"
  shows "non_empty b s = of_nat (card (o_price ` set (pt_side (book_abs b sl) s)))"
proof -
  have L: "links_rep b sl" and I: "index_rep b sl" using assms by (auto simp: book_rep_def)
  have p: "o_price (pay b x) = q" if "x \<in> set (sl s q)" for x q using I that by (auto simp: index_rep_def)
  have "{q. sl s q \<noteq> []} = o_price ` set (pt_side (book_abs b sl) s)"
  proof (intro set_eqI iffI)
    fix q assume "q \<in> {q. sl s q \<noteq> []}"
    then obtain x where "x \<in> set (sl s q)" by (cases "sl s q") auto
    then show "q \<in> o_price ` set (pt_side (book_abs b sl) s)" using p set_slots [OF L, of x s] by (force simp: image_iff)
  next
    fix q assume "q \<in> o_price ` set (pt_side (book_abs b sl) s)"
    then show "q \<in> {q. sl s q \<noteq> []}" using p set_slots [OF L, of _ s] by (auto simp: image_iff)
  qed
  moreover have "non_empty b s = of_nat (card {q. sl s q \<noteq> []})" using assms by (simp add: book_rep_def price_rep_def)
  ultimately show ?thesis by simp
qed

text \<open>Counts, levels and membership as the tests see them are those of the abstract book.\<close>

theorem observers_exact:
  assumes "refines b B" and "valid_price p"
  shows "order_count b = of_nat (length (pt_orders B))"
    and "bid_level_count b = of_nat (card (o_price ` set (pt_bids B)))" "ask_level_count b = of_nat (card (o_price ` set (pt_asks B)))"
    and "bids_at b p = ok (of_nat (length (filter (\<lambda>o'. o_price o' = p) (pt_bids B))))"
    and "asks_at b p = ok (of_nat (length (filter (\<lambda>o'. o_price o' = p) (pt_asks B))))"
    and "has_order b oid \<longleftrightarrow> oid \<in> o_id ` set (pt_orders B)"
proof -
  obtain sl where R: "book_rep b sl" and B: "B = book_abs b sl" using assms(1) by (auto simp: refines_def)
  show "order_count b = of_nat (length (pt_orders B))" using order_count_abs [OF R] B by simp
  show "bid_level_count b = of_nat (card (o_price ` set (pt_bids B)))" "ask_level_count b = of_nat (card (o_price ` set (pt_asks B)))"
    using level_count_abs [OF R, of Bids] level_count_abs [OF R, of Asks] B by (simp_all add: bid_level_count_def ask_level_count_def)
  show "bids_at b p = ok (of_nat (length (filter (\<lambda>o'. o_price o' = p) (pt_bids B))))"
    "asks_at b p = ok (of_nat (length (filter (\<lambda>o'. o_price o' = p) (pt_asks B))))"
    using level_size [OF R assms(2), of Bids] level_size [OF R assms(2), of Asks] level_orders [OF R assms(2)]
    unfolding B by (simp_all add: bids_at_def asks_at_def)
  have "set (pt_orders B) = pay b ` (set (slots sl Bids) \<union> set (slots sl Asks))" by (auto simp: B pt_orders_def)
  then show "has_order b oid \<longleftrightarrow> oid \<in> o_id ` set (pt_orders B)"
    using bij_betw_imp_surj_on [OF index_bij [OF R]] by (auto simp: has_order_def image_image)
qed

text \<open>
  A test that executes one message on an engine whose outbound ring is empty and has room, and then pops once,
  sees the first reply of the abstract engine, or nothing when there is no reply; and what it reads off the
  engine is the abstract state.
\<close>

theorem engine_observed:
  assumes "engine_as e B nid" and "msg_ok msg" and "pt_execute B nid msg = (B', nid', ms)"
    and "ring_inv (out_ring (book e))" and "ring_contents (out_ring (book e)) = []" and "0 < ring_cap (out_ring (book e))"
  shows "\<exists>e'. executeRequest e msg = ok e' \<and> next_order_id e' = nid'
     \<and> engine_order_count e' = of_nat (length (pt_orders B'))
     \<and> (engine_has_order e' oid \<longleftrightarrow> oid \<in> o_id ` set (pt_orders B'))
     \<and> fst (engine_pop_outbound e') = (case ms of [] \<Rightarrow> None | m # _ \<Rightarrow> Some m)"
proof -
  let ?r = "out_ring (book e)"
  obtain e' where x: "executeRequest e msg = ok e'" "engine_as e' B' nid'" "out_ring (book e') = ring_push_all ?r ms"
    using executeRequest_simulates [OF assms(1-3)] by blast
  have R: "refines (book e') B'" "next_id e' = nid'" using x(2) by (simp_all add: engine_as_def)
  have r: "ring_inv (out_ring (book e'))" "ring_contents (out_ring (book e')) = take (ring_cap ?r) ms"
    using ring.inv_push_all [OF assms(4), of ms] ring.contents_push_all [OF assms(4), of ms] assms(5) x(3)
    by (simp_all add: ring_push_all_def)
  have "fst (ring_pop (out_ring (book e'))) = (case ms of [] \<Rightarrow> None | m # _ \<Rightarrow> Some m)"
    using ring.pop_empty [OF r(1)] ring.pop_front [OF r(1)] r(2) assms(6) by (cases ms; cases "ring_cap ?r") auto
  then show ?thesis using x(1) R observers_exact(1) [OF R(1) valid_MIN_MAX(1)] observers_exact(6) [OF R(1) valid_MIN_MAX(1), of oid]
    by (simp add: next_order_id_def engine_order_count_def engine_has_order_def engine_pop_outbound_def case_prod_beta)
qed

end
