(* ===== verification/Buffer.thy ===== *)
theory Buffer
  imports Exchange_Prelude
begin

text \<open>
  \<^verbatim>\<open>infra/buffer.hpp\<close>: the fixed-capacity byte buffer of a connection. The template parameter
  \<^verbatim>\<open>N\<close> is the length of \<open>buf_data\<close>. The offsets never exceed \<^verbatim>\<open>N\<close> (the invariants below), so the
  unsigned subtractions of the source do not wrap and the offsets are natural numbers.

  \<^verbatim>\<open>recv\<close> and \<^verbatim>\<open>send\<close> are calls into the kernel: their result is an argument. What the code relies
  on is that \<^verbatim>\<open>recv\<close> delivers at most the bytes asked for and \<^verbatim>\<open>send\<close> takes at most the bytes
  offered.
\<close>

section \<open>System call results\<close>

datatype errno = EAGAIN | EOTHER

datatype recv_result =
    Received "byte list"   \<comment> \<open>a positive return value, with the bytes written to memory\<close>
  | Recv_EOF               \<comment> \<open>return value 0, \<open>errno\<close> untouched\<close>
  | Recv_Failed errno      \<comment> \<open>return value -1, \<open>errno\<close> set\<close>

datatype send_result = Sent nat | Send_Failed errno

text \<open>The answers of \<^verbatim>\<open>epoll_wait\<close>: events, \<^verbatim>\<open>EINTR\<close>, or another error.\<close>

datatype 'e wait_result = Events "'e list" | Interrupted | Wait_Failed

definition recv_ok :: "nat \<Rightarrow> recv_result \<Rightarrow> bool" where
  "recv_ok n r \<longleftrightarrow> (case r of Received bs \<Rightarrow> bs \<noteq> [] \<and> length bs \<le> n | _ \<Rightarrow> True)"

definition send_ok :: "nat \<Rightarrow> send_result \<Rightarrow> bool" where
  "send_ok n r \<longleftrightarrow> (case r of Sent k \<Rightarrow> 0 < k \<and> k \<le> n | _ \<Rightarrow> True)"

section \<open>The class\<close>

record Buffer =
  buf_data :: "byte list"
  buf_len :: nat
  bytes_written :: nat
  read_off :: nat

definition Buffer_new :: "nat \<Rightarrow> Buffer" where
  "Buffer_new N = \<lparr>buf_data = replicate N 0, buf_len = 0, bytes_written = 0, read_off = 0\<rparr>"

abbreviation capacity :: "Buffer \<Rightarrow> nat" where
  "capacity b \<equiv> length (buf_data b)"

text \<open>Writing bytes at an offset, as \<^verbatim>\<open>memcpy\<close> and \<^verbatim>\<open>memmove\<close> do.\<close>

definition overwrite :: "byte list \<Rightarrow> nat \<Rightarrow> byte list \<Rightarrow> byte list" where
  "overwrite d off bs = take off d @ bs @ drop (off + length bs) d"

definition buf_length :: "Buffer \<Rightarrow> nat" where
  "buf_length b = buf_len b - read_off b"

definition remaining_capacity :: "Buffer \<Rightarrow> nat" where
  "remaining_capacity b = capacity b - buf_len b"

definition buf_view :: "Buffer \<Rightarrow> byte list" where
  "buf_view b = take (buf_len b - read_off b) (drop (read_off b) (buf_data b))"

definition buf_compact :: "Buffer \<Rightarrow> Buffer" where
  "buf_compact b =
     (if 0 < read_off b \<and> buf_len b = capacity b
      then let remaining = buf_len b - read_off b
           in b\<lparr>buf_data := if 0 < remaining
                             then overwrite (buf_data b) 0 (take remaining (drop (read_off b) (buf_data b)))
                             else buf_data b,
                buf_len := remaining, read_off := 0\<rparr>
      else b)"

definition read_from :: "recv_result \<Rightarrow> Buffer \<Rightarrow> int \<times> Buffer" where
  "read_from r b =
     (let b1 = buf_compact b
      in case r of
           Received bs \<Rightarrow> (int (length bs),
             b1\<lparr>buf_data := overwrite (buf_data b1) (buf_len b1) bs, buf_len := buf_len b1 + length bs\<rparr>)
         | Recv_EOF \<Rightarrow> (0, b1)
         | Recv_Failed _ \<Rightarrow> (- 1, b1))"

definition advance :: "nat \<Rightarrow> Buffer \<Rightarrow> Buffer" where
  "advance n b =
     (let b1 = b\<lparr>read_off := read_off b + n\<rparr>
      in if buf_len b1 \<le> read_off b1 then b1\<lparr>read_off := 0, buf_len := 0\<rparr> else b1)"

definition remaining_to_send :: "Buffer \<Rightarrow> nat" where
  "remaining_to_send b = buf_len b - bytes_written b"

definition has_room :: "nat \<Rightarrow> Buffer \<Rightarrow> bool" where
  "has_room n b \<longleftrightarrow> buf_len b + n \<le> capacity b"

definition buf_append :: "byte list \<Rightarrow> Buffer \<Rightarrow> bool \<times> Buffer" where
  "buf_append src b =
     (if \<not> has_room (length src) b then (False, b)
      else (True, b\<lparr>buf_data := overwrite (buf_data b) (buf_len b) src, buf_len := buf_len b + length src\<rparr>))"

definition write_to :: "send_result \<Rightarrow> Buffer \<Rightarrow> int \<times> Buffer" where
  "write_to r b =
     (case r of Sent n \<Rightarrow> (int n, b\<lparr>bytes_written := bytes_written b + n\<rparr>)
      | Send_Failed _ \<Rightarrow> (- 1, b))"

definition try_reset :: "Buffer \<Rightarrow> Buffer" where
  "try_reset b = (if bytes_written b = buf_len b then b\<lparr>buf_len := 0, bytes_written := 0\<rparr> else b)"

definition buf_clear :: "Buffer \<Rightarrow> Buffer" where
  "buf_clear b = b\<lparr>buf_len := 0, bytes_written := 0, read_off := 0\<rparr>"

section \<open>Byte queues\<close>

text \<open>
  Both uses of a buffer, reading and writing, are queues of bytes: what is put in comes out, in
  order and without gaps, however the transfers are cut into pieces.
\<close>

datatype transfer = Put "byte list" | Get nat

fun transfers ::
  "('b \<Rightarrow> byte list) \<Rightarrow> ('b \<Rightarrow> nat) \<Rightarrow> (byte list \<Rightarrow> 'b \<Rightarrow> 'b) \<Rightarrow> (nat \<Rightarrow> 'b \<Rightarrow> 'b) \<Rightarrow>
   transfer list \<Rightarrow> 'b \<Rightarrow> byte list \<times> byte list \<times> 'b" where
  "transfers contents room put get [] b = ([], [], b)"
| "transfers contents room put get (Put bs # ts) b =
     (if length bs \<le> room b
      then case transfers contents room put get ts (put bs b) of (i, out, b') \<Rightarrow> (bs @ i, out, b')
      else transfers contents room put get ts b)"
| "transfers contents room put get (Get n # ts) b =
     (if n \<le> length (contents b)
      then case transfers contents room put get ts (get n b) of (i, out, b') \<Rightarrow> (i, take n (contents b) @ out, b')
      else transfers contents room put get ts b)"

locale byte_queue =
  fixes contents :: "'b \<Rightarrow> byte list"
    and room :: "'b \<Rightarrow> nat"
    and put :: "byte list \<Rightarrow> 'b \<Rightarrow> 'b"
    and get :: "nat \<Rightarrow> 'b \<Rightarrow> 'b"
    and inv :: "'b \<Rightarrow> bool"
  assumes put_law: "inv b \<Longrightarrow> length bs \<le> room b \<Longrightarrow> inv (put bs b) \<and> contents (put bs b) = contents b @ bs"
    and get_law: "inv b \<Longrightarrow> n \<le> length (contents b) \<Longrightarrow> inv (get n b) \<and> contents (get n b) = drop n (contents b)"
begin

lemma stream:
  assumes "inv b" and "transfers contents room put get ts b = (i, out, b')"
  shows "inv b' \<and> contents b @ i = out @ contents b'"
  using assms
proof (induction ts arbitrary: b i out b')
  case (Cons t ts)
  show ?case
  proof (cases t)
    case (Put bs)
    then show ?thesis using Cons.prems Cons.IH put_law [OF Cons.prems(1), of bs]
      by (cases "length bs \<le> room b") (fastforce split: prod.splits)+
  next
    case (Get n)
    show ?thesis
    proof (cases "n \<le> length (contents b)")
      case True
      obtain out1 where o: "transfers contents room put get ts (get n b) = (i, out1, b')" "out = take n (contents b) @ out1"
        using Cons.prems(2) Get True by (auto split: prod.splits)
      from get_law [OF Cons.prems(1) True] Cons.IH [OF _ o(1)]
      have "inv b' \<and> drop n (contents b) @ i = out1 @ contents b'" by simp
      then show ?thesis unfolding o(2) by (metis append.assoc append_take_drop_id)
    next
      case False
      then show ?thesis using Cons Get by simp
    qed
  qed
qed simp

end

section \<open>The read path\<close>

definition read_inv :: "Buffer \<Rightarrow> bool" where
  "read_inv b \<longleftrightarrow> read_off b \<le> buf_len b \<and> buf_len b \<le> capacity b"

text \<open>The bytes a \<^verbatim>\<open>read_from\<close> can take: the whole buffer once the consumed front is compacted away.\<close>

definition read_room :: "Buffer \<Rightarrow> nat" where
  "read_room b = remaining_capacity (buf_compact b)"

lemma overwrite_simps:
  assumes "off + length bs \<le> length d"
  shows "length (overwrite d off bs) = length d" and "take off (overwrite d off bs) = take off d"
    and "take (length bs) (drop off (overwrite d off bs)) = bs"
  using assms by (simp_all add: overwrite_def)

lemma overwrite_prefix:
  assumes "off + length bs \<le> length d"
  shows "take (off + length bs) (overwrite d off bs) = take off d @ bs"
  using assms by (simp add: overwrite_def)

lemma compact_view:
  assumes "read_inv b"
  shows "read_inv (buf_compact b)" "buf_view (buf_compact b) = buf_view b" "capacity (buf_compact b) = capacity b"
  using assms by (auto simp: buf_compact_def read_inv_def buf_view_def overwrite_def Let_def)

lemma view_take: "buf_view b = drop (read_off b) (take (buf_len b) (buf_data b))"
  by (simp add: buf_view_def drop_take)

lemma read_from_view:
  assumes "read_inv b" and "length bs \<le> read_room b"
  shows "read_inv (snd (read_from (Received bs) b))" and "buf_view (snd (read_from (Received bs) b)) = buf_view b @ bs"
proof -
  let ?b = "buf_compact b"
  have i: "read_inv ?b" using compact_view [OF assms(1)] by blast
  have l: "buf_len ?b + length bs \<le> capacity ?b" using assms(2) i by (auto simp: read_room_def remaining_capacity_def read_inv_def)
  note o = overwrite_simps [OF l] overwrite_prefix [OF l]
  show "read_inv (snd (read_from (Received bs) b))" using i l o(1) by (auto simp: read_from_def read_inv_def Let_def)
  have "buf_view (snd (read_from (Received bs) b)) = drop (read_off ?b) (take (buf_len ?b) (buf_data ?b) @ bs)"
    using o by (simp add: view_take read_from_def Let_def)
  also have "\<dots> = buf_view ?b @ bs" using i by (simp add: view_take read_inv_def)
  finally show "buf_view (snd (read_from (Received bs) b)) = buf_view b @ bs" using compact_view [OF assms(1)] by simp
qed

lemma length_view [simp]: "read_inv b \<Longrightarrow> length (buf_view b) = buf_length b"
  by (auto simp: buf_view_def buf_length_def read_inv_def min_def)

lemma advance_view:
  assumes "read_inv b" and "n \<le> buf_length b"
  shows "read_inv (advance n b)" and "buf_view (advance n b) = drop n (buf_view b)"
  using assms by (auto simp: advance_def read_inv_def view_take buf_length_def Let_def add.commute)

interpretation read_path: byte_queue buf_view read_room "\<lambda>bs b. snd (read_from (Received bs) b)" advance read_inv
  by unfold_locales (simp_all add: read_from_view advance_view)

section \<open>The write path\<close>

definition write_inv :: "Buffer \<Rightarrow> bool" where
  "write_inv b \<longleftrightarrow> bytes_written b \<le> buf_len b \<and> buf_len b \<le> capacity b"

definition unsent :: "Buffer \<Rightarrow> byte list" where
  "unsent b = drop (bytes_written b) (take (buf_len b) (buf_data b))"

lemma length_unsent [simp]: "write_inv b \<Longrightarrow> length (unsent b) = remaining_to_send b"
  by (simp add: unsent_def remaining_to_send_def write_inv_def)

lemma append_unsent:
  assumes "write_inv b" and "length bs \<le> remaining_capacity b"
  shows "write_inv (snd (buf_append bs b))" and "unsent (snd (buf_append bs b)) = unsent b @ bs" and "fst (buf_append bs b)"
proof -
  have l: "buf_len b + length bs \<le> capacity b" using assms by (auto simp: remaining_capacity_def write_inv_def)
  note o = overwrite_simps [OF l] overwrite_prefix [OF l]
  show "write_inv (snd (buf_append bs b))" "unsent (snd (buf_append bs b)) = unsent b @ bs" "fst (buf_append bs b)"
    using assms(1) l o by (auto simp: buf_append_def has_room_def write_inv_def unsent_def)
qed

lemma write_unsent:
  assumes "write_inv b" and "n \<le> remaining_to_send b"
  shows "write_inv (snd (write_to (Sent n) b))" and "unsent (snd (write_to (Sent n) b)) = drop n (unsent b)"
  using assms by (auto simp: write_to_def write_inv_def unsent_def remaining_to_send_def add.commute)

interpretation write_path: byte_queue unsent remaining_capacity "\<lambda>bs b. snd (buf_append bs b)" "\<lambda>n b. snd (write_to (Sent n) b)" write_inv
  by unfold_locales (simp_all add: append_unsent write_unsent)

lemma try_reset_unsent: "write_inv b \<Longrightarrow> write_inv (try_reset b) \<and> unsent (try_reset b) = unsent b"
  by (auto simp: try_reset_def write_inv_def unsent_def)

lemma buffer_sizes [simp]:
  "capacity (Buffer_new N) = N" "read_inv (Buffer_new N)" "write_inv (Buffer_new N)"
  "buf_view (Buffer_new N) = []" "unsent (Buffer_new N) = []"
  by (simp_all add: Buffer_new_def read_inv_def write_inv_def buf_view_def unsent_def)

section \<open>Send loops\<close>

text \<open>How a loop of \<^verbatim>\<open>send\<close> calls ends, and the bytes one call hands to the kernel.\<close>

datatype send_status = Send_Done | Send_Blocked | Send_Fatal

definition kernel_takes :: "send_result \<Rightarrow> Buffer \<Rightarrow> byte list" where
  "kernel_takes r b = (case r of Sent n \<Rightarrow> take n (unsent b) | _ \<Rightarrow> [])"

text \<open>What the kernel promises for the sends of one call.\<close>

fun sends_ok :: "nat \<Rightarrow> send_result list \<Rightarrow> bool" where
  "sends_ok n [] \<longleftrightarrow> True"
| "sends_ok n (Sent k # rs) \<longleftrightarrow> n = 0 \<or> 0 < k \<and> k \<le> n \<and> sends_ok (n - k) rs"
| "sends_ok n (Send_Failed e # rs) \<longleftrightarrow> True"

section \<open>Properties\<close>

text \<open>
  The read side of a connection delivers the byte stream. However \<^verbatim>\<open>recv\<close> cuts the stream and
  whenever the parser consumes, the bytes consumed followed by the bytes still in view are exactly
  the bytes received, compaction included.
\<close>

theorem read_stream_intact:
  assumes "transfers buf_view read_room (\<lambda>bs b. snd (read_from (Received bs) b)) advance ts (Buffer_new N) = (received, consumed, b)"
  shows "received = consumed @ buf_view b \<and> read_inv b"
  using read_path.stream [OF _ assms] by simp

theorem read_stream_intact_witness:
  "\<exists>b. transfers buf_view read_room (\<lambda>bs b. snd (read_from (Received bs) b)) advance
      [Put [1, 2, 3], Get 2, Put [4, 5], Get 1] (Buffer_new 3) = ([1, 2, 3, 4, 5], [1, 2, 3], b)
    \<and> [1, 2, 3, 4, 5] = [1, 2, 3] @ buf_view b \<and> read_inv b"
proof -
  let ?b = "\<lparr>buf_data = [3, 4, 5], buf_len = 3, bytes_written = 0, read_off = 1\<rparr>"
  have b: "transfers buf_view read_room (\<lambda>bs b. snd (read_from (Received bs) b)) advance
      [Put [1, 2, 3], Get 2, Put [4, 5], Get 1] (Buffer_new 3) = ([1, 2, 3, 4, 5], [1, 2, 3], ?b)"
    by code_simp
  with read_stream_intact [OF b] show ?thesis by blast
qed

text \<open>
  The write side: however \<^verbatim>\<open>send\<close> cuts the stream, the bytes sent followed by the bytes still to
  be sent are exactly the frames appended, in order.
\<close>

theorem write_stream_intact:
  assumes "transfers unsent remaining_capacity (\<lambda>bs b. snd (buf_append bs b)) (\<lambda>n b. snd (write_to (Sent n) b)) ts (Buffer_new N)
      = (appended, sent, b)"
  shows "appended = sent @ unsent b \<and> write_inv b \<and> unsent (try_reset b) = unsent b"
  using write_path.stream [OF _ assms] try_reset_unsent [of b] by simp

theorem write_stream_intact_witness:
  "\<exists>b. transfers unsent remaining_capacity (\<lambda>bs b. snd (buf_append bs b)) (\<lambda>n b. snd (write_to (Sent n) b))
      [Put [1, 2, 3], Get 2, Put [4]] (Buffer_new 4) = ([1, 2, 3, 4], [1, 2], b)
    \<and> [1, 2, 3, 4] = [1, 2] @ unsent b"
proof -
  let ?b = "\<lparr>buf_data = [1, 2, 3, 4], buf_len = 4, bytes_written = 2, read_off = 0\<rparr>"
  have b: "transfers unsent remaining_capacity (\<lambda>bs b. snd (buf_append bs b)) (\<lambda>n b. snd (write_to (Sent n) b))
      [Put [1, 2, 3], Get 2, Put [4]] (Buffer_new 4) = ([1, 2, 3, 4], [1, 2], ?b)"
    by code_simp
  with write_stream_intact [OF b] show ?thesis by blast
qed

end
