(* ===== verification/Protocol.thy ===== *)
theory Protocol
  imports Order_Types Buffer
begin

text \<open>
  \<^verbatim>\<open>infra/protocol.hpp\<close> and the two byte layouts of the wire: the inbound frame (a header and the
  raw \<^verbatim>\<open>InboundMessage\<close> struct, written by the client's \<^verbatim>\<open>frame_message\<close> and read by the server's
  \<^verbatim>\<open>processRequest\<close>) and the outbound frame built by \<^verbatim>\<open>appendResponse\<close>.

  The struct travels as its memory image: little-endian fields at the offsets the header states,
  followed by padding. The target is x86-64 (the sources include \<^verbatim>\<open>immintrin.h\<close>).
\<close>

unbundle bit_operations_syntax

section \<open>Little-endian fields\<close>

fun le_bytes :: "nat \<Rightarrow> 'a :: len word \<Rightarrow> byte list" where
  "le_bytes 0 w = []"
| "le_bytes (Suc n) w = ucast w # le_bytes n (drop_bit 8 w)"

fun le_word :: "byte list \<Rightarrow> 'a :: len word" where
  "le_word [] = 0"
| "le_word (b # bs) = ucast b OR push_bit 8 (le_word bs)"

lemma length_le_bytes [simp]: "length (le_bytes n w) = n"
  by (induction n arbitrary: w) auto

lemma le_word_bytes: "le_word (le_bytes n w) = take_bit (8 * n) (w :: 'a :: len word)"
proof (induction n arbitrary: w)
  case (Suc n)
  have "ucast (ucast w :: byte) OR push_bit 8 (take_bit (8 * n) (drop_bit 8 w)) = take_bit (8 * Suc n) w"
    by (rule bit_word_eqI) (auto simp: bit_simps)
  then show ?case by (simp only: le_bytes.simps le_word.simps Suc.IH)
qed simp

lemma le_roundtrip [simp]:
  "le_word (le_bytes 8 w) = (w :: 64 word)" "le_word (le_bytes 4 v) = (v :: 32 word)"
  using take_bit_length_eq [of w] take_bit_length_eq [of v] by (simp_all add: le_word_bytes)

text \<open>The field of \<open>n\<close> bytes at an offset.\<close>

definition field :: "nat \<Rightarrow> nat \<Rightarrow> byte list \<Rightarrow> byte list" where
  "field off n bs = take n (drop off bs)"

section \<open>Text\<close>

definition ascii :: "string \<Rightarrow> byte list" where
  "ascii s = map of_char s"

definition newline :: byte where "newline = 10"

definition HEADER :: "byte list" where
  "HEADER = ascii ''EXCHANGE'' @ [newline]"

definition OK_STATUS :: "byte list" where
  "OK_STATUS = HEADER @ ascii ''OK'' @ [newline]"

definition MATCH_STATUS :: "byte list" where
  "MATCH_STATUS = HEADER @ ascii ''MATCH'' @ [newline]"

definition ERROR_STATUS :: "byte list" where
  "ERROR_STATUS = HEADER @ ascii ''ERROR'' @ [newline]"

lemma length_status [simp]:
  "length HEADER = 9" "length OK_STATUS = 12" "length MATCH_STATUS = 15" "length ERROR_STATUS = 15"
  by (simp_all add: OK_STATUS_def MATCH_STATUS_def ERROR_STATUS_def HEADER_def ascii_def)

definition INBOUND_BSIZE :: nat where "INBOUND_BSIZE = 72"

definition OUTBOUND_BSIZE :: nat where "OUTBOUND_BSIZE = 32"

fun server_error_string :: "ServerError \<Rightarrow> byte list" where
  "server_error_string MALFORMED_REQUEST = ascii ''malformed req''"
| "server_error_string INVALID_ORDER = ascii ''invalid order''"
| "server_error_string SYSTEM_ERROR = ascii ''system error''"
| "server_error_string EXECUTION_ERROR = ascii ''execution error''"
| "server_error_string NONE = ascii ''null''"

lemma length_server_error_string: "length (server_error_string e) \<le> 15"
  by (cases e) (simp_all add: ascii_def)

section \<open>The inbound frame\<close>

text \<open>
  The 56-byte image of an \<^verbatim>\<open>InboundMessage\<close>; \<open>pad\<close> are its nine bytes of padding (the
  \<^verbatim>\<open>padding\<close> member and the tail padding of the struct).
\<close>

definition encode_message :: "byte list \<Rightarrow> InboundMessage \<Rightarrow> byte list" where
  "encode_message pad m =
     le_bytes 8 (im_read_begin_tsc m) @ le_bytes 8 (im_recv_tsc m) @ le_bytes 8 (im_server_push m)
     @ le_bytes 8 (im_order_id m) @ le_bytes 4 (im_client_id m) @ le_bytes 4 (im_price m)
     @ le_bytes 4 (im_quantity m) @ [im_message_type m, im_side m, im_order_type m] @ pad"

definition decode_message :: "byte list \<Rightarrow> InboundMessage" where
  "decode_message bs =
     \<lparr>im_read_begin_tsc = le_word (field 0 8 bs), im_recv_tsc = le_word (field 8 8 bs),
      im_server_push = le_word (field 16 8 bs), im_order_id = le_word (field 24 8 bs),
      im_client_id = le_word (field 32 4 bs), im_price = le_word (field 36 4 bs),
      im_quantity = le_word (field 40 4 bs), im_message_type = le_word (field 44 1 bs),
      im_side = le_word (field 45 1 bs), im_order_type = le_word (field 46 1 bs)\<rparr>"

lemma field_append:
  "length as = off \<Longrightarrow> length bs = n \<Longrightarrow> field off n (as @ bs @ cs) = bs"
  by (simp add: field_def)

lemma field_skip: "length as \<le> off \<Longrightarrow> field off n (as @ bs) = field (off - length as) n bs"
  by (simp add: field_def)

lemma field_here: "length bs = n \<Longrightarrow> field 0 n (bs @ cs) = bs"
  by (simp add: field_def)

lemma field_one: "field 0 (Suc 0) (b # bs) = [b]"
  by (simp add: field_def)

lemma field_Cons: "0 < off \<Longrightarrow> field off n (b # bs) = field (off - 1) n bs"
  by (cases off) (simp_all add: field_def)

lemma decode_encode: "decode_message (encode_message pad m) = m"
  by (simp add: decode_message_def encode_message_def field_skip field_here field_Cons field_one)

lemma length_encode: "length pad = 9 \<Longrightarrow> length (encode_message pad m) = 56"
  by (simp add: encode_message_def)

text \<open>
  \<^verbatim>\<open>frame_message\<close> fills 66 bytes of the client's 72-byte frame and leaves the rest, \<open>dst\<close>, as it
  is.
\<close>

definition frame_message :: "byte list \<Rightarrow> InboundMessage \<Rightarrow> byte list \<Rightarrow> byte list" where
  "frame_message pad m dst =
     (let d1 = overwrite dst 0 HEADER;
          d2 = overwrite d1 (length HEADER) (encode_message pad m)
      in d2[length HEADER + length (encode_message pad m) := newline])"

text \<open>
  What \<^verbatim>\<open>processRequest\<close> makes of one complete frame: the message if the header is right (before
  the server stamps it).
\<close>

definition parse_frame :: "byte list \<Rightarrow> InboundMessage option" where
  "parse_frame frame =
     (if take (length HEADER) frame \<noteq> HEADER then None
      else Some (decode_message (take 56 (drop (length HEADER) frame))))"

lemma frame_message_bytes:
  assumes "length dst = 72" and "length pad = 9"
  shows "frame_message pad m dst = HEADER @ encode_message pad m @ [newline] @ drop 66 dst"
proof -
  have e: "length (encode_message pad m) = 56" by (rule length_encode [OF assms(2)])
  have "overwrite (overwrite dst 0 HEADER) 9 (encode_message pad m) = HEADER @ encode_message pad m @ drop 65 dst"
    using assms e by (simp add: overwrite_def)
  moreover have "drop 65 dst = dst ! 65 # drop 66 dst" using assms(1) Cons_nth_drop_Suc [of 65 dst] by simp
  ultimately show ?thesis using e by (simp add: frame_message_def Let_def list_update_append)
qed

lemma parse_frame_message:
  assumes "length dst = 72" and "length pad = 9"
  shows "parse_frame (frame_message pad m dst) = Some m" and "length (frame_message pad m dst) = 72"
  using assms length_encode [OF assms(2), of m]
  by (simp_all add: frame_message_bytes parse_frame_def decode_encode)

section \<open>The outbound frame\<close>

definition response_frame :: "OutboundMessage \<Rightarrow> byte list" where
  "response_frame msg =
     (let frame = replicate OUTBOUND_BSIZE 0
      in if om_message_type msg = MATCH
         then overwrite (overwrite (overwrite frame 0 MATCH_STATUS)
                (length MATCH_STATUS) (le_bytes 4 (om_client_id msg)))
                (length MATCH_STATUS + 4) (le_bytes 8 (om_order_id msg))
         else if om_server_error msg = NONE
         then overwrite (overwrite (overwrite frame 0 OK_STATUS)
                (length OK_STATUS) (le_bytes 4 (om_client_id msg)))
                (length OK_STATUS + 4) (le_bytes 8 (om_order_id msg))
         else let err_str = server_error_string (om_server_error msg)
              in (overwrite (overwrite frame 0 ERROR_STATUS) (length ERROR_STATUS) err_str)
                   [length ERROR_STATUS + length err_str := newline])"

lemma response_frame_match:
  "om_message_type msg = MATCH \<Longrightarrow>
   response_frame msg = MATCH_STATUS @ le_bytes 4 (om_client_id msg) @ le_bytes 8 (om_order_id msg) @ replicate 5 0"
  by (simp add: response_frame_def OUTBOUND_BSIZE_def overwrite_def)

lemma response_frame_ok:
  "om_message_type msg \<noteq> MATCH \<Longrightarrow> om_server_error msg = NONE \<Longrightarrow>
   response_frame msg = OK_STATUS @ le_bytes 4 (om_client_id msg) @ le_bytes 8 (om_order_id msg) @ replicate 8 0"
  by (simp add: response_frame_def OUTBOUND_BSIZE_def overwrite_def)

lemma response_frame_error:
  assumes "om_message_type msg \<noteq> MATCH" "om_server_error msg \<noteq> NONE"
  shows "response_frame msg = ERROR_STATUS @ server_error_string (om_server_error msg) @ [newline]
     @ replicate (16 - length (server_error_string (om_server_error msg))) 0"
proof -
  let ?e = "server_error_string (om_server_error msg)"
  obtain k where k: "17 - length ?e = Suc k" "k = 16 - length ?e"
    using length_server_error_string [of "om_server_error msg"] by (cases "17 - length ?e") auto
  have "overwrite (overwrite (replicate 32 0) 0 ERROR_STATUS) 15 ?e = ERROR_STATUS @ ?e @ replicate (17 - length ?e) 0"
    by (simp add: overwrite_def)
  then show ?thesis using assms k by (simp add: response_frame_def OUTBOUND_BSIZE_def list_update_append Let_def)
qed

lemma length_response_frame [simp]: "length (response_frame msg) = OUTBOUND_BSIZE"
  using length_server_error_string [of "om_server_error msg"]
  by (cases "om_message_type msg = MATCH"; cases "om_server_error msg = NONE")
    (simp_all add: response_frame_match response_frame_ok response_frame_error OUTBOUND_BSIZE_def)

text \<open>How the client classifies a response frame.\<close>

datatype response = Ack OrderId | Fill | Error_Response | Bad_Header | Bad_Type

definition classify :: "byte list \<Rightarrow> response" where
  "classify frame =
     (if take 9 frame \<noteq> HEADER then Bad_Header
      else if frame ! 9 = of_char CHR ''O'' then Ack (le_word (field 16 8 frame))
      else if frame ! 9 = of_char CHR ''M'' then Fill
      else if frame ! 9 = of_char CHR ''E'' then Error_Response
      else Bad_Type)"

lemma status_split:
  "OK_STATUS = HEADER @ of_char CHR ''O'' # ascii ''K'' @ [newline]"
  "MATCH_STATUS = HEADER @ of_char CHR ''M'' # ascii ''ATCH'' @ [newline]"
  "ERROR_STATUS = HEADER @ of_char CHR ''E'' # ascii ''RROR'' @ [newline]"
  by (simp_all add: OK_STATUS_def MATCH_STATUS_def ERROR_STATUS_def ascii_def)

lemma classify_response:
  "classify (response_frame msg) =
     (if om_message_type msg = MATCH then Fill
      else if om_server_error msg = NONE then Ack (om_order_id msg) else Error_Response)"
proof -
  have m: "classify (MATCH_STATUS @ rest) = Fill" for rest
    by (simp add: classify_def status_split nth_append of_char_def)
  have e: "classify (ERROR_STATUS @ rest) = Error_Response" for rest
    by (simp add: classify_def status_split nth_append of_char_def)
  have o: "classify (OK_STATUS @ c @ i @ rest) = Ack (le_word i)" if "length c = 4" "length i = 8" for c i rest
  proof -
    have "field 16 8 (OK_STATUS @ c @ i @ rest) = i" using that by (simp add: field_skip field_here)
    then show ?thesis by (simp add: classify_def status_split(1) nth_append)
  qed
  show ?thesis
    using m e o by (simp add: response_frame_match response_frame_ok response_frame_error)
qed

section \<open>Properties\<close>

text \<open>
  C25: the inbound wire format round-trips: what the client's \<^verbatim>\<open>frame_message\<close> writes, the server's
  parser reads back field by field, whatever the padding and the unused tail of the frame hold.
\<close>

theorem inbound_roundtrip:
  assumes "length dst = INBOUND_BSIZE" and "length pad = 9"
  shows "length (frame_message pad m dst) = INBOUND_BSIZE \<and> parse_frame (frame_message pad m dst) = Some m"
  using parse_frame_message [of dst pad m] assms by (simp add: INBOUND_BSIZE_def)

theorem inbound_roundtrip_witness:
  "parse_frame (frame_message (replicate 9 0) (InboundMessage_zero\<lparr>im_price := 77\<rparr>) (replicate 72 255))
     = Some (InboundMessage_zero\<lparr>im_price := 77\<rparr>)"
  using inbound_roundtrip [of "replicate 72 255" "replicate 9 0"] by (simp add: INBOUND_BSIZE_def)

text \<open>
  Every response fits its 32-byte frame (no byte is written outside it), and the client
  classifies it as the server meant it; an acknowledgement carries the order id.
\<close>

theorem response_frame_understood:
  "length (response_frame msg) = OUTBOUND_BSIZE
   \<and> classify (response_frame msg) =
      (if om_message_type msg = MATCH then Fill
       else if om_server_error msg = NONE then Ack (om_order_id msg) else Error_Response)"
  using classify_response by simp

text \<open>
  The status of a request is lost on the wire: the frame of a failed CANCEL or MODIFY is the
  frame of a successful one.
\<close>

theorem failure_looks_like_success:
  assumes "om_message_type msg \<noteq> MATCH" and "om_server_error msg = NONE"
  shows "response_frame (msg\<lparr>om_status := FAILURE\<rparr>) = response_frame (msg\<lparr>om_status := SUCCESS\<rparr>)
     \<and> classify (response_frame (msg\<lparr>om_status := FAILURE\<rparr>)) = Ack (om_order_id msg)"
proof
  show "response_frame (msg\<lparr>om_status := FAILURE\<rparr>) = response_frame (msg\<lparr>om_status := SUCCESS\<rparr>)"
    using assms by (simp add: response_frame_ok)
  show "classify (response_frame (msg\<lparr>om_status := FAILURE\<rparr>)) = Ack (om_order_id msg)"
    using assms by (simp add: classify_response)
qed

theorem failure_looks_like_success_witness:
  "classify (response_frame (OutboundMessage_zero\<lparr>om_message_type := CANCEL, om_order_id := 5, om_status := FAILURE\<rparr>)) = Ack 5"
proof -
  let ?m = "OutboundMessage_zero\<lparr>om_message_type := CANCEL, om_order_id := 5\<rparr>"
  have "om_message_type ?m \<noteq> MATCH" "om_server_error ?m = NONE" by (simp_all add: OutboundMessage_zero_def)
  from failure_looks_like_success [OF this] have "classify (response_frame (?m\<lparr>om_status := FAILURE\<rparr>)) = Ack (om_order_id ?m)"
    by blast
  then show ?thesis by simp
qed

end
