(* ===== verification/Latency.thy ===== *)
theory Latency
  imports Complex_Main Order_Types "HOL-Library.Signed_Division"
begin

text \<open>
  \<^verbatim>\<open>server/include/latency.hpp\<close>: the samples the outbound thread takes and the conversion of ticks to
  nanoseconds. A double is a rational number. The calibration and the printed report are in the
  theory of the latency report; the two records also serve the diagnostics build, the shipped build
  sets only \<^verbatim>\<open>t0\<close>, \<^verbatim>\<open>t7\<close> and \<^verbatim>\<open>record\<close>.
\<close>

record LatencySample =
  ls_t0 :: Timestamp
  ls_t1 :: Timestamp
  ls_t2 :: Timestamp
  ls_t3 :: Timestamp
  ls_t4 :: Timestamp
  ls_t5 :: Timestamp
  ls_t6 :: Timestamp
  ls_t7 :: Timestamp

definition LatencySample_zero :: LatencySample where
  "LatencySample_zero =
     \<lparr>ls_t0 = 0, ls_t1 = 0, ls_t2 = 0, ls_t3 = 0, ls_t4 = 0, ls_t5 = 0, ls_t6 = 0, ls_t7 = 0\<rparr>"

record PendingLatency =
  pl_read_begin_tsc :: Timestamp
  pl_recv_tsc :: Timestamp
  pl_server_push_tsc :: Timestamp
  pl_engine_pop_tsc :: Timestamp
  pl_engine_push_tsc :: Timestamp
  pl_server_pop :: Timestamp
  pl_record :: bool

definition PendingLatency_zero :: PendingLatency where
  "PendingLatency_zero =
     \<lparr>pl_read_begin_tsc = 0, pl_recv_tsc = 0, pl_server_push_tsc = 0, pl_engine_pop_tsc = 0,
      pl_engine_push_tsc = 0, pl_server_pop = 0, pl_record = False\<rparr>"

record LatencyHandler =
  samples :: "LatencySample list"
  sample_count :: nat
  ticks_per_ns :: rat

definition LATENCY_SAMPLE_DROP :: nat where "LATENCY_SAMPLE_DROP = 100000"

definition LATENCY_SAMPLE_COUNT :: nat where "LATENCY_SAMPLE_COUNT = 100000000 + LATENCY_SAMPLE_DROP"

definition LatencyHandler_new :: "rat \<Rightarrow> LatencyHandler" where
  "LatencyHandler_new ticks =
     \<lparr>samples = replicate LATENCY_SAMPLE_COUNT LatencySample_zero, sample_count = 0, ticks_per_ns = ticks\<rparr>"

definition push_sample :: "LatencySample \<Rightarrow> LatencyHandler \<Rightarrow> LatencyHandler" where
  "push_sample s h =
     (if sample_count h < length (samples h)
      then h\<lparr>samples := (samples h)[sample_count h := s], sample_count := sample_count h + 1\<rparr>
      else h)"

text \<open>\<^verbatim>\<open>static_cast<int64_t>\<close> of a positive double drops the fraction; dividing by zero traps.\<close>

definition calc_latency :: "LatencyHandler \<Rightarrow> Timestamp \<Rightarrow> Timestamp \<Rightarrow> int res" where
  "calc_latency h t1 t2 =
     (let diff = sint (t2 - t1); ticks = \<lfloor>ticks_per_ns h\<rfloor>
      in if ticks = 0 then fail Division_By_Zero else ok (diff sdiv ticks))"

section \<open>Facts\<close>

definition taken :: "LatencyHandler \<Rightarrow> LatencySample list" where
  "taken h = take (sample_count h) (samples h)"

definition lat_inv :: "LatencyHandler \<Rightarrow> bool" where
  "lat_inv h \<longleftrightarrow> sample_count h \<le> length (samples h)"

lemma push_sample_taken:
  assumes "lat_inv h"
  shows "lat_inv (push_sample s h)" and "length (samples (push_sample s h)) = length (samples h)"
    and "taken (push_sample s h) = take (length (samples h)) (taken h @ [s])"
    and "ticks_per_ns (push_sample s h) = ticks_per_ns h"
  using assms by (auto simp: lat_inv_def taken_def push_sample_def take_Suc_conv_app_nth)

lemma push_samples_taken:
  assumes "lat_inv h"
  shows "lat_inv (fold push_sample ss h)
     \<and> length (samples (fold push_sample ss h)) = length (samples h)
     \<and> taken (fold push_sample ss h) = take (length (samples h)) (taken h @ ss)
     \<and> ticks_per_ns (fold push_sample ss h) = ticks_per_ns h"
  using assms
proof (induction ss arbitrary: h)
  case Nil
  then show ?case by (simp add: taken_def lat_inv_def)
next
  case (Cons s ss)
  note p = push_sample_taken [OF Cons.prems, of s]
  have l: "length (taken h) \<le> length (samples h)" by (simp add: taken_def)
  have "take (length (samples h)) (take (length (samples h)) (taken h @ [s]) @ ss)
      = take (length (samples h)) (taken h @ s # ss)"
    using l by (cases "length (taken h) < length (samples h)") (simp_all add: Suc_le_eq)
  with Cons.IH [OF p(1)] p show ?case by simp
qed

section \<open>Examples\<close>

definition sample_at :: "Timestamp \<Rightarrow> Timestamp \<Rightarrow> LatencySample" where
  "sample_at a b = LatencySample_zero\<lparr>ls_t0 := a, ls_t7 := b\<rparr>"

definition handler2 :: "rat \<Rightarrow> LatencyHandler" where
  "handler2 ticks = \<lparr>samples = replicate 2 LatencySample_zero, sample_count = 0, ticks_per_ns = ticks\<rparr>"

end
