(* ===== verification/Connection.thy ===== *)
theory Connection
  imports Ring_Buffer Protocol Latency
begin

text \<open>
  \<^verbatim>\<open>server/include/connection_info.hpp\<close> and \<^verbatim>\<open>connection_info.cpp\<close>: the per-connection state of
  the two server threads.

  A file descriptor is a natural number; the descriptor owned by the socket wrapper is the
  \<open>is_fd\<close> of the inbound state.
\<close>

type_synonym fd = nat

definition PIPELINE_DEPTH :: nat where "PIPELINE_DEPTH = 32"

definition RINGBUF_SIZE :: "32 word" where "RINGBUF_SIZE = 64"

section \<open>Inbound state\<close>

record PendingError =
  pe_fd :: fd
  pe_err :: ServerError

record InboundState =
  is_fd :: fd
  read_buf :: Buffer
  inbound :: InboundMessage
  is_read_begin_tsc :: Timestamp

definition InboundState_new :: "fd \<Rightarrow> InboundState" where
  "InboundState_new f =
     \<lparr>is_fd = f, read_buf = Buffer_new (PIPELINE_DEPTH * INBOUND_BSIZE), inbound = InboundMessage_zero,
      is_read_begin_tsc = 0\<rparr>"

definition is_client_id :: "InboundState \<Rightarrow> ClientId" where
  "is_client_id st = im_client_id (inbound st)"

section \<open>Outbound state\<close>

record OutboundState =
  write_buf :: Buffer
  staging :: "OutboundMessage RingBuffer"
  latency_batch :: "PendingLatency list"
  latency_count :: nat

definition OutboundState_new :: OutboundState where
  "OutboundState_new =
     \<lparr>write_buf = Buffer_new (PIPELINE_DEPTH * OUTBOUND_BSIZE),
      staging = \<lparr>write_idx = 0, read_idx = 0, buffer = replicate (unat RINGBUF_SIZE) OutboundMessage_zero,
                 rb_mask = RINGBUF_SIZE - 1\<rparr>,
      latency_batch = replicate PIPELINE_DEPTH PendingLatency_zero, latency_count = 0\<rparr>"

definition push_outbound :: "OutboundMessage \<Rightarrow> OutboundState \<Rightarrow> OutboundState" where
  "push_outbound msg out = out\<lparr>staging := snd (ring_push (staging out) msg)\<rparr>"

definition pop_outbound :: "OutboundState \<Rightarrow> OutboundMessage \<times> OutboundState" where
  "pop_outbound out =
     (case ring_pop (staging out) of
        (None, r) \<Rightarrow> (OutboundMessage_zero, out\<lparr>staging := r\<rparr>)
      | (Some msg, r) \<Rightarrow> (msg, out\<lparr>staging := r\<rparr>))"

definition has_pending_outbound :: "OutboundState \<Rightarrow> bool" where
  "has_pending_outbound out \<longleftrightarrow> \<not> ring_empty (staging out)"

definition push_latency :: "PendingLatency \<Rightarrow> OutboundState \<Rightarrow> OutboundState" where
  "push_latency e out =
     (if latency_count out < length (latency_batch out)
      then out\<lparr>latency_batch := (latency_batch out)[latency_count out := e], latency_count := latency_count out + 1\<rparr>
      else out)"

definition clear_latency_batch :: "OutboundState \<Rightarrow> OutboundState" where
  "clear_latency_batch out = out\<lparr>latency_count := 0\<rparr>"

section \<open>Invariant\<close>

text \<open>
  The staging ring and the write buffer are well formed, with the sizes of the configuration, and
  the latency batch never overruns its array.
\<close>

definition out_inv :: "OutboundState \<Rightarrow> bool" where
  "out_inv out \<longleftrightarrow> ring_inv (staging out) \<and> ring_cap (staging out) = 63 \<and> write_inv (write_buf out)
     \<and> capacity (write_buf out) = PIPELINE_DEPTH * OUTBOUND_BSIZE
     \<and> length (latency_batch out) = PIPELINE_DEPTH \<and> latency_count out \<le> PIPELINE_DEPTH"

lemma OutboundState_new_inv: "out_inv OutboundState_new" and staging_new: "ring_contents (staging OutboundState_new) = []"
proof -
  have "ring_log (staging OutboundState_new) 6"
    by (simp add: ring_log_def OutboundState_new_def RINGBUF_SIZE_def mask_eq_pow)
  then show "out_inv OutboundState_new"
    by (auto simp: out_inv_def ring_inv_def ring_cap_def OutboundState_new_def RINGBUF_SIZE_def)
  show "ring_contents (staging OutboundState_new) = []"
    by (simp add: ring_contents_def ring_used_def OutboundState_new_def RINGBUF_SIZE_def)
qed

lemma push_outbound_inv: "out_inv out \<Longrightarrow> out_inv (push_outbound msg out)"
  using ring.inv_push [of "staging out" msg] by (simp add: out_inv_def push_outbound_def)

lemma push_outbound_contents:
  "out_inv out \<Longrightarrow> ring_contents (staging (push_outbound msg out)) = take 63 (ring_contents (staging out) @ [msg])"
  using ring.contents_push [of "staging out" msg] by (simp add: out_inv_def push_outbound_def)

lemma has_pending_iff: "out_inv out \<Longrightarrow> has_pending_outbound out \<longleftrightarrow> ring_contents (staging out) \<noteq> []"
proof -
  assume "out_inv out"
  then obtain k where "ring_log (staging out) k" by (auto simp: out_inv_def ring_inv_def)
  from ring_used_eq_0 [OF this] show ?thesis
    by (auto simp: has_pending_outbound_def ring_empty_def simp flip: length_0_conv)
qed

lemma pop_outbound_front:
  assumes "out_inv out" and "ring_contents (staging out) = msg # msgs"
  shows "\<exists>out'. pop_outbound out = (msg, out') \<and> out_inv out' \<and> ring_contents (staging out') = msgs
     \<and> write_buf out' = write_buf out \<and> latency_count out' = latency_count out \<and> latency_batch out' = latency_batch out"
proof -
  have I: "ring_inv (staging out)" using assms(1) by (simp add: out_inv_def)
  obtain r where r: "ring_pop (staging out) = (Some msg, r)" "ring_contents r = msgs" "ring_inv r" "ring_cap r = ring_cap (staging out)"
    using ring.pop_front [OF I assms(2)] ring.inv_pop [OF I] by (metis prod.collapse)
  then show ?thesis using assms(1) by (simp add: pop_outbound_def out_inv_def)
qed

lemma push_latency_inv:
  "out_inv out \<Longrightarrow> out_inv (push_latency e out)" "staging (push_latency e out) = staging out"
  "write_buf (push_latency e out) = write_buf out"
  by (auto simp: out_inv_def push_latency_def)

end
