(* ===== verification/Server_State.thy ===== *)
theory Server_State
  imports Connection
begin

text \<open>
  The members of \<^verbatim>\<open>Server\<close> (\<^verbatim>\<open>server/include/server.hpp\<close>) that carry state, the helpers both threads
  use, and the two-phase close of \<^verbatim>\<open>server/src/server.cpp\<close>.

  The fd-indexed arrays have \<^verbatim>\<open>MAX_CLIENTS + 10\<close> cells and are indexed by the descriptor the kernel
  returns. Registering a descriptor past the end is a fault (in the inbound theory); every other
  access is to a descriptor that was registered, so the arrays are functions here. \<open>epoll_in\<close> and
  \<open>epoll_out\<close> are the interest lists of the two epoll instances as the program's \<^verbatim>\<open>epoll_ctl\<close> calls
  leave them. \<open>latency_handler\<close> is the file-scope object of \<^verbatim>\<open>server.cpp\<close>.
\<close>

section \<open>State\<close>

definition MAX_CLIENTS :: nat where "MAX_CLIENTS = 64"

definition FD_SLOTS :: nat where "FD_SLOTS = MAX_CLIENTS + 10"

definition ERROR_CHANNEL_SIZE :: nat where "ERROR_CHANNEL_SIZE = MAX_CLIENTS * PIPELINE_DEPTH"

record Server =
  inbound_map :: "fd \<Rightarrow> InboundState option"
  outbound_map :: "fd \<Rightarrow> OutboundState option"
  client_map :: "ClientId \<rightharpoonup> int"
  condemned_inbound :: "fd \<Rightarrow> bool"
  condemned_outbound :: "fd \<Rightarrow> bool"
  sv_in_ring :: "InboundMessage RingBuffer"
  sv_out_ring :: "OutboundMessage RingBuffer"
  error_channel :: "PendingError RingBuffer"
  epoll_in :: "fd set"
  epoll_out :: "fd set"
  writable_fds :: "fd set"
  epollout_armed :: "fd \<Rightarrow> bool"
  stop_flag :: bool
  latency_handler :: LatencyHandler

definition PendingError_zero :: PendingError where
  "PendingError_zero = \<lparr>pe_fd = 0, pe_err = NONE\<rparr>"

definition Server_new :: "InboundMessage RingBuffer \<Rightarrow> OutboundMessage RingBuffer \<Rightarrow> LatencyHandler \<Rightarrow> Server" where
  "Server_new inr outr h =
     \<lparr>inbound_map = (\<lambda>_. None), outbound_map = (\<lambda>_. None), client_map = (\<lambda>_. None),
      condemned_inbound = (\<lambda>_. False), condemned_outbound = (\<lambda>_. False),
      sv_in_ring = inr, sv_out_ring = outr,
      error_channel = \<lparr>write_idx = 0, read_idx = 0, buffer = replicate ERROR_CHANNEL_SIZE PendingError_zero,
                       rb_mask = of_nat ERROR_CHANNEL_SIZE - 1\<rparr>,
      epoll_in = {}, epoll_out = {}, writable_fds = {}, epollout_armed = (\<lambda>_. False),
      stop_flag = False, latency_handler = h\<rparr>"

section \<open>Helpers\<close>

datatype epoll_op = EPOLL_CTL_ADD | EPOLL_CTL_DEL

text \<open>
  \<^verbatim>\<open>epoll_ctrl\<close> on an interest list; \<open>accepted\<close> is the kernel's answer. Removing a descriptor that
  is not in the list fails and changes nothing, so the answer does not matter for a removal.
\<close>

definition epoll_ctrl :: "bool \<Rightarrow> fd set \<Rightarrow> fd \<Rightarrow> epoll_op \<Rightarrow> int \<times> fd set" where
  "epoll_ctrl accepted E f op =
     (if \<not> accepted then (- 1, E)
      else (0, case op of EPOLL_CTL_ADD \<Rightarrow> insert f E | EPOLL_CTL_DEL \<Rightarrow> E - {f}))"

abbreviation epoll_del :: "fd set \<Rightarrow> fd \<Rightarrow> fd set" where
  "epoll_del E f \<equiv> snd (epoll_ctrl True E f EPOLL_CTL_DEL)"

definition condemnConnection :: "fd \<Rightarrow> bool \<Rightarrow> Server \<Rightarrow> Server" where
  "condemnConnection f caller_inbound s =
     (if caller_inbound
      then s\<lparr>epoll_in := epoll_del (epoll_in s) f, condemned_inbound := (condemned_inbound s)(f := True)\<rparr>
      else let s1 = s\<lparr>writable_fds := writable_fds s - {f}\<rparr>;
               s2 = (if epollout_armed s1 f
                     then s1\<lparr>epoll_out := epoll_del (epoll_out s1) f, epollout_armed := (epollout_armed s1)(f := False)\<rparr>
                     else s1)
           in s2\<lparr>outbound_map := (outbound_map s2)(f := None), condemned_outbound := (condemned_outbound s2)(f := True)\<rparr>)"

section \<open>Two-phase close\<close>

text \<open>
  The bodies of the two scans for one descriptor, and the scans. Resetting the inbound state runs
  the destructor of its socket, which removes the descriptor it owns from \<open>epoll_in\<close> and closes it.
\<close>

definition disconnect_outbound :: "fd \<Rightarrow> Server \<Rightarrow> Server" where
  "disconnect_outbound f s =
     (if \<not> condemned_inbound s f then s
      else case outbound_map s f of
        None \<Rightarrow> s
      | Some _ \<Rightarrow>
          let s1 = s\<lparr>writable_fds := writable_fds s - {f}\<rparr>;
              s2 = (if epollout_armed s1 f
                    then s1\<lparr>epoll_out := epoll_del (epoll_out s1) f, epollout_armed := (epollout_armed s1)(f := False)\<rparr>
                    else s1)
          in s2\<lparr>outbound_map := (outbound_map s2)(f := None), condemned_outbound := (condemned_outbound s2)(f := True)\<rparr>)"

definition handleDisconnectsOutbound :: "Server \<Rightarrow> Server" where
  "handleDisconnectsOutbound s = fold disconnect_outbound [0..<FD_SLOTS] s"

definition forget_route :: "ClientId \<Rightarrow> (ClientId \<rightharpoonup> int) \<Rightarrow> (ClientId \<rightharpoonup> int)" where
  "forget_route cid m =
     (if 0 < cid then (case m cid of None \<Rightarrow> m | Some _ \<Rightarrow> m(cid \<mapsto> - 1)) else m)"

definition disconnect_inbound :: "fd \<Rightarrow> Server \<Rightarrow> Server" where
  "disconnect_inbound f s =
     (if \<not> condemned_outbound s f then s
      else case inbound_map s f of
        None \<Rightarrow> s
      | Some st \<Rightarrow>
          s\<lparr>client_map := forget_route (is_client_id st) (client_map s),
            epoll_in := epoll_del (epoll_in s) (is_fd st),
            inbound_map := (inbound_map s)(f := None),
            condemned_inbound := (condemned_inbound s)(f := False),
            condemned_outbound := (condemned_outbound s)(f := False)\<rparr>)"

definition handleDisconnectsInbound :: "Server \<Rightarrow> Server" where
  "handleDisconnectsInbound s = fold disconnect_inbound [0..<FD_SLOTS] s"

section \<open>The close invariant\<close>

text \<open>
  For each descriptor: outbound state exists only with inbound state; \<open>condemned_outbound\<close> says the
  outbound thread is done with it; a connection the outbound thread is done with is flagged; flags
  are raised only for open connections; what the outbound thread keeps about a descriptor on the
  side, its place in \<^verbatim>\<open>writable_fds_\<close> and its EPOLLOUT registration, exists only with outbound state;
  and the socket owned by a slot is the slot's descriptor.
\<close>

definition slot_ok :: "Server \<Rightarrow> fd \<Rightarrow> bool" where
  "slot_ok s f \<longleftrightarrow>
     (outbound_map s f \<noteq> None \<longrightarrow> inbound_map s f \<noteq> None)
   \<and> (condemned_outbound s f \<longleftrightarrow> inbound_map s f \<noteq> None \<and> outbound_map s f = None)
   \<and> (condemned_inbound s f \<longrightarrow> inbound_map s f \<noteq> None)
   \<and> (f \<in> writable_fds s \<longrightarrow> outbound_map s f \<noteq> None)
   \<and> (epollout_armed s f \<longrightarrow> outbound_map s f \<noteq> None)
   \<and> (f \<in> epoll_out s \<longleftrightarrow> epollout_armed s f)
   \<and> (\<forall>st. inbound_map s f = Some st \<longrightarrow> is_fd st = f)
   \<and> (f \<in> epoll_in s \<longrightarrow> inbound_map s f \<noteq> None)"

definition close_inv :: "Server \<Rightarrow> bool" where
  "close_inv s \<longleftrightarrow> (\<forall>f. slot_ok s f)"

lemmas close_defs = close_inv_def slot_ok_def epoll_ctrl_def

lemma close_inv_new: "close_inv (Server_new inr outr h)"
  by (simp add: close_defs Server_new_def)

lemma condemn_inbound_inv:
  assumes "close_inv s" and "inbound_map s f \<noteq> None"
  shows "close_inv (condemnConnection f True s)"
  using assms by (auto simp: close_defs condemnConnection_def)

lemma condemn_outbound_inv:
  assumes "close_inv s" and "outbound_map s f \<noteq> None"
  shows "close_inv (condemnConnection f False s)"
  using assms by (auto simp: close_defs condemnConnection_def Let_def)

lemma disconnect_outbound_inv: "close_inv s \<Longrightarrow> close_inv (disconnect_outbound f s)"
  by (auto simp: close_defs disconnect_outbound_def Let_def split: option.splits)

lemma disconnect_inbound_inv: "close_inv s \<Longrightarrow> close_inv (disconnect_inbound f s)"
  by (auto simp: close_defs disconnect_inbound_def split: option.splits)

section \<open>Scans\<close>

text \<open>
  Both scans visit every descriptor once, act on each on its own and keep the invariant.
\<close>

type_synonym slot = "InboundState option \<times> OutboundState option \<times> bool \<times> bool"

definition slot_view :: "Server \<Rightarrow> fd \<Rightarrow> slot" where
  "slot_view s f = (inbound_map s f, outbound_map s f, condemned_inbound s f, condemned_outbound s f)"

locale slot_scan =
  fixes step :: "fd \<Rightarrow> Server \<Rightarrow> Server" and act :: "slot \<Rightarrow> slot"
  assumes other: "f \<noteq> g \<Longrightarrow> slot_view (step f s) g = slot_view s g"
    and here: "slot_view (step f s) f = act (slot_view s f)"
    and keeps: "close_inv s \<Longrightarrow> close_inv (step f s)"
begin

lemma scan_keeps: "close_inv s \<Longrightarrow> close_inv (fold step fs s)"
  by (induction fs arbitrary: s) (simp_all add: keeps)

lemma scan_slot:
  assumes "distinct fs"
  shows "slot_view (fold step fs s) f = (if f \<in> set fs then act (slot_view s f) else slot_view s f)"
  using assms
proof (induction fs arbitrary: s)
  case (Cons g fs)
  then show ?case using other [of g f s] here [of f s] by (cases "g = f") auto
qed simp

end

definition close_outbound_half :: "slot \<Rightarrow> slot" where
  "close_outbound_half = (\<lambda>(i, q, ci, co). if q \<noteq> None \<and> ci then (i, None, True, True) else (i, q, ci, co))"

definition close_inbound_half :: "slot \<Rightarrow> slot" where
  "close_inbound_half = (\<lambda>(i, q, ci, co). if co \<and> i \<noteq> None then (None, q, False, False) else (i, q, ci, co))"

lemmas slot_defs = slot_view_def close_outbound_half_def close_inbound_half_def

lemma disconnect_outbound_view:
  "f \<noteq> g \<Longrightarrow> slot_view (disconnect_outbound f s) g = slot_view s g"
  "slot_view (disconnect_outbound f s) f = close_outbound_half (slot_view s f)"
  by (auto simp: slot_defs disconnect_outbound_def Let_def split: option.splits)

lemma disconnect_inbound_view:
  "f \<noteq> g \<Longrightarrow> slot_view (disconnect_inbound f s) g = slot_view s g"
  "slot_view (disconnect_inbound f s) f = close_inbound_half (slot_view s f)"
  by (auto simp: slot_defs disconnect_inbound_def split: option.splits)

interpretation out_scan: slot_scan disconnect_outbound close_outbound_half
  by unfold_locales
    (rule disconnect_outbound_view disconnect_outbound_inv; assumption?)+

interpretation in_scan: slot_scan disconnect_inbound close_inbound_half
  by unfold_locales
    (rule disconnect_inbound_view disconnect_inbound_inv; assumption?)+

lemma handleDisconnects_inv:
  assumes "close_inv s"
  shows "close_inv (handleDisconnectsOutbound s)" "close_inv (handleDisconnectsInbound s)"
  unfolding handleDisconnectsOutbound_def handleDisconnectsInbound_def
  by (rule out_scan.scan_keeps [OF assms], rule in_scan.scan_keeps [OF assms])

lemma handleDisconnects_slot:
  assumes "f < FD_SLOTS"
  shows "slot_view (handleDisconnectsOutbound s) f = close_outbound_half (slot_view s f)"
    and "slot_view (handleDisconnectsInbound s) f = close_inbound_half (slot_view s f)"
  using assms unfolding handleDisconnectsOutbound_def handleDisconnectsInbound_def
  by (simp_all add: out_scan.scan_slot in_scan.scan_slot)

text \<open>
  The close completes: whichever side condemned a connection, one scan of the outbound thread
  followed by one scan of the inbound thread releases its slot.
\<close>

lemma close_completes:
  assumes "close_inv s" and "f < FD_SLOTS" and "condemned_inbound s f \<or> condemned_outbound s f"
  shows "slot_view (handleDisconnectsInbound (handleDisconnectsOutbound s)) f = (None, None, False, False)"
  using assms unfolding handleDisconnects_slot [OF assms(2)]
  by (auto simp: slot_defs close_defs)

end
