(* ===== verification/Server_Inbound.thy ===== *)
theory Server_Inbound
  imports Server_State Validation
begin

text \<open>
  The inbound thread of \<^verbatim>\<open>server/src/server.cpp\<close>: registering connections, reading bytes, cutting
  them into frames, validating them and handing them to the engine.

  Kernel calls enter as arguments. The answers of \<^verbatim>\<open>recv\<close> and \<^verbatim>\<open>accept\<close> on a non-blocking socket are
  lists; when a list is used up the socket has nothing more to deliver and the call fails with
  \<^verbatim>\<open>EAGAIN\<close>. The thread's \<^verbatim>\<open>errno\<close> is an argument of \<^verbatim>\<open>readRequest\<close>, because the code reads it after a
  \<^verbatim>\<open>recv\<close> that returned 0, which does not set it.
\<close>

section \<open>Frames\<close>

text \<open>
  One iteration of the loop of \<^verbatim>\<open>processRequest\<close>, on a buffer that holds a complete frame. The
  inbound state is the object the caller holds a reference to.
\<close>

definition push_error :: "fd \<Rightarrow> ServerError \<Rightarrow> Server \<Rightarrow> Server" where
  "push_error f e s = s\<lparr>error_channel := snd (ring_push (error_channel s) \<lparr>pe_fd = f, pe_err = e\<rparr>)\<rparr>"

definition process_frame :: "InboundState \<Rightarrow> Server \<Rightarrow> InboundState \<times> Server" where
  "process_frame st s =
     (let data = buf_view (read_buf st);
          st1 = st\<lparr>read_buf := advance INBOUND_BSIZE (read_buf st)\<rparr>
      in if take (length HEADER) data \<noteq> HEADER then (st1, push_error (is_fd st) MALFORMED_REQUEST s)
         else let msg = (decode_message (take 56 (drop (length HEADER) data)))
                          \<lparr>im_read_begin_tsc := is_read_begin_tsc st\<rparr>
              in if \<not> validate_message msg then (st1, push_error (is_fd st) INVALID_ORDER s)
                 else (st1\<lparr>inbound := msg\<rparr>,
                       s\<lparr>client_map := (client_map s)(im_client_id msg \<mapsto> int (is_fd st)),
                         sv_in_ring := snd (ring_push (sv_in_ring s) msg)\<rparr>))"

lemma buf_length_advance: "0 < n \<Longrightarrow> n \<le> buf_length b \<Longrightarrow> buf_length (advance n b) < buf_length b"
  by (auto simp: buf_length_def advance_def Let_def)

lemma read_buf_process_frame:
  "read_buf (fst (process_frame st s)) = advance INBOUND_BSIZE (read_buf st)"
  "is_fd (fst (process_frame st s)) = is_fd st"
  "is_read_begin_tsc (fst (process_frame st s)) = is_read_begin_tsc st"
  by (simp_all add: process_frame_def Let_def)

function processRequest :: "InboundState \<Rightarrow> Server \<Rightarrow> InboundState \<times> Server" where
  "processRequest st s =
     (if INBOUND_BSIZE \<le> buf_length (read_buf st)
      then (case process_frame st s of (st', s') \<Rightarrow> processRequest st' s')
      else (st, s))"
  by pat_completeness auto
termination
proof (relation "measure (\<lambda>(st, s). buf_length (read_buf st))", goal_cases)
  case (2 st s st' s')
  then have "read_buf st' = advance INBOUND_BSIZE (read_buf st)" using read_buf_process_frame(1) [of st s] by (metis fst_conv)
  then have "buf_length (read_buf st') < buf_length (read_buf st)"
    using 2(1) buf_length_advance [of INBOUND_BSIZE "read_buf st"] by (simp add: INBOUND_BSIZE_def)
  then show ?case by simp
qed simp

declare processRequest.simps [simp del]

text \<open>What one frame amounts to.\<close>

definition frame_outcome :: "Timestamp \<Rightarrow> byte list \<Rightarrow> ServerError + InboundMessage" where
  "frame_outcome t frame =
     (case parse_frame frame of
        None \<Rightarrow> Inl MALFORMED_REQUEST
      | Some m \<Rightarrow> let msg = m\<lparr>im_read_begin_tsc := t\<rparr>
                 in if validate_message msg then Inr msg else Inl INVALID_ORDER)"

fun outcome_messages :: "(ServerError + InboundMessage) list \<Rightarrow> InboundMessage list" where
  "outcome_messages [] = []"
| "outcome_messages (Inr m # os) = m # outcome_messages os"
| "outcome_messages (Inl e # os) = outcome_messages os"

fun outcome_errors :: "fd \<Rightarrow> (ServerError + InboundMessage) list \<Rightarrow> PendingError list" where
  "outcome_errors f [] = []"
| "outcome_errors f (Inr m # os) = outcome_errors f os"
| "outcome_errors f (Inl e # os) = \<lparr>pe_fd = f, pe_err = e\<rparr> # outcome_errors f os"

fun routes_to :: "fd \<Rightarrow> InboundMessage list \<Rightarrow> (ClientId \<rightharpoonup> int) \<Rightarrow> (ClientId \<rightharpoonup> int)" where
  "routes_to f [] m = m"
| "routes_to f (msg # msgs) m = routes_to f msgs (m(im_client_id msg \<mapsto> int f))"

lemma take_drop_frame:
  assumes "length f = 72"
  shows "take 9 (f @ rest) = take 9 f" and "take 56 (drop 9 (f @ rest)) = take 56 (drop 9 f)"
  using assms by simp_all

text \<open>The effect of a sequence of outcomes on the shared state.\<close>

definition accept_outcomes :: "fd \<Rightarrow> (ServerError + InboundMessage) list \<Rightarrow> Server \<Rightarrow> Server" where
  "accept_outcomes f os s =
     s\<lparr>client_map := routes_to f (outcome_messages os) (client_map s),
       sv_in_ring := ring_push_all (sv_in_ring s) (outcome_messages os),
       error_channel := ring_push_all (error_channel s) (outcome_errors f os)\<rparr>"

lemma accept_outcomes_Nil [simp]: "accept_outcomes f [] s = s"
  by (simp add: accept_outcomes_def)

lemma accept_outcomes_Cons:
  "accept_outcomes f (oc # os) s = accept_outcomes f os (accept_outcomes f [oc] s)"
  by (cases oc) (simp_all add: accept_outcomes_def)

lemma process_frame_outcome:
  assumes v: "buf_view (read_buf st) = f @ rest" and f: "length f = 72"
    and oc: "oc = frame_outcome (is_read_begin_tsc st) f"
  shows "process_frame st s =
     (st\<lparr>read_buf := advance INBOUND_BSIZE (read_buf st), inbound := last (inbound st # outcome_messages [oc])\<rparr>,
      accept_outcomes (is_fd st) [oc] s)"
  unfolding process_frame_def v oc using f
  by (auto simp: Let_def frame_outcome_def parse_frame_def take_drop_frame [OF f] accept_outcomes_def push_error_def)

lemma processRequest_outcomes:
  assumes "read_inv (read_buf st)" and "buf_view (read_buf st) = concat fs @ rest"
    and "\<forall>f \<in> set fs. length f = 72" and "length rest < 72"
    and "os = map (frame_outcome (is_read_begin_tsc st)) fs"
  shows "processRequest st s =
     (st\<lparr>read_buf := (advance INBOUND_BSIZE ^^ length fs) (read_buf st),
         inbound := last (inbound st # outcome_messages os)\<rparr>, accept_outcomes (is_fd st) os s)"
  using assms
proof (induction fs arbitrary: st s os)
  case Nil
  then have "\<not> INBOUND_BSIZE \<le> buf_length (read_buf st)"
    using length_view [OF Nil.prems(1)] by (simp add: INBOUND_BSIZE_def)
  with Nil show ?case by (simp add: processRequest.simps)
next
  case (Cons f fs)
  have f: "length f = 72" and v: "buf_view (read_buf st) = f @ (concat fs @ rest)" using Cons.prems by simp_all
  define oc where "oc = frame_outcome (is_read_begin_tsc st) f"
  note p = process_frame_outcome [OF v f oc_def, of s]
  have n: "INBOUND_BSIZE \<le> buf_length (read_buf st)"
    using length_view [OF Cons.prems(1)] v f by (simp add: INBOUND_BSIZE_def)
  note adv = advance_view [OF Cons.prems(1) n]
  let ?st = "st\<lparr>read_buf := advance INBOUND_BSIZE (read_buf st), inbound := last (inbound st # outcome_messages [oc])\<rparr>"
  have v1: "buf_view (read_buf ?st) = concat fs @ rest" using adv(2) v f by (simp add: INBOUND_BSIZE_def)
  have "processRequest st s = processRequest ?st (accept_outcomes (is_fd st) [oc] s)"
    using n p by (simp add: processRequest.simps [of st s])
  also have "\<dots> = (?st\<lparr>read_buf := (advance INBOUND_BSIZE ^^ length fs) (read_buf ?st),
        inbound := last (inbound ?st # outcome_messages (map (frame_outcome (is_read_begin_tsc ?st)) fs))\<rparr>,
      accept_outcomes (is_fd ?st) (map (frame_outcome (is_read_begin_tsc ?st)) fs) (accept_outcomes (is_fd st) [oc] s))"
    by (rule Cons.IH [OF _ v1 _ Cons.prems(4) refl]) (use adv(1) Cons.prems(3) in simp_all)
  finally show ?case unfolding Cons.prems(5)
    using accept_outcomes_Cons [of "is_fd st" oc "map (frame_outcome (is_read_begin_tsc st)) fs" s]
    by (cases oc) (simp_all add: oc_def [symmetric] funpow_swap1)
qed

text \<open>The buffer after the frames: aligned to frames, and drained when it was full.\<close>

definition frame_aligned :: "Buffer \<Rightarrow> bool" where
  "frame_aligned b \<longleftrightarrow> read_inv b \<and> INBOUND_BSIZE dvd read_off b \<and> (read_off b < buf_len b \<or> read_off b = 0)
     \<and> capacity b = PIPELINE_DEPTH * INBOUND_BSIZE"

lemma advance_aligned:
  assumes "frame_aligned b" and "INBOUND_BSIZE \<le> buf_length b"
  shows "frame_aligned (advance INBOUND_BSIZE b)"
  using assms advance_view(1) [of b INBOUND_BSIZE]
  by (auto simp: frame_aligned_def advance_def Let_def)

text \<open>The capacity is a multiple of the frame size: a buffer with no complete frame left has room.\<close>

lemma aligned_room:
  assumes "frame_aligned b" and "buf_length b < INBOUND_BSIZE"
  shows "0 < remaining_capacity b"
proof (rule ccontr)
  assume "\<not> 0 < remaining_capacity b"
  with assms(1) have l: "buf_len b = 2304"
    by (simp add: remaining_capacity_def frame_aligned_def read_inv_def PIPELINE_DEPTH_def INBOUND_BSIZE_def)
  obtain k where k: "read_off b = 72 * k" using assms(1) by (auto simp: frame_aligned_def INBOUND_BSIZE_def)
  then show False using assms l by (auto simp: frame_aligned_def buf_length_def INBOUND_BSIZE_def)
qed

lemma advance_n:
  assumes "frame_aligned b" and "buf_view b = concat fs @ rest" and "\<forall>f \<in> set fs. length f = 72"
  shows "frame_aligned ((advance INBOUND_BSIZE ^^ length fs) b) \<and> buf_view ((advance INBOUND_BSIZE ^^ length fs) b) = rest"
  using assms
proof (induction fs arbitrary: b)
  case (Cons f fs)
  have i: "read_inv b" using Cons.prems(1) by (simp add: frame_aligned_def)
  have n: "INBOUND_BSIZE \<le> buf_length b" using length_view [OF i] Cons.prems(2,3) by (simp add: INBOUND_BSIZE_def)
  have "buf_view (advance INBOUND_BSIZE b) = concat fs @ rest"
    using advance_view(2) [OF i n] Cons.prems(2,3) by (simp add: INBOUND_BSIZE_def)
  with Cons.IH [OF advance_aligned(1) [OF Cons.prems(1) n]] Cons.prems(3) show ?case
    by (simp add: funpow_swap1)
qed simp

section \<open>Reading\<close>

definition errno_recv :: "recv_result \<Rightarrow> errno \<Rightarrow> errno" where
  "errno_recv r e = (case r of Recv_Failed e' \<Rightarrow> e' | _ \<Rightarrow> e)"

text \<open>
  The loop of \<^verbatim>\<open>readRequest\<close>. The flag is false when the loop found a reason to condemn the
  connection.
\<close>

fun recv_loop :: "errno \<Rightarrow> recv_result list \<Rightarrow> Buffer \<Rightarrow> bool \<times> errno \<times> recv_result list \<times> Buffer" where
  "recv_loop e [] b =
     (if remaining_capacity b = 0 then (True, e, [], b)
      else (True, EAGAIN, [], snd (read_from (Recv_Failed EAGAIN) b)))"
| "recv_loop e (r # rs) b =
     (if remaining_capacity b = 0 then (True, e, r # rs, b)
      else case read_from r b of
        (n, b') \<Rightarrow> if n \<le> 0 then (errno_recv r e = EAGAIN, errno_recv r e, rs, b')
                   else recv_loop (errno_recv r e) rs b')"

definition readRequest :: "Timestamp \<Rightarrow> errno \<Rightarrow> recv_result list \<Rightarrow> InboundState \<Rightarrow> Server \<Rightarrow>
    bool \<times> errno \<times> recv_result list \<times> InboundState \<times> Server" where
  "readRequest tsc e rs st s =
     (let st1 = st\<lparr>is_read_begin_tsc := tsc\<rparr>
      in case recv_loop e rs (read_buf st1) of
           (drained, e', rs', b) \<Rightarrow>
             let st2 = st1\<lparr>read_buf := b\<rparr>
             in if \<not> drained then (False, e', rs', st2, condemnConnection (is_fd st) True s)
                else case processRequest st2 s of
                       (st3, s3) \<Rightarrow> (remaining_capacity (read_buf st3) = 0, e', rs', st3, s3))"

text \<open>The loop of \<^verbatim>\<open>readAndProcessBytes\<close>; \<open>clock i\<close> is the time stamp counter at its \<open>i\<close>th round.\<close>

partial_function (option) read_requests ::
    "(nat \<Rightarrow> Timestamp) \<Rightarrow> errno \<Rightarrow> recv_result list \<Rightarrow> InboundState \<Rightarrow> Server \<Rightarrow> (InboundState \<times> Server) option" where
  "read_requests clock e rs st s =
     (case readRequest (clock 0) e rs st s of
        (again, e', rs', st', s') \<Rightarrow>
          if again then read_requests (\<lambda>i. clock (Suc i)) e' rs' st' s' else Some (st', s'))"

declare read_requests.simps [code]

definition readAndProcessBytes :: "(nat \<Rightarrow> Timestamp) \<Rightarrow> errno \<Rightarrow> recv_result list \<Rightarrow> fd \<Rightarrow> Server \<Rightarrow> Server res" where
  "readAndProcessBytes clock e rs f s =
     (if condemned_inbound s f then ok s
      else if condemned_outbound s f then ok s
      else case inbound_map s f of
        None \<Rightarrow> ok s
      | Some st \<Rightarrow>
          (case read_requests clock e rs st s of
             None \<Rightarrow> None
           | Some (st', s') \<Rightarrow> ok (s'\<lparr>inbound_map := (inbound_map s')(f := Some st')\<rparr>)))"

text \<open>
  What the kernel promises for the calls of one round on a buffer with room for \<open>n\<close> bytes, and the
  bytes it delivers before it answers with an error or the end of the stream.
\<close>

fun recvs_ok :: "nat \<Rightarrow> recv_result list \<Rightarrow> bool" where
  "recvs_ok n [] \<longleftrightarrow> True"
| "recvs_ok n (Received bs # rs) \<longleftrightarrow> n = 0 \<or> bs \<noteq> [] \<and> length bs \<le> n \<and> recvs_ok (n - length bs) rs"
| "recvs_ok n (r # rs) \<longleftrightarrow> True"

fun delivered :: "nat \<Rightarrow> recv_result list \<Rightarrow> byte list" where
  "delivered n [] = []"
| "delivered n (Received bs # rs) = (if n = 0 then [] else bs @ delivered (n - length bs) rs)"
| "delivered n (r # rs) = []"

text \<open>The answer that ends the round.\<close>

fun final_answer :: "nat \<Rightarrow> recv_result list \<Rightarrow> recv_result option" where
  "final_answer n [] = (if n = 0 then None else Some (Recv_Failed EAGAIN))"
| "final_answer n (Received bs # rs) = (if n = 0 then None else final_answer (n - length bs) rs)"
| "final_answer n (r # rs) = (if n = 0 then None else Some r)"

definition drained_by :: "errno \<Rightarrow> recv_result option \<Rightarrow> bool" where
  "drained_by e r = (case r of None \<Rightarrow> True | Some a \<Rightarrow> errno_recv a e = EAGAIN)"

lemma read_from_aligned:
  assumes "frame_aligned b" and "0 < remaining_capacity b" and "length bs \<le> remaining_capacity b" and "bs \<noteq> []"
  shows "frame_aligned (snd (read_from (Received bs) b))"
    and "buf_view (snd (read_from (Received bs) b)) = buf_view b @ bs"
    and "remaining_capacity (snd (read_from (Received bs) b)) = remaining_capacity b - length bs"
    and "fst (read_from (Received bs) b) = int (length bs)"
proof -
  have i: "read_inv b" using assms(1) by (simp add: frame_aligned_def)
  have c: "buf_compact b = b" using assms(2) by (auto simp: buf_compact_def remaining_capacity_def)
  then have r: "length bs \<le> read_room b" using assms(3) by (simp add: read_room_def)
  have l: "buf_len b + length bs \<le> capacity b" using assms(3) i by (auto simp: remaining_capacity_def read_inv_def)
  show "buf_view (snd (read_from (Received bs) b)) = buf_view b @ bs" by (rule read_from_view(2) [OF i r])
  show "frame_aligned (snd (read_from (Received bs) b))"
    using assms(1,4) read_from_view(1) [OF i r] overwrite_simps(1) [OF l]
    by (auto simp: frame_aligned_def read_from_def c)
  show "remaining_capacity (snd (read_from (Received bs) b)) = remaining_capacity b - length bs"
    using overwrite_simps(1) [OF l] by (simp add: read_from_def c remaining_capacity_def)
  show "fst (read_from (Received bs) b) = int (length bs)" by (simp add: read_from_def Let_def)
qed

lemma recv_loop_delivers:
  assumes "frame_aligned b" and "recvs_ok (remaining_capacity b) rs"
  shows "\<exists>e' rs' b'. recv_loop e rs b = (drained_by e (final_answer (remaining_capacity b) rs), e', rs', b')
     \<and> frame_aligned b' \<and> buf_view b' = buf_view b @ delivered (remaining_capacity b) rs"
  using assms
proof (induction e rs b rule: recv_loop.induct)
  case (1 e b)
  have "remaining_capacity b \<noteq> 0 \<Longrightarrow> buf_compact b = b" by (auto simp: buf_compact_def remaining_capacity_def)
  with 1 show ?case by (auto simp: drained_by_def errno_recv_def read_from_def)
next
  case (2 e r rs b)
  show ?case
  proof (cases "remaining_capacity b = 0")
    case True
    then have "recv_loop e (r # rs) b = (True, e, r # rs, b)" "final_answer 0 (r # rs) = None" "delivered 0 (r # rs) = []"
      by (simp, (cases r; simp)+)
    with True 2(2) show ?thesis by (simp add: drained_by_def)
  next
    case False
    then have c: "buf_compact b = b" by (auto simp: buf_compact_def remaining_capacity_def)
    show ?thesis
    proof (cases r)
      case (Received bs)
      with 2(3) False have bs: "bs \<noteq> []" "length bs \<le> remaining_capacity b" "recvs_ok (remaining_capacity b - length bs) rs"
        by auto
      note b' = read_from_aligned [OF 2(2) _ bs(2,1)]
      obtain n b1 where p: "read_from r b = (n, b1)" by fastforce
      with b' False bs Received have "0 < n" "frame_aligned b1" "buf_view b1 = buf_view b @ bs"
        "remaining_capacity b1 = remaining_capacity b - length bs" "recvs_ok (remaining_capacity b1) rs" by simp_all
      with 2(1) [OF False p [symmetric] _ _ _] False p Received
      show ?thesis by (auto simp: errno_recv_def)
    qed (use False c 2(2) in \<open>auto simp: read_from_def drained_by_def\<close>)
  qed
qed

text \<open>The frames of a byte string.\<close>

fun frames :: "byte list \<Rightarrow> byte list list" where
  "frames bs = (if length bs < 72 then [] else take 72 bs # frames (drop 72 bs))"

declare frames.simps [simp del]

definition leftover :: "byte list \<Rightarrow> byte list" where
  "leftover bs = drop (72 * length (frames bs)) bs"

lemma frames_cases:
  "length bs < 72 \<Longrightarrow> frames bs = []"
  "\<not> length bs < 72 \<Longrightarrow> frames bs = take 72 bs # frames (drop 72 bs)"
  by (subst frames.simps, simp)+

lemma leftover_cases:
  "length bs < 72 \<Longrightarrow> leftover bs = bs"
  "\<not> length bs < 72 \<Longrightarrow> leftover bs = leftover (drop 72 bs)"
  unfolding leftover_def by (subst frames_cases, assumption, simp add: add.commute)+

lemma frames_split:
  "bs = concat (frames bs) @ leftover bs \<and> (\<forall>f \<in> set (frames bs). length f = 72) \<and> length (leftover bs) < 72"
proof (induction bs rule: frames.induct)
  case (1 bs)
  show ?case
  proof (cases "length bs < 72")
    case True
    then show ?thesis by (simp add: frames_cases(1) leftover_cases(1))
  next
    case False
    note IH = 1 [OF False, THEN conjunct1] 1 [OF False, THEN conjunct2, THEN conjunct1]
      1 [OF False, THEN conjunct2, THEN conjunct2]
    show ?thesis unfolding frames_cases(2) [OF False] leftover_cases(2) [OF False]
    proof (intro conjI)
      show "bs = concat (take 72 bs # frames (drop 72 bs)) @ leftover (drop 72 bs)"
        using IH(1) by (metis append_take_drop_id concat.simps(2) append_assoc)
      show "\<forall>f \<in> set (take 72 bs # frames (drop 72 bs)). length f = 72"
        using IH(2) leI [OF False] by (metis length_take min.absorb2 set_ConsD)
    qed (rule IH(3))
  qed
qed

text \<open>
  One round: the bytes delivered so far are cut into frames, every frame has its outcome, the rest
  stays for the next round; or the connection is condemned. The round never asks to be repeated.
\<close>

lemma readRequest_round:
  assumes b: "frame_aligned (read_buf st)" and k: "recvs_ok (remaining_capacity (read_buf st)) rs"
    and bs: "bs = buf_view (read_buf st) @ delivered (remaining_capacity (read_buf st)) rs"
    and os: "os = map (frame_outcome tsc) (frames bs)"
  shows "\<exists>e' rs' b'. frame_aligned b' \<and>
     (if drained_by e (final_answer (remaining_capacity (read_buf st)) rs)
      then buf_view b' = leftover bs \<and> readRequest tsc e rs st s =
        (False, e', rs', st\<lparr>is_read_begin_tsc := tsc, read_buf := b', inbound := last (inbound st # outcome_messages os)\<rparr>,
         accept_outcomes (is_fd st) os s)
      else buf_view b' = bs \<and> readRequest tsc e rs st s =
        (False, e', rs', st\<lparr>is_read_begin_tsc := tsc, read_buf := b'\<rparr>, condemnConnection (is_fd st) True s))"
proof -
  let ?d = "drained_by e (final_answer (remaining_capacity (read_buf st)) rs)"
  obtain e' rs' b1 where r: "recv_loop e rs (read_buf st) = (?d, e', rs', b1)" "frame_aligned b1" "buf_view b1 = bs"
    using recv_loop_delivers [OF b k, of e] bs by blast
  let ?st = "st\<lparr>is_read_begin_tsc := tsc, read_buf := b1\<rparr>"
  let ?b = "(advance INBOUND_BSIZE ^^ length (frames bs)) b1"
  have v: "buf_view b1 = concat (frames bs) @ leftover bs" and f: "\<forall>f \<in> set (frames bs). length f = 72" "length (leftover bs) < 72"
    using frames_split [of bs] r(3) by auto
  have i: "read_inv b1" using r(2) by (simp add: frame_aligned_def)
  have p: "processRequest ?st s =
     (?st\<lparr>read_buf := ?b, inbound := last (inbound st # outcome_messages os)\<rparr>, accept_outcomes (is_fd st) os s)"
    using processRequest_outcomes [of ?st "frames bs" "leftover bs" os s] i v f os by simp
  have B: "frame_aligned ?b" "buf_view ?b = leftover bs" using advance_n [OF r(2) v f(1)] by auto
  then have "buf_length ?b < INBOUND_BSIZE"
    using f(2) length_view [of ?b] by (simp add: frame_aligned_def INBOUND_BSIZE_def)
  from aligned_room [OF B(1) this] have "remaining_capacity ?b \<noteq> 0" by simp
  with p r(1) have 1: "?d \<Longrightarrow> readRequest tsc e rs st s = (False, e', rs', ?st\<lparr>read_buf := ?b, inbound := last (inbound st # outcome_messages os)\<rparr>,
      accept_outcomes (is_fd st) os s)"
    by (simp add: readRequest_def Let_def)
  have 2: "\<not> ?d \<Longrightarrow> readRequest tsc e rs st s = (False, e', rs', ?st, condemnConnection (is_fd st) True s)"
    using r(1) by (simp add: readRequest_def Let_def)
  show ?thesis
  proof (cases ?d)
    case True
    then show ?thesis using 1 B by (intro exI [of _ e'] exI [of _ rs'] exI [of _ ?b]) simp
  next
    case False
    then show ?thesis using 2 r(2,3) by (intro exI [of _ e'] exI [of _ rs'] exI [of _ b1]) simp
  qed
qed

lemma readAndProcessBytes_round:
  assumes "inbound_map s f = Some st" and "\<not> condemned_inbound s f" and "\<not> condemned_outbound s f"
    and "frame_aligned (read_buf st)" and "recvs_ok (remaining_capacity (read_buf st)) rs"
    and "bs = buf_view (read_buf st) @ delivered (remaining_capacity (read_buf st)) rs"
    and "os = map (frame_outcome (clock 0)) (frames bs)"
  shows "\<exists>st'. frame_aligned (read_buf st') \<and> is_fd st' = is_fd st \<and>
     (if drained_by e (final_answer (remaining_capacity (read_buf st)) rs)
      then buf_view (read_buf st') = leftover bs \<and> inbound st' = last (inbound st # outcome_messages os)
        \<and> readAndProcessBytes clock e rs f s =
           ok ((accept_outcomes (is_fd st) os s)\<lparr>inbound_map := (inbound_map s)(f := Some st')\<rparr>)
      else buf_view (read_buf st') = bs \<and> inbound st' = inbound st
        \<and> readAndProcessBytes clock e rs f s =
           ok ((condemnConnection (is_fd st) True s)\<lparr>inbound_map := (inbound_map s)(f := Some st')\<rparr>))"
proof -
  have m: "inbound_map (accept_outcomes (is_fd st) os s) = inbound_map s"
    "inbound_map (condemnConnection (is_fd st) True s) = inbound_map s"
    by (simp_all add: accept_outcomes_def condemnConnection_def)
  have "read_requests clock e rs st s = Some (st', s') \<Longrightarrow>
      readAndProcessBytes clock e rs f s = ok (s'\<lparr>inbound_map := (inbound_map s')(f := Some st')\<rparr>)" for st' s'
    using assms(1-3) by (simp add: readAndProcessBytes_def)
  then have R: "readRequest (clock 0) e rs st s = (False, e', rs', st', s') \<Longrightarrow>
      readAndProcessBytes clock e rs f s = ok (s'\<lparr>inbound_map := (inbound_map s')(f := Some st')\<rparr>)" for e' rs' st' s'
    by (simp add: read_requests.simps [of clock e rs])
  obtain e' rs' b' where b': "frame_aligned b'" and
    q: "if drained_by e (final_answer (remaining_capacity (read_buf st)) rs)
      then buf_view b' = leftover bs \<and> readRequest (clock 0) e rs st s =
        (False, e', rs', st\<lparr>is_read_begin_tsc := clock 0, read_buf := b', inbound := last (inbound st # outcome_messages os)\<rparr>,
         accept_outcomes (is_fd st) os s)
      else buf_view b' = bs \<and> readRequest (clock 0) e rs st s =
        (False, e', rs', st\<lparr>is_read_begin_tsc := clock 0, read_buf := b'\<rparr>, condemnConnection (is_fd st) True s)"
    using readRequest_round [OF assms(4-7), of e s] by blast
  show ?thesis
  proof (cases "drained_by e (final_answer (remaining_capacity (read_buf st)) rs)")
    case True
    with q b' m R show ?thesis
      by (intro exI [of _ "st\<lparr>is_read_begin_tsc := clock 0, read_buf := b', inbound := last (inbound st # outcome_messages os)\<rparr>"]) simp
  next
    case False
    with q b' m R show ?thesis by (intro exI [of _ "st\<lparr>is_read_begin_tsc := clock 0, read_buf := b'\<rparr>"]) simp
  qed
qed

section \<open>Registration\<close>

text \<open>
  An answer of \<^verbatim>\<open>accept\<close>: a descriptor, with whether \<^verbatim>\<open>fcntl\<close> and \<^verbatim>\<open>epoll_ctl\<close> then succeed for it.
  The list ends when \<^verbatim>\<open>accept\<close> fails. A connection whose set-up fails is closed again, which leaves
  no trace in the server's state.
\<close>

record accept_result =
  acc_fd :: fd
  acc_fcntl_ok :: bool
  acc_epoll_ok :: bool

definition register :: "fd \<Rightarrow> Server \<Rightarrow> Server res" where
  "register f s =
     (if FD_SLOTS \<le> f then fail Index_Out_Of_Range
      else ok (s\<lparr>condemned_inbound := (condemned_inbound s)(f := False),
                 condemned_outbound := (condemned_outbound s)(f := False),
                 outbound_map := (outbound_map s)(f := Some OutboundState_new),
                 inbound_map := (inbound_map s)(f := Some (InboundState_new f))\<rparr>))"

fun registerConnections :: "accept_result list \<Rightarrow> Server \<Rightarrow> Server res" where
  "registerConnections [] s = ok s"
| "registerConnections (a # as) s =
     (if \<not> acc_fcntl_ok a then registerConnections as s
      else case epoll_ctrl (acc_epoll_ok a) (epoll_in s) (acc_fd a) EPOLL_CTL_ADD of
        (rc, E) \<Rightarrow>
          if rc = - 1 then ok s
          else rbind (register (acc_fd a) (s\<lparr>epoll_in := E\<rparr>)) (registerConnections as))"

section \<open>The event loop\<close>

text \<open>One event of \<^verbatim>\<open>epoll_wait\<close>, with the kernel's answers to the calls its handler makes.\<close>

record in_event =
  ev_fd :: fd
  ev_hup :: bool
  ev_accepts :: "accept_result list"
  ev_clock :: "nat \<Rightarrow> Timestamp"
  ev_errno :: errno
  ev_recvs :: "recv_result list"

definition handle_in_event :: "fd \<Rightarrow> in_event \<Rightarrow> Server \<Rightarrow> Server res" where
  "handle_in_event listen_fd ev s =
     (if ev_fd ev = listen_fd then registerConnections (ev_accepts ev) s
      else if ev_hup ev
      then ok (s\<lparr>epoll_in := epoll_del (epoll_in s) (ev_fd ev),
                 condemned_inbound := (condemned_inbound s)(ev_fd ev := True)\<rparr>)
      else readAndProcessBytes (ev_clock ev) (ev_errno ev) (ev_recvs ev) (ev_fd ev) s)"

fun handle_in_events :: "fd \<Rightarrow> in_event list \<Rightarrow> Server \<Rightarrow> Server res" where
  "handle_in_events l [] s = ok s"
| "handle_in_events l (ev # evs) s = rbind (handle_in_event l ev s) (handle_in_events l evs)"

text \<open>
  The loop, over the answers of \<^verbatim>\<open>epoll_wait\<close>; with no answer left the thread is about to wait
  again. \<open>None\<close> as the listening socket is a failed set-up.
\<close>

fun request_loop :: "fd \<Rightarrow> in_event wait_result list \<Rightarrow> Server \<Rightarrow> Server res" where
  "request_loop l [] s = ok s"
| "request_loop l (w # ws) s =
     (if stop_flag s then ok s
      else let s1 = handleDisconnectsInbound s
           in case w of
                Interrupted \<Rightarrow> request_loop l ws s1
              | Wait_Failed \<Rightarrow> ok (s1\<lparr>stop_flag := True\<rparr>)
              | Events evs \<Rightarrow> rbind (handle_in_events l evs s1) (request_loop l ws))"

definition handleRequests :: "fd option \<Rightarrow> in_event wait_result list \<Rightarrow> Server \<Rightarrow> Server res" where
  "handleRequests listen ws s =
     (case listen of None \<Rightarrow> ok (s\<lparr>stop_flag := True\<rparr>) | Some l \<Rightarrow> request_loop l ws s)"

section \<open>Invariant\<close>

definition bufs_ok :: "Server \<Rightarrow> bool" where
  "bufs_ok s \<longleftrightarrow> (\<forall>f st. inbound_map s f = Some st \<longrightarrow> frame_aligned (read_buf st))"

lemma frame_aligned_new: "frame_aligned (read_buf (InboundState_new f))"
  by (simp add: frame_aligned_def InboundState_new_def Buffer_new_def read_inv_def)

lemma register_inv:
  assumes "close_inv s" and "inbound_map s f = None" and "f < FD_SLOTS" and "bufs_ok s"
  shows "\<exists>s'. register f (s\<lparr>epoll_in := insert f (epoll_in s)\<rparr>) = ok s' \<and> close_inv s' \<and> bufs_ok s'
     \<and> slot_view s' f = (Some (InboundState_new f), Some OutboundState_new, False, False)
     \<and> (\<forall>g. g \<noteq> f \<longrightarrow> slot_view s' g = slot_view s g)"
  using assms frame_aligned_new [of f]
  by (auto simp: register_def close_defs bufs_ok_def slot_view_def InboundState_new_def)

lemma accept_outcomes_inv [simp]: "close_inv (accept_outcomes f os s) = close_inv s"
  by (simp add: accept_outcomes_def close_inv_def slot_ok_def)

lemma store_inbound_inv:
  assumes "close_inv s" and "inbound_map s f = Some st" and "is_fd st' = is_fd st"
  shows "close_inv (s\<lparr>inbound_map := (inbound_map s)(f := Some st')\<rparr>)"
  using assms by (auto simp: close_inv_def slot_ok_def)

lemma read_inv_preserved:
  assumes "close_inv s" and "bufs_ok s"
    and "\<And>st. inbound_map s f = Some st \<Longrightarrow> recvs_ok (remaining_capacity (read_buf st)) rs"
  shows "\<exists>s'. readAndProcessBytes clock e rs f s = ok s' \<and> close_inv s' \<and> bufs_ok s' \<and> outbound_map s' = outbound_map s
     \<and> (\<forall>g. inbound_map s' g = None \<longleftrightarrow> inbound_map s g = None)"
proof (cases "condemned_inbound s f \<or> condemned_outbound s f \<or> inbound_map s f = None")
  case True
  then show ?thesis using assms by (auto simp: readAndProcessBytes_def split: option.splits)
next
  case False
  then obtain st where st: "inbound_map s f = Some st" "\<not> condemned_inbound s f" "\<not> condemned_outbound s f" by auto
  have al: "frame_aligned (read_buf st)" using assms(2) st(1) by (auto simp: bufs_ok_def)
  have fd: "is_fd st = f" using assms(1) st(1) by (auto simp: close_inv_def slot_ok_def)
  let ?bs = "buf_view (read_buf st) @ delivered (remaining_capacity (read_buf st)) rs"
  let ?os = "map (frame_outcome (clock 0)) (frames ?bs)"
  obtain st' where st': "frame_aligned (read_buf st')" "is_fd st' = is_fd st"
    and r: "readAndProcessBytes clock e rs f s = ok ((accept_outcomes f ?os s)\<lparr>inbound_map := (inbound_map s)(f := Some st')\<rparr>)
      \<or> readAndProcessBytes clock e rs f s = ok ((condemnConnection f True s)\<lparr>inbound_map := (inbound_map s)(f := Some st')\<rparr>)"
    using readAndProcessBytes_round [OF st al assms(3) [OF st(1)] refl refl, of e clock] unfolding fd by (metis (full_types))
  have c: "close_inv (condemnConnection f True s)" using condemn_inbound_inv [OF assms(1)] st(1) by simp
  have m: "inbound_map (accept_outcomes f ?os s) = inbound_map s" "inbound_map (condemnConnection f True s) = inbound_map s"
    and m': "outbound_map (accept_outcomes f ?os s) = outbound_map s" "outbound_map (condemnConnection f True s) = outbound_map s"
    by (simp_all add: accept_outcomes_def condemnConnection_def)
  have "bufs_ok ((accept_outcomes f ?os s)\<lparr>inbound_map := (inbound_map s)(f := Some st')\<rparr>)"
    "bufs_ok ((condemnConnection f True s)\<lparr>inbound_map := (inbound_map s)(f := Some st')\<rparr>)"
    using assms(2) st'(1) by (auto simp: bufs_ok_def)
  with r store_inbound_inv [OF _ _ st'(2), of "accept_outcomes f ?os s" f] store_inbound_inv [OF c _ st'(2), of f] assms(1) st(1)
  show ?thesis unfolding m by (auto simp: m')
qed

end
