(* ===== verification/Server_Outbound.thy ===== *)
theory Server_Outbound
  imports Server_State
begin

text \<open>
  The outbound thread of \<^verbatim>\<open>server/src/server.cpp\<close>: routing the engine's messages and the inbound
  thread's errors to connections, building response frames, sending them, and recording latencies.
  Configuration \<^verbatim>\<open>DIAGNOSTICS = 0\<close>.

  The answers of \<^verbatim>\<open>send\<close> on a non-blocking socket are a list; when it is used up the socket takes no
  more bytes and the call fails with \<^verbatim>\<open>EAGAIN\<close>. Besides the new state, the sending operations return
  the bytes the kernel took. \<^verbatim>\<open>writable_fds_\<close> is an unordered set: the order in which \<^verbatim>\<open>beginSends\<close>
  visits it is an argument.
\<close>

section \<open>Routing\<close>

definition resolve :: "Server \<Rightarrow> OutboundMessage \<Rightarrow> int" where
  "resolve s m =
     (case client_map s (om_client_id m) of
        None \<Rightarrow> - 1
      | Some f \<Rightarrow> if 0 < f then f else - 1)"

definition stage :: "fd \<Rightarrow> OutboundMessage \<Rightarrow> Server \<Rightarrow> Server" where
  "stage f m s =
     (if condemned_inbound s f then s
      else case outbound_map s f of
        None \<Rightarrow> s
      | Some out \<Rightarrow> s\<lparr>outbound_map := (outbound_map s)(f := Some (push_outbound m out)),
                       writable_fds := insert f (writable_fds s)\<rparr>)"

text \<open>
  The first loop, with the message in hand and its destination already looked up. The next message
  is popped and resolved before the current one is staged.
\<close>

partial_function (option) route_loop :: "OutboundMessage \<Rightarrow> int \<Rightarrow> Server \<Rightarrow> Server option" where
  "route_loop cur cur_fd s =
     (case ring_pop (sv_out_ring s) of
        (nxt, r) \<Rightarrow>
          let s1 = s\<lparr>sv_out_ring := r\<rparr>;
              nxt_fd = (case nxt of None \<Rightarrow> - 1 | Some m \<Rightarrow> resolve s1 m);
              s2 = (if 0 < cur_fd then stage (nat cur_fd) cur s1 else s1)
          in case nxt of None \<Rightarrow> Some s2 | Some m \<Rightarrow> route_loop m nxt_fd s2)"

definition error_message :: "ServerError \<Rightarrow> OutboundMessage" where
  "error_message e = OutboundMessage_zero\<lparr>om_status := FAILURE, om_server_error := e\<rparr>"

partial_function (option) drain_errors :: "Server \<Rightarrow> Server option" where
  "drain_errors s =
     (case ring_pop (error_channel s) of
        (None, r) \<Rightarrow> Some (s\<lparr>error_channel := r\<rparr>)
      | (Some pe, r) \<Rightarrow> drain_errors (stage (pe_fd pe) (error_message (pe_err pe)) (s\<lparr>error_channel := r\<rparr>)))"

definition routeOutboundMessages :: "Server \<Rightarrow> Server option" where
  "routeOutboundMessages s =
     Option.bind
       (case ring_pop (sv_out_ring s) of
          (None, r) \<Rightarrow> Some (s\<lparr>sv_out_ring := r\<rparr>)
        | (Some cur, r) \<Rightarrow> route_loop cur (resolve s cur) (s\<lparr>sv_out_ring := r\<rparr>))
       drain_errors"

declare route_loop.simps [code] drain_errors.simps [code]

section \<open>Responses\<close>

definition appendResponse :: "OutboundState \<Rightarrow> OutboundState" where
  "appendResponse out =
     (case pop_outbound out of
        (msg, out1) \<Rightarrow>
          let out2 = out1\<lparr>write_buf := snd (buf_append (response_frame msg) (write_buf out1))\<rparr>;
              rec = (om_server_error msg = NONE \<and> om_message_type msg \<noteq> MATCH);
              e = PendingLatency_zero\<lparr>pl_read_begin_tsc := om_read_begin_tsc msg, pl_record := rec\<rparr>
          in push_latency e out2)"

function append_responses :: "OutboundState \<Rightarrow> OutboundState" where
  "append_responses out =
     (if has_pending_outbound out \<and> has_room OUTBOUND_BSIZE (write_buf out)
      then append_responses (appendResponse out) else out)"
  by pat_completeness auto
termination
proof (relation "measure (\<lambda>out. remaining_capacity (write_buf out))", goal_cases)
  case (2 out)
  obtain msg out1 where p: "pop_outbound out = (msg, out1)" by fastforce
  then have w: "write_buf out1 = write_buf out" by (auto simp: pop_outbound_def split: option.splits prod.splits)
  have l: "buf_len (write_buf out) + length (response_frame msg) \<le> capacity (write_buf out)"
    using 2 by (simp add: has_room_def)
  show ?case using 2 p w overwrite_simps(1) [OF l]
    by (auto simp: appendResponse_def Let_def push_latency_def remaining_capacity_def buf_append_def has_room_def OUTBOUND_BSIZE_def)
qed simp

declare append_responses.simps [simp del]

definition finishBatch :: "Timestamp \<Rightarrow> OutboundState \<Rightarrow> LatencyHandler \<Rightarrow> OutboundState \<times> LatencyHandler" where
  "finishBatch t7 out h =
     (let recorded = filter pl_record (take (latency_count out) (latency_batch out));
          ss = map (\<lambda>e. LatencySample_zero\<lparr>ls_t0 := pl_read_begin_tsc e, ls_t7 := t7\<rparr>) recorded;
          out1 = clear_latency_batch out
      in (out1\<lparr>write_buf := try_reset (write_buf out1)\<rparr>, fold push_sample ss h))"

definition errno_send :: "send_result \<Rightarrow> errno \<Rightarrow> errno" where
  "errno_send r e = (case r of Send_Failed e' \<Rightarrow> e' | _ \<Rightarrow> e)"

fun send_loop :: "errno \<Rightarrow> send_result list \<Rightarrow> Buffer \<Rightarrow> send_status \<times> byte list \<times> Buffer" where
  "send_loop e [] b = (if remaining_to_send b = 0 then Send_Done else Send_Blocked, [], b)"
| "send_loop e (r # rs) b =
     (if remaining_to_send b = 0 then (Send_Done, [], b)
      else case write_to r b of
        (n, b') \<Rightarrow>
          if n \<le> 0 then (if errno_send r e = EAGAIN then Send_Blocked else Send_Fatal, [], b')
          else case send_loop (errno_send r e) rs b' of (status, sent, b'') \<Rightarrow> (status, kernel_takes r b @ sent, b''))"

text \<open>The kernel's answers to the calls of one \<^verbatim>\<open>sendResponse\<close>.\<close>

record send_calls =
  sc_errno :: errno
  sc_sends :: "send_result list"
  sc_epoll_ok :: bool
  sc_tsc :: Timestamp

text \<open>
  \<^verbatim>\<open>sendResponse\<close> on the connection's state and the server; the result is the flag it returns, the
  bytes the kernel took, and the two states.
\<close>

definition sendResponse :: "send_calls \<Rightarrow> fd \<Rightarrow> OutboundState \<Rightarrow> Server \<Rightarrow> bool \<times> byte list \<times> OutboundState \<times> Server" where
  "sendResponse k f out s =
     (case send_loop (sc_errno k) (sc_sends k) (write_buf out) of
        (Send_Fatal, sent, b) \<Rightarrow> (False, sent, out\<lparr>write_buf := b\<rparr>, s)
      | (Send_Blocked, sent, b) \<Rightarrow>
          (True, sent, out\<lparr>write_buf := b\<rparr>,
           if \<not> epollout_armed s f
           then (case epoll_ctrl (sc_epoll_ok k) (epoll_out s) f EPOLL_CTL_ADD of
                   (rc, E) \<Rightarrow> s\<lparr>epoll_out := E, epollout_armed := (epollout_armed s)(f := (rc = 0))\<rparr>)
           else s)
      | (Send_Done, sent, b) \<Rightarrow>
          (case finishBatch (sc_tsc k) (out\<lparr>write_buf := b\<rparr>) (latency_handler s) of
             (out', h) \<Rightarrow> (True, sent, out', s\<lparr>latency_handler := h\<rparr>)))"

section \<open>Sending\<close>

text \<open>
  One visit of \<^verbatim>\<open>beginSends\<close>. \<^verbatim>\<open>condemned_inbound_\<close> is read again after the send; \<open>condemned_now\<close> is
  what that second read returns.
\<close>

abbreviation erase_writable :: "fd \<Rightarrow> Server \<Rightarrow> Server" where
  "erase_writable f s \<equiv> s\<lparr>writable_fds := writable_fds s - {f}\<rparr>"

definition put_outbound :: "fd \<Rightarrow> OutboundState \<Rightarrow> Server \<Rightarrow> Server" where
  "put_outbound f out s = s\<lparr>outbound_map := (outbound_map s)(f := Some out)\<rparr>"

definition send_pending :: "send_calls \<Rightarrow> fd \<Rightarrow> OutboundState \<Rightarrow> Server \<Rightarrow> bool \<times> byte list \<times> OutboundState \<times> Server" where
  "send_pending k f out s =
     (if 0 < remaining_to_send (write_buf out) then sendResponse k f out s else (True, [], out, s))"

definition send_visit :: "send_calls \<Rightarrow> bool \<Rightarrow> fd \<Rightarrow> Server \<Rightarrow> byte list \<times> Server" where
  "send_visit k condemned_now f s =
     (if condemned_inbound s f then ([], erase_writable f s)
      else case outbound_map s f of
        None \<Rightarrow> ([], erase_writable f s)
      | Some out0 \<Rightarrow>
          (case send_pending k f (append_responses out0) s of
             (good, sent, out, s1) \<Rightarrow>
               (sent,
                if \<not> good then condemnConnection f False (erase_writable f (put_outbound f out s1))
                else if condemned_now then erase_writable f (put_outbound f out s1)
                else if remaining_to_send (write_buf out) = 0 \<and> \<not> has_pending_outbound out
                then erase_writable f (put_outbound f out s1)
                else put_outbound f out s1)))"

fun beginSends :: "(fd \<Rightarrow> send_calls) \<Rightarrow> (fd \<Rightarrow> bool) \<Rightarrow> fd list \<Rightarrow> Server \<Rightarrow> (fd \<times> byte list) list \<times> Server" where
  "beginSends k c [] s = ([], s)"
| "beginSends k c (f # fs) s =
     (case send_visit (k f) (c f) f s of
        (sent, s1) \<Rightarrow> case beginSends k c fs s1 of (wire, s2) \<Rightarrow> ((f, sent) # wire, s2))"

section \<open>The event loop\<close>

record out_event =
  oe_fd :: fd
  oe_hup :: bool
  oe_calls :: send_calls

definition handle_out_event :: "out_event \<Rightarrow> Server \<Rightarrow> (fd \<times> byte list) \<times> Server" where
  "handle_out_event ev s =
     (let f = oe_fd ev
      in if condemned_inbound s f then ((f, []), s)
         else if oe_hup ev
         then ((f, []), condemnConnection f False (if f \<in> writable_fds s then s\<lparr>writable_fds := writable_fds s - {f}\<rparr> else s))
         else case outbound_map s f of
           None \<Rightarrow> ((f, []), s)
         | Some out \<Rightarrow>
             (case sendResponse (oe_calls ev) f out s of
                (good, sent, out1, s1) \<Rightarrow>
                  let s2 = put_outbound f out1 s1
                  in ((f, sent),
                      if \<not> good then condemnConnection f False s2
                      else if epollout_armed s2 f \<and> remaining_to_send (write_buf out1) = 0
                      then s2\<lparr>epoll_out := epoll_del (epoll_out s2) f, epollout_armed := (epollout_armed s2)(f := False)\<rparr>
                      else s2)))"

fun handle_out_events :: "out_event list \<Rightarrow> Server \<Rightarrow> (fd \<times> byte list) list \<times> Server" where
  "handle_out_events [] s = ([], s)"
| "handle_out_events (ev # evs) s =
     (case handle_out_event ev s of
        (w, s1) \<Rightarrow> case handle_out_events evs s1 of (ws, s2) \<Rightarrow> (w # ws, s2))"

text \<open>
  One round of \<^verbatim>\<open>serveResponses\<close>: the iteration order of the hash set, the kernel's answers for the
  sends, the second read of the flags, and the answer of \<^verbatim>\<open>epoll_wait\<close>. The result collects the bytes
  handed to the kernel, per descriptor.
\<close>

record out_round =
  or_order :: "fd set \<Rightarrow> fd list"
  or_calls :: "fd \<Rightarrow> send_calls"
  or_condemned_now :: "fd \<Rightarrow> bool"
  or_wait :: "out_event wait_result"

fun serveResponses :: "out_round list \<Rightarrow> Server \<Rightarrow> ((fd \<times> byte list) list \<times> Server) option" where
  "serveResponses [] s = Some ([], s)"
| "serveResponses (r # rs) s =
     (if stop_flag s then Some ([], s)
      else Option.bind (routeOutboundMessages (handleDisconnectsOutbound s)) (\<lambda>s1.
        case beginSends (or_calls r) (or_condemned_now r) (or_order r (writable_fds s1)) s1 of
          (w1, s2) \<Rightarrow>
            (case or_wait r of
               Wait_Failed \<Rightarrow> Some (w1, s2)
             | Interrupted \<Rightarrow> map_option (\<lambda>(w, s'). (w1 @ w, s')) (serveResponses rs s2)
             | Events evs \<Rightarrow>
                 (case handle_out_events evs s2 of
                    (w2, s3) \<Rightarrow> map_option (\<lambda>(w, s'). (w1 @ w2 @ w, s')) (serveResponses rs s3)))))"

section \<open>The byte stream of a connection\<close>

text \<open>
  The latency batch has one entry per frame in the write buffer, which is why it never overruns.
\<close>

definition batch_inv :: "OutboundState \<Rightarrow> bool" where
  "batch_inv out \<longleftrightarrow> out_inv out \<and> buf_len (write_buf out) = OUTBOUND_BSIZE * latency_count out"

text \<open>What is still to be sent: the unsent bytes and the frames of the staged messages.\<close>

definition pending_bytes :: "OutboundState \<Rightarrow> byte list" where
  "pending_bytes out = unsent (write_buf out) @ concat (map response_frame (ring_contents (staging out)))"

lemma batch_inv_new: "batch_inv OutboundState_new" and pending_new: "pending_bytes OutboundState_new = []"
proof -
  show "batch_inv OutboundState_new"
    using OutboundState_new_inv by (simp add: batch_inv_def OutboundState_new_def Buffer_new_def)
  show "pending_bytes OutboundState_new = []"
    unfolding pending_bytes_def staging_new by (simp add: OutboundState_new_def)
qed

lemma push_outbound_batch:
  assumes "batch_inv out"
  shows "batch_inv (push_outbound m out)"
    and "pending_bytes (push_outbound m out) =
      pending_bytes out @ (if length (ring_contents (staging out)) < 63 then response_frame m else [])"
proof -
  have I: "out_inv out" using assms by (simp add: batch_inv_def)
  show "batch_inv (push_outbound m out)"
    using assms push_outbound_inv [OF I, of m] by (simp add: batch_inv_def push_outbound_def)
  have "length (ring_contents (staging out)) \<le> 63"
    using I ring.within_cap [of "staging out"] by (simp add: out_inv_def)
  then show "pending_bytes (push_outbound m out) =
      pending_bytes out @ (if length (ring_contents (staging out)) < 63 then response_frame m else [])"
    using push_outbound_contents [OF I, of m] by (simp add: pending_bytes_def push_outbound_def)
qed

lemma appendResponse_batch:
  assumes "batch_inv out" and "has_pending_outbound out" and "has_room OUTBOUND_BSIZE (write_buf out)"
  shows "batch_inv (appendResponse out) \<and> pending_bytes (appendResponse out) = pending_bytes out"
proof -
  have I: "out_inv out" using assms(1) by (simp add: batch_inv_def)
  then obtain msg msgs where c: "ring_contents (staging out) = msg # msgs"
    using has_pending_iff assms(2) by (cases "ring_contents (staging out)") auto
  obtain out1 where p: "pop_outbound out = (msg, out1)" "out_inv out1" "ring_contents (staging out1) = msgs"
    "write_buf out1 = write_buf out" "latency_count out1 = latency_count out" "latency_batch out1 = latency_batch out"
    using pop_outbound_front [OF I c] by blast
  have w: "write_inv (write_buf out)" "capacity (write_buf out) = 1024" "length (latency_batch out) = 32"
    using I by (simp_all add: out_inv_def PIPELINE_DEPTH_def OUTBOUND_BSIZE_def)
  have l: "length (response_frame msg) \<le> remaining_capacity (write_buf out)"
    using assms(3) by (simp add: has_room_def remaining_capacity_def)
  note a = append_unsent [OF w(1) l]
  have room: "buf_len (write_buf out) + 32 \<le> capacity (write_buf out)" using assms(3) by (simp add: has_room_def OUTBOUND_BSIZE_def)
  then have n: "latency_count out < 32" using assms(1) w(2) by (simp add: batch_inv_def OUTBOUND_BSIZE_def)
  have b: "snd (buf_append (response_frame msg) (write_buf out)) = write_buf out
      \<lparr>buf_data := overwrite (buf_data (write_buf out)) (buf_len (write_buf out)) (response_frame msg), buf_len := buf_len (write_buf out) + 32\<rparr>"
    using room by (simp add: buf_append_def has_room_def OUTBOUND_BSIZE_def)
  have cap: "capacity (snd (buf_append (response_frame msg) (write_buf out))) = 1024"
    using overwrite_simps(1) [of "buf_len (write_buf out)" "response_frame msg"] room w(2) unfolding b by (simp add: OUTBOUND_BSIZE_def)
  show ?thesis using assms(1) p a w n c cap
    by (simp add: appendResponse_def Let_def push_latency_def batch_inv_def out_inv_def pending_bytes_def PIPELINE_DEPTH_def
        OUTBOUND_BSIZE_def b)
qed

lemma append_responses_batch:
  assumes "batch_inv out"
  shows "batch_inv (append_responses out) \<and> pending_bytes (append_responses out) = pending_bytes out
    \<and> (has_pending_outbound (append_responses out) \<longrightarrow> \<not> has_room OUTBOUND_BSIZE (write_buf (append_responses out)))"
  using assms
proof (induction out rule: append_responses.induct)
  case (1 out)
  show ?case
  proof (cases "has_pending_outbound out \<and> has_room OUTBOUND_BSIZE (write_buf out)")
    case True
    with 1(1) [OF True] appendResponse_batch [OF 1(2)] show ?thesis by (simp add: append_responses.simps [of out])
  next
    case False
    then show ?thesis using 1(2) by (auto simp: append_responses.simps [of out])
  qed
qed

lemma send_loop_stream:
  assumes "write_inv b" and "sends_ok (remaining_to_send b) rs" and "send_loop e rs b = (status, sent, b')"
  shows "write_inv b' \<and> unsent b = sent @ unsent b' \<and> buf_len b' = buf_len b \<and> capacity b' = capacity b
     \<and> (status = Send_Done \<longleftrightarrow> remaining_to_send b' = 0)"
  using assms
proof (induction e rs b arbitrary: status sent b' rule: send_loop.induct)
  case (1 e b)
  then show ?case by (auto split: if_splits)
next
  case (2 e r rs b)
  show ?case
  proof (cases "remaining_to_send b = 0")
    case True
    then show ?thesis using 2(2,4) by auto
  next
    case False
    show ?thesis
    proof (cases r)
      case (Sent k)
      with 2(3) False have k: "0 < k" "k \<le> remaining_to_send b" "sends_ok (remaining_to_send b - k) rs" by auto
      let ?b = "b\<lparr>bytes_written := bytes_written b + k\<rparr>"
      have w: "write_to r b = (int k, ?b)" by (simp add: Sent write_to_def)
      obtain sent1 where s: "send_loop (errno_send r e) rs ?b = (status, sent1, b')" "sent = take k (unsent b) @ sent1"
        using 2(4) False w k(1) by (auto simp: kernel_takes_def Sent split: prod.splits)
      have u: "write_inv ?b" "unsent ?b = drop k (unsent b)" using write_unsent [OF 2(2) k(2)] by (simp_all add: write_to_def)
      have "remaining_to_send ?b = remaining_to_send b - k" by (simp add: remaining_to_send_def)
      with 2(1) [OF False w [symmetric] _ u(1) _ s(1)] k
      have "write_inv b' \<and> unsent ?b = sent1 @ unsent b' \<and> buf_len b' = buf_len b \<and> capacity b' = capacity b
        \<and> (status = Send_Done \<longleftrightarrow> remaining_to_send b' = 0)" by simp
      then show ?thesis unfolding s(2) u(2) by (metis append.assoc append_take_drop_id)
    next
      case (Send_Failed e')
      then show ?thesis using 2(2,4) False by (auto simp: write_to_def split: if_splits)
    qed
  qed
qed

lemma finishBatch_batch:
  assumes "batch_inv out" and "remaining_to_send (write_buf out) = 0"
  shows "batch_inv (fst (finishBatch t7 out h))" and "pending_bytes (fst (finishBatch t7 out h)) = pending_bytes out"
    and "staging (fst (finishBatch t7 out h)) = staging out"
proof -
  have w: "write_inv (write_buf out)" "bytes_written (write_buf out) = buf_len (write_buf out)"
    using assms by (auto simp: batch_inv_def out_inv_def write_inv_def remaining_to_send_def)
  note r = try_reset_unsent [OF w(1)]
  have "buf_len (try_reset (write_buf out)) = 0" "capacity (try_reset (write_buf out)) = capacity (write_buf out)"
    using w(2) by (simp_all add: try_reset_def)
  with assms r show "batch_inv (fst (finishBatch t7 out h))" "pending_bytes (fst (finishBatch t7 out h)) = pending_bytes out"
    "staging (fst (finishBatch t7 out h)) = staging out"
    by (simp_all add: finishBatch_def Let_def batch_inv_def out_inv_def clear_latency_batch_def pending_bytes_def)
qed

lemma sendResponse_stream:
  assumes "batch_inv out" and "sends_ok (remaining_to_send (write_buf out)) (sc_sends k)"
    and "sendResponse k f out s = (good, sent, out', s')"
  shows "batch_inv out' \<and> pending_bytes out = sent @ pending_bytes out' \<and> staging out' = staging out
     \<and> outbound_map s' = outbound_map s \<and> writable_fds s' = writable_fds s
     \<and> condemned_inbound s' = condemned_inbound s \<and> condemned_outbound s' = condemned_outbound s
     \<and> inbound_map s' = inbound_map s"
proof -
  obtain st sent1 b where l: "send_loop (sc_errno k) (sc_sends k) (write_buf out) = (st, sent1, b)" by (metis prod_cases3)
  have w: "write_inv (write_buf out)" using assms(1) by (simp add: batch_inv_def out_inv_def)
  note b = send_loop_stream [OF w assms(2) l]
  let ?out = "out\<lparr>write_buf := b\<rparr>"
  have o: "batch_inv ?out" "pending_bytes out = sent1 @ pending_bytes ?out"
    using assms(1) b by (simp_all add: batch_inv_def out_inv_def pending_bytes_def)
  show ?thesis
  proof (cases st)
    case Send_Done
    then have "remaining_to_send (write_buf ?out) = 0" using b by simp
    note fb = finishBatch_batch [OF o(1) this, of "sc_tsc k" "latency_handler s"]
    show ?thesis using assms(3) l Send_Done fb o(2) by (auto simp: sendResponse_def split: prod.splits)
  qed (use assms(3) l o in \<open>auto simp: sendResponse_def split: if_splits prod.splits\<close>)
qed

lemma sendResponse_inv:
  assumes "close_inv s" and "outbound_map s f \<noteq> None" and "sendResponse k f out s = (good, sent, out', s')"
  shows "close_inv s'"
  using assms
  by (auto simp: sendResponse_def close_inv_def slot_ok_def epoll_ctrl_def split: send_status.splits prod.splits if_splits)

section \<open>The threads' invariant\<close>

definition outs_ok :: "Server \<Rightarrow> bool" where
  "outs_ok s \<longleftrightarrow> (\<forall>f out. outbound_map s f = Some out \<longrightarrow> batch_inv out)"

lemma store_outbound_inv:
  assumes "close_inv s" and "outbound_map s f \<noteq> None"
  shows "close_inv (put_outbound f out s)"
  using assms by (auto simp: close_inv_def slot_ok_def put_outbound_def)

lemma erase_writable_inv: "close_inv s \<Longrightarrow> close_inv (erase_writable f s)"
  by (auto simp: close_inv_def slot_ok_def)

lemma store_outs_ok: "outs_ok s \<Longrightarrow> batch_inv out \<Longrightarrow> outs_ok (put_outbound f out s)"
  by (auto simp: outs_ok_def put_outbound_def)

lemma condemn_outs_ok: "outs_ok s \<Longrightarrow> outs_ok (condemnConnection f b s)"
  by (auto simp: outs_ok_def condemnConnection_def Let_def)

lemma stage_ok:
  assumes "close_inv s" and "outs_ok s"
  shows "close_inv (stage f m s) \<and> outs_ok (stage f m s)"
  using assms push_outbound_batch(1)
  by (auto simp: stage_def close_inv_def slot_ok_def outs_ok_def split: option.splits)

text \<open>
  The stream law of a visit or an event: the connection's pending bytes are what the kernel took,
  followed by what is pending afterwards, as long as the connection survives; other connections are
  untouched.
\<close>

definition stream_step :: "fd \<Rightarrow> byte list \<Rightarrow> Server \<Rightarrow> Server \<Rightarrow> bool" where
  "stream_step f sent s s' \<longleftrightarrow>
     (case (outbound_map s f, outbound_map s' f) of
        (Some out, Some out') \<Rightarrow> pending_bytes out = sent @ pending_bytes out'
      | (Some out, None) \<Rightarrow> (\<exists>rest. pending_bytes out = sent @ rest)
      | (None, Some out') \<Rightarrow> False
      | (None, None) \<Rightarrow> sent = [])
   \<and> (\<forall>g. g \<noteq> f \<longrightarrow> outbound_map s' g = outbound_map s g)"

definition calls_ok :: "send_calls \<Rightarrow> OutboundState \<Rightarrow> bool" where
  "calls_ok k out \<longleftrightarrow> sends_ok (remaining_to_send (write_buf out)) (sc_sends k)"

lemma condemn_out_map: "outbound_map (condemnConnection f False s) = (outbound_map s)(f := None)"
  by (simp add: condemnConnection_def Let_def)

text \<open>What follows a send: the state is stored, and the connection kept, taken off the list or condemned.\<close>

lemma after_send:
  assumes "close_inv s" and "outs_ok s" and m: "outbound_map s f = Some out0"
    and "batch_inv out" and "pending_bytes out = pending_bytes out0" and "calls_ok k out"
    and q: "send_pending k f out s = (good, sent, out1, s1) \<or> sendResponse k f out s = (good, sent, out1, s1)"
    and s': "s' \<in> {put_outbound f out1 s1, erase_writable f (put_outbound f out1 s1),
       condemnConnection f False (put_outbound f out1 s1), condemnConnection f False (erase_writable f (put_outbound f out1 s1))}"
  shows "close_inv s' \<and> outs_ok s' \<and> stream_step f sent s s'"
proof -
  have q': "(good = True \<and> sent = [] \<and> out1 = out \<and> s1 = s) \<or> sendResponse k f out s = (good, sent, out1, s1)"
    using q by (simp add: send_pending_def split: if_splits) blast
  have st: "batch_inv out1 \<and> pending_bytes out = sent @ pending_bytes out1 \<and> outbound_map s1 = outbound_map s \<and> close_inv s1"
    using q'
  proof
    assume "sendResponse k f out s = (good, sent, out1, s1)"
    from sendResponse_stream [OF assms(4) _ this] sendResponse_inv [OF assms(1) _ this] m assms(6)
    show ?thesis by (simp add: calls_ok_def)
  qed (use assms(1,4) in simp)
  let ?s = "put_outbound f out1 s1"
  have m2: "outbound_map ?s = (outbound_map s)(f := Some out1)" using st by (simp add: put_outbound_def)
  have c: "close_inv ?s" by (rule store_outbound_inv) (use st m in simp_all)
  have o: "outs_ok ?s" using assms(2) st m2 by (simp add: outs_ok_def)
  have e: "close_inv (erase_writable f ?s)" "outs_ok (erase_writable f ?s)"
    using erase_writable_inv [OF c] o by (simp_all add: outs_ok_def)
  have d: "close_inv (condemnConnection f False ?s)" "close_inv (condemnConnection f False (erase_writable f ?s))"
    by (rule condemn_outbound_inv [OF c], simp add: m2, rule condemn_outbound_inv [OF e(1)], simp add: m2)
  have "close_inv s' \<and> outs_ok s'"
    using s' c o e d condemn_outs_ok [OF e(2), of f False] condemn_outs_ok [OF o, of f False] by blast
  moreover have "outbound_map s' = (outbound_map s)(f := Some out1) \<or> outbound_map s' = (outbound_map s)(f := None)"
    using s' by (elim insertE) (simp_all add: condemn_out_map m2)
  then have "stream_step f sent s s'" using st assms(5) m by (elim disjE) (simp_all add: stream_step_def)
  ultimately show ?thesis by blast
qed

lemma unsent_nothing:
  assumes "close_inv s" and "outs_ok s" and "outbound_map s' = outbound_map s" and "close_inv s'"
  shows "close_inv s' \<and> outs_ok s' \<and> stream_step f [] s s'"
  using assms by (auto simp: outs_ok_def stream_step_def split: option.splits)

lemma send_visit_stream:
  assumes "close_inv s" and "outs_ok s"
    and k: "\<And>out. outbound_map s f = Some out \<Longrightarrow> calls_ok k (append_responses out)"
    and r: "send_visit k c f s = (sent, s')"
  shows "close_inv s' \<and> outs_ok s' \<and> stream_step f sent s s'"
proof (cases "condemned_inbound s f \<or> outbound_map s f = None")
  case True
  then have "sent = []" "s' = erase_writable f s" using r by (auto simp: send_visit_def split: option.splits)
  then show ?thesis using unsent_nothing [OF assms(1,2), of s'] erase_writable_inv [OF assms(1)] by simp
next
  case False
  then obtain out0 where m: "outbound_map s f = Some out0" "\<not> condemned_inbound s f" by auto
  have o: "batch_inv (append_responses out0)" "pending_bytes (append_responses out0) = pending_bytes out0"
    using append_responses_batch [of out0] assms(2) m(1) by (auto simp: outs_ok_def)
  obtain good sent1 out1 s1 where q: "send_pending k f (append_responses out0) s = (good, sent1, out1, s1)" by (metis prod_cases4)
  have "sent = sent1" and "s' \<in> {put_outbound f out1 s1, erase_writable f (put_outbound f out1 s1),
       condemnConnection f False (put_outbound f out1 s1), condemnConnection f False (erase_writable f (put_outbound f out1 s1))}"
    using r m q by (auto simp: send_visit_def)
  then show ?thesis using after_send [OF assms(1,2) m(1) o k [OF m(1)]] q by blast
qed

lemma handle_out_event_stream:
  assumes "close_inv s" and "outs_ok s" and m: "outbound_map s (oe_fd ev) = Some out"
    and k: "calls_ok (oe_calls ev) out" and r: "handle_out_event ev s = ((f, sent), s')"
  shows "f = oe_fd ev \<and> close_inv s' \<and> outs_ok s' \<and> stream_step f sent s s'"
proof -
  let ?f = "oe_fd ev"
  have o: "batch_inv out" using assms(2) m by (auto simp: outs_ok_def)
  consider (condemned) "condemned_inbound s ?f" | (hup) "\<not> condemned_inbound s ?f" "oe_hup ev"
    | (send) "\<not> condemned_inbound s ?f" "\<not> oe_hup ev" by blast
  then show ?thesis
  proof cases
    case condemned
    then show ?thesis using r unsent_nothing [OF assms(1,2) refl assms(1)] by (auto simp: handle_out_event_def Let_def)
  next
    case hup
    define t where "t = (if ?f \<in> writable_fds s then erase_writable ?f s else s)"
    have t: "close_inv t" "outs_ok t" "outbound_map t = outbound_map s"
      using assms(1,2) erase_writable_inv [OF assms(1), of ?f] by (simp_all add: t_def outs_ok_def)
    have s': "f = ?f" "sent = []" "s' = condemnConnection ?f False t"
      using r hup by (auto simp: handle_out_event_def Let_def t_def)
    have "close_inv s'" unfolding s'(3) by (rule condemn_outbound_inv [OF t(1)]) (simp add: t(3) m)
    moreover have "outs_ok s'" unfolding s'(3) by (rule condemn_outs_ok [OF t(2)])
    moreover have "stream_step ?f [] s s'" unfolding s'(3) using m by (simp add: stream_step_def condemn_out_map t(3))
    ultimately show ?thesis using s' by simp
  next
    case send
    obtain good sent1 out1 s1 where q: "sendResponse (oe_calls ev) ?f out s = (good, sent1, out1, s1)" by (metis prod_cases4)
    define s2 where "s2 = put_outbound ?f out1 s1"
    have s': "f = ?f" "sent = sent1"
      "s' = (if \<not> good then condemnConnection ?f False s2
             else if epollout_armed s2 ?f \<and> remaining_to_send (write_buf out1) = 0
             then s2\<lparr>epoll_out := epoll_del (epoll_out s2) ?f, epollout_armed := (epollout_armed s2)(?f := False)\<rparr> else s2)"
      using r send m q by (auto simp: handle_out_event_def Let_def s2_def)
    have L: "t \<in> {s2, condemnConnection ?f False s2} \<Longrightarrow> close_inv t \<and> outs_ok t \<and> stream_step ?f sent1 s t" for t
      using after_send [OF assms(1,2) m o refl k, of good sent1 out1 s1 t] q unfolding s2_def by blast
    define s3 where "s3 = s2\<lparr>epoll_out := epoll_del (epoll_out s2) ?f, epollout_armed := (epollout_armed s2)(?f := False)\<rparr>"
    have m3: "outbound_map s3 = outbound_map s2" by (simp add: s3_def)
    have "close_inv s3" using L [of s2] by (auto simp: s3_def close_inv_def slot_ok_def epoll_ctrl_def)
    moreover have "outs_ok s3" "stream_step ?f sent1 s s3"
      using L [of s2] by (simp_all add: outs_ok_def stream_step_def m3)
    moreover have "s' = s2 \<or> s' = s3 \<or> s' = condemnConnection ?f False s2" using s'(3) unfolding s3_def by presburger
    ultimately show ?thesis using L [of s'] s'(1,2) by blast
  qed
qed

section \<open>Routing delivers everything\<close>

text \<open>The reference: each message is staged for the connection its client was last seen on.\<close>

definition route_one :: "OutboundMessage \<Rightarrow> Server \<Rightarrow> Server" where
  "route_one m s = (if 0 < resolve s m then stage (nat (resolve s m)) m s else s)"

definition stage_error :: "PendingError \<Rightarrow> Server \<Rightarrow> Server" where
  "stage_error pe s = stage (pe_fd pe) (error_message (pe_err pe)) s"

lemma stage_frame [simp]:
  "client_map (stage f m s) = client_map s" "sv_out_ring (stage f m s) = sv_out_ring s"
  "error_channel (stage f m s) = error_channel s" "resolve (stage f m s) = resolve s"
  "stage f m (s\<lparr>sv_out_ring := r\<rparr>) = (stage f m s)\<lparr>sv_out_ring := r\<rparr>"
  "stage f m (s\<lparr>error_channel := r'\<rparr>) = (stage f m s)\<lparr>error_channel := r'\<rparr>"
  by (auto simp: stage_def resolve_def fun_eq_iff split: option.splits)

lemma route_one_frame [simp]:
  "resolve (s\<lparr>sv_out_ring := r\<rparr>) = resolve s" "resolve (route_one m s) = resolve s"
  "sv_out_ring (route_one m s) = sv_out_ring s"
  "error_channel (route_one m s) = error_channel s"
  "route_one m (s\<lparr>sv_out_ring := r\<rparr>) = (route_one m s)\<lparr>sv_out_ring := r\<rparr>"
  by (auto simp: route_one_def resolve_def fun_eq_iff)

lemma route_loop_routes:
  assumes "ring_inv (sv_out_ring s)" and "ring_contents (sv_out_ring s) = ms" and "c = resolve s m"
  shows "\<exists>r. route_loop m c s = Some ((fold route_one (m # ms) s)\<lparr>sv_out_ring := r\<rparr>) \<and> ring_inv r \<and> ring_contents r = []"
  using assms
proof (induction ms arbitrary: s m c)
  case Nil
  then have "ring_pop (sv_out_ring s) = (None, sv_out_ring s)" by (simp add: ring.pop_empty)
  then show ?case using Nil by (subst route_loop.simps) (auto simp: route_one_def Let_def intro!: exI [of _ "sv_out_ring s"])
next
  case (Cons n ns)
  obtain r where r: "ring_pop (sv_out_ring s) = (Some n, r)" "ring_inv r" "ring_contents r = ns"
    using ring.pop_front [OF Cons.prems(1,2)] ring.inv_pop [OF Cons.prems(1)] by (metis prod.collapse)
  let ?s = "(route_one m s)\<lparr>sv_out_ring := r\<rparr>"
  have l: "route_loop m c s = route_loop n (resolve s n) ?s"
    using r(1) Cons.prems(3) by (subst route_loop.simps) (simp add: Let_def route_one_def)
  have fr: "fold route_one xs (t\<lparr>sv_out_ring := r\<rparr>) = (fold route_one xs t)\<lparr>sv_out_ring := r\<rparr>" for xs t r
    by (induction xs arbitrary: t) simp_all
  show ?case using Cons.IH [of ?s "resolve s n" n] r unfolding l by (auto simp: fr)
qed

lemma drain_errors_stages:
  assumes "ring_inv (error_channel s)" and "ring_contents (error_channel s) = es"
  shows "\<exists>r. drain_errors s = Some ((fold stage_error es s)\<lparr>error_channel := r\<rparr>) \<and> ring_inv r \<and> ring_contents r = []"
  using assms
proof (induction es arbitrary: s)
  case Nil
  then have "ring_pop (error_channel s) = (None, error_channel s)" by (simp add: ring.pop_empty)
  then show ?case using Nil by (subst drain_errors.simps) (auto intro!: exI [of _ "error_channel s"])
next
  case (Cons e es)
  obtain r where r: "ring_pop (error_channel s) = (Some e, r)" "ring_inv r" "ring_contents r = es"
    using ring.pop_front [OF Cons.prems] ring.inv_pop [OF Cons.prems(1)] by (metis prod.collapse)
  have l: "drain_errors s = drain_errors ((stage_error e s)\<lparr>error_channel := r\<rparr>)"
    using r(1) by (subst drain_errors.simps) (simp add: stage_error_def)
  have fr: "fold stage_error xs (t\<lparr>error_channel := r\<rparr>) = (fold stage_error xs t)\<lparr>error_channel := r\<rparr>" for xs t r
    by (induction xs arbitrary: t) (simp_all add: stage_error_def)
  show ?case using Cons.IH [of "(stage_error e s)\<lparr>error_channel := r\<rparr>"] r unfolding l by (auto simp: fr)
qed

lemma fold_route_frame [simp]:
  "error_channel (fold route_one ms s) = error_channel s"
  by (induction ms arbitrary: s) simp_all

lemma routeOutboundMessages_routes:
  assumes "ring_inv (sv_out_ring s)" and "ring_inv (error_channel s)"
  shows "\<exists>r r'. routeOutboundMessages s = Some ((fold stage_error (ring_contents (error_channel s))
       (fold route_one (ring_contents (sv_out_ring s)) s\<lparr>sv_out_ring := r\<rparr>))\<lparr>error_channel := r'\<rparr>)
     \<and> ring_inv r \<and> ring_contents r = [] \<and> ring_inv r' \<and> ring_contents r' = []"
proof -
  obtain r where r: "(case ring_pop (sv_out_ring s) of (None, r) \<Rightarrow> Some (s\<lparr>sv_out_ring := r\<rparr>)
        | (Some cur, r) \<Rightarrow> route_loop cur (resolve s cur) (s\<lparr>sv_out_ring := r\<rparr>)) =
      Some ((fold route_one (ring_contents (sv_out_ring s)) s)\<lparr>sv_out_ring := r\<rparr>)" "ring_inv r" "ring_contents r = []"
  proof (cases "ring_contents (sv_out_ring s)")
    case Nil
    then show ?thesis using that [of "sv_out_ring s"] ring.pop_empty [OF assms(1) Nil] assms(1) by simp
  next
    case (Cons m ms)
    obtain q where q: "ring_pop (sv_out_ring s) = (Some m, q)" "ring_inv q" "ring_contents q = ms"
      using ring.pop_front [OF assms(1) Cons] ring.inv_pop [OF assms(1)] by (metis prod.collapse)
    have fr: "fold route_one xs (t\<lparr>sv_out_ring := r\<rparr>) = (fold route_one xs t)\<lparr>sv_out_ring := r\<rparr>" for xs t r
      by (induction xs arbitrary: t) simp_all
    show ?thesis using that route_loop_routes [of "s\<lparr>sv_out_ring := q\<rparr>" ms "resolve s m" m] q Cons by (auto simp: fr)
  qed
  let ?s = "(fold route_one (ring_contents (sv_out_ring s)) s)\<lparr>sv_out_ring := r\<rparr>"
  obtain r' where "drain_errors ?s = Some ((fold stage_error (ring_contents (error_channel s)) ?s)\<lparr>error_channel := r'\<rparr>)"
    "ring_inv r'" "ring_contents r' = []"
    using drain_errors_stages [of ?s] assms(2) by auto
  then show ?thesis using r by (auto simp: routeOutboundMessages_def)
qed

section \<open>Runs\<close>

text \<open>
  A run of the outbound thread seen from connection \<open>f\<close>: the messages its staging ring accepted and
  the bytes the kernel took for it. Steps on other connections and steps of the inbound thread that
  leave the connection's outbound state alone may come in between.
\<close>

inductive outbound_run :: "fd \<Rightarrow> Server \<Rightarrow> OutboundMessage list \<Rightarrow> byte list \<Rightarrow> Server \<Rightarrow> bool" for f s0 where
  start: "outbound_run f s0 [] [] s0"
| staged: "outbound_run f s0 ms bs s \<Longrightarrow> \<not> condemned_inbound s f \<Longrightarrow> outbound_map s f = Some out \<Longrightarrow>
    length (ring_contents (staging out)) < 63 \<Longrightarrow> outbound_run f s0 (ms @ [m]) bs (stage f m s)"
| dropped: "outbound_run f s0 ms bs s \<Longrightarrow>
    condemned_inbound s f \<or> outbound_map s f = None
      \<or> (\<exists>out. outbound_map s f = Some out \<and> 63 \<le> length (ring_contents (staging out))) \<Longrightarrow>
    outbound_run f s0 ms bs (stage f m s)"
| visit: "outbound_run f s0 ms bs s \<Longrightarrow>
    (\<And>out. outbound_map s g = Some out \<Longrightarrow> calls_ok k (append_responses out)) \<Longrightarrow>
    send_visit k c g s = (sent, s') \<Longrightarrow> outbound_run f s0 ms (bs @ (if g = f then sent else [])) s'"
| event: "outbound_run f s0 ms bs s \<Longrightarrow> outbound_map s (oe_fd ev) = Some out \<Longrightarrow> calls_ok (oe_calls ev) out \<Longrightarrow>
    handle_out_event ev s = ((g, sent), s') \<Longrightarrow> outbound_run f s0 ms (bs @ (if g = f then sent else [])) s'"
| others: "outbound_run f s0 ms bs s \<Longrightarrow> close_inv s' \<Longrightarrow> outs_ok s' \<Longrightarrow> outbound_map s' f = outbound_map s f \<Longrightarrow>
    outbound_run f s0 ms bs s'"

lemma outbound_run_stream:
  assumes "outbound_run f s0 ms bs s" and "close_inv s0" and "outs_ok s0" and m0: "outbound_map s0 f = Some out0"
  shows "close_inv s \<and> outs_ok s \<and>
     (\<forall>out. outbound_map s f = Some out \<longrightarrow>
        pending_bytes out0 @ concat (map response_frame ms) = bs @ pending_bytes out)"
  using assms(1)
proof (induction rule: outbound_run.induct)
  case start
  then show ?case using assms by simp
next
  case (staged ms bs s out m)
  then have "outbound_map (stage f m s) f = Some (push_outbound m out)" by (simp add: stage_def)
  moreover have "batch_inv out" using staged by (auto simp: outs_ok_def)
  ultimately show ?case using staged stage_ok [of s f m] push_outbound_batch(2) [of out m] by simp
next
  case (dropped ms bs s m)
  have "outbound_map s f = Some out \<Longrightarrow> 63 \<le> length (ring_contents (staging out)) \<Longrightarrow> push_outbound m out = out" for out
  proof -
    assume "outbound_map s f = Some out" and full: "63 \<le> length (ring_contents (staging out))"
    then have "out_inv out" using dropped.IH by (auto simp: outs_ok_def batch_inv_def)
    then have "ring_push (staging out) m = (False, staging out)" using ring.push_full [of "staging out" m] full by (simp add: out_inv_def)
    then show "push_outbound m out = out" by (simp add: push_outbound_def)
  qed
  then have "outbound_map (stage f m s) f = outbound_map s f"
    using dropped.hyps(2) by (auto simp: stage_def split: option.splits)
  then show ?case using dropped.IH stage_ok [of s f m] by simp
next
  case (visit ms bs s g k c sent s')
  then have "close_inv s' \<and> outs_ok s' \<and> stream_step g sent s s'" using send_visit_stream [of s g k c sent s'] by blast
  then show ?case using visit.IH by (cases "g = f") (auto simp: stream_step_def split: option.splits)
next
  case (event ms bs s ev out g sent s')
  then have "close_inv s' \<and> outs_ok s' \<and> stream_step g sent s s'" using handle_out_event_stream [of s ev out g sent s'] by blast
  then show ?case using event.IH by (cases "g = f") (auto simp: stream_step_def split: option.splits)
next
  case (others ms bs s s')
  then show ?case by simp
qed

end
