(* ===== verification/Server_Threads.thy ===== *)
theory Server_Threads
  imports Server_Inbound Server_Outbound
begin

text \<open>
  The two server threads over their shared state, as a step relation: one step is the handling of
  one event, one descriptor of a scan, one message staged, one connection visited by the sender, a
  change of the rings (a pop or push of either thread or of the engine), or the stop flag. Steps of the two threads interleave in any order. The kernel
  is constrained by what its interface documents: a descriptor returned by \<^verbatim>\<open>accept\<close> is not in use,
  events are reported for open descriptors, and \<^verbatim>\<open>recv\<close> and \<^verbatim>\<open>send\<close> move at most the bytes asked for.
\<close>

inductive server_step :: "Server \<Rightarrow> Server \<Rightarrow> bool" where
  accept_one: "inbound_map s f = None \<Longrightarrow> f < FD_SLOTS \<Longrightarrow>
    registerConnections [\<lparr>acc_fd = f, acc_fcntl_ok = True, acc_epoll_ok = True\<rparr>] s = ok s' \<Longrightarrow> server_step s s'"
| in_event: "ev_fd ev \<noteq> l \<Longrightarrow> inbound_map s (ev_fd ev) = Some st \<Longrightarrow>
    recvs_ok (remaining_capacity (read_buf st)) (ev_recvs ev) \<Longrightarrow> handle_in_event l ev s = ok s' \<Longrightarrow> server_step s s'"
| close_in: "server_step s (disconnect_inbound f s)"
| close_out: "server_step s (disconnect_outbound f s)"
| route: "server_step s (stage f m s)"
| send: "(\<And>out. outbound_map s f = Some out \<Longrightarrow> calls_ok k (append_responses out)) \<Longrightarrow>
    send_visit k c f s = (sent, s') \<Longrightarrow> server_step s s'"
| out_event: "outbound_map s (oe_fd ev) = Some out \<Longrightarrow> calls_ok (oe_calls ev) out \<Longrightarrow>
    handle_out_event ev s = (w, s') \<Longrightarrow> server_step s s'"
| rings: "server_step s (s\<lparr>sv_in_ring := r, sv_out_ring := r', error_channel := e\<rparr>)"
| halt: "server_step s (s\<lparr>stop_flag := True\<rparr>)"

inductive server_steps :: "Server \<Rightarrow> Server \<Rightarrow> bool" for s0 where
  initial: "server_steps s0 s0"
| more: "server_steps s0 s \<Longrightarrow> server_step s s' \<Longrightarrow> server_steps s0 s'"

inductive_simps server_step_iff: "server_step s s'"

definition server_inv :: "Server \<Rightarrow> bool" where
  "server_inv s \<longleftrightarrow> close_inv s \<and> bufs_ok s \<and> outs_ok s"

lemma server_inv_new: "server_inv (Server_new inr outr h)"
  using close_inv_new [of inr outr h] by (simp add: server_inv_def bufs_ok_def outs_ok_def Server_new_def)

lemma server_inv_rings: "server_inv (s\<lparr>sv_in_ring := r\<rparr>) = server_inv s"
  "server_inv (s\<lparr>sv_out_ring := r'\<rparr>) = server_inv s" "server_inv (s\<lparr>error_channel := e\<rparr>) = server_inv s"
  "server_inv (s\<lparr>stop_flag := True\<rparr>) = server_inv s"
  by (simp_all add: server_inv_def close_inv_def slot_ok_def bufs_ok_def outs_ok_def)

lemma bufs_ok_cong: "inbound_map s' = inbound_map s \<Longrightarrow> bufs_ok s' = bufs_ok s"
  and outs_ok_cong: "outbound_map s' = outbound_map s \<Longrightarrow> outs_ok s' = outs_ok s"
  by (simp_all add: bufs_ok_def outs_ok_def)

lemma register_keeps:
  assumes "server_inv s" and "inbound_map s f = None" and "f < FD_SLOTS"
    and "registerConnections [\<lparr>acc_fd = f, acc_fcntl_ok = True, acc_epoll_ok = True\<rparr>] s = ok s'"
  shows "server_inv s'" and "slot_view s' f = (Some (InboundState_new f), Some OutboundState_new, False, False)"
    and "\<And>g. g \<noteq> f \<Longrightarrow> slot_view s' g = slot_view s g"
proof -
  obtain t where t: "register f (s\<lparr>epoll_in := insert f (epoll_in s)\<rparr>) = ok t" "close_inv t" "bufs_ok t"
    "slot_view t f = (Some (InboundState_new f), Some OutboundState_new, False, False)"
    "\<forall>g. g \<noteq> f \<longrightarrow> slot_view t g = slot_view s g"
    using register_inv [OF _ assms(2,3)] assms(1) by (auto simp: server_inv_def)
  then have "s' = t" using assms(4) by (simp add: epoll_ctrl_def)
  moreover have "outs_ok t"
  proof -
    have "outbound_map t g = (if g = f then Some OutboundState_new else outbound_map s g)" for g
      using t(4,5) by (auto simp: slot_view_def)
    then show ?thesis using assms(1) batch_inv_new by (auto simp: outs_ok_def server_inv_def)
  qed
  ultimately show "server_inv s'" "slot_view s' f = (Some (InboundState_new f), Some OutboundState_new, False, False)"
    "\<And>g. g \<noteq> f \<Longrightarrow> slot_view s' g = slot_view s g"
    using t by (auto simp: server_inv_def)
qed

lemma sendResponse_inbound: "sendResponse k f out s = (good, sent, out', s') \<Longrightarrow> inbound_map s' = inbound_map s"
  by (auto simp: sendResponse_def split: send_status.splits prod.splits if_splits)

lemma condemn_inbound_map [simp]: "inbound_map (condemnConnection f b s) = inbound_map s"
  by (simp add: condemnConnection_def Let_def)

lemma send_visit_inbound: "send_visit k c f s = (sent, s') \<Longrightarrow> inbound_map s' = inbound_map s"
  by (auto simp: send_visit_def send_pending_def put_outbound_def dest: sendResponse_inbound
      split: option.splits prod.splits if_splits)

lemma handle_out_event_inbound: "handle_out_event ev s = (w, s') \<Longrightarrow> inbound_map s' = inbound_map s"
  by (auto simp: handle_out_event_def Let_def put_outbound_def dest: sendResponse_inbound
      split: option.splits prod.splits if_splits)

lemma stage_keeps: "server_inv s \<Longrightarrow> server_inv (stage f m s)"
  using stage_ok [of s f m] bufs_ok_cong [of "stage f m s" s]
  by (simp add: server_inv_def stage_def split: option.splits)

lemma in_event_keeps:
  assumes "server_inv s" and "ev_fd ev \<noteq> l" and "inbound_map s (ev_fd ev) = Some st"
    and "recvs_ok (remaining_capacity (read_buf st)) (ev_recvs ev)"
  shows "\<exists>s'. handle_in_event l ev s = ok s' \<and> server_inv s' \<and> (\<forall>g. inbound_map s' g = None \<longleftrightarrow> inbound_map s g = None)"
proof (cases "ev_hup ev")
  case True
  have "close_inv (condemnConnection (ev_fd ev) True s)"
    using condemn_inbound_inv assms(1,3) by (simp add: server_inv_def)
  then show ?thesis using True assms(1,2)
    by (simp add: handle_in_event_def server_inv_def condemnConnection_def bufs_ok_def outs_ok_def)
next
  case False
  obtain s' where "readAndProcessBytes (ev_clock ev) (ev_errno ev) (ev_recvs ev) (ev_fd ev) s = ok s'"
    "close_inv s'" "bufs_ok s'" "outbound_map s' = outbound_map s"
    "\<forall>g. inbound_map s' g = None \<longleftrightarrow> inbound_map s g = None"
    using read_inv_preserved [of s "ev_fd ev" "ev_recvs ev" "ev_clock ev" "ev_errno ev"] assms
    by (auto simp: server_inv_def)
  with False assms(1,2) outs_ok_cong [of s' s] show ?thesis by (simp add: handle_in_event_def server_inv_def)
qed

lemma disconnect_keeps:
  assumes "server_inv s"
  shows "server_inv (disconnect_inbound f s)" and "server_inv (disconnect_outbound f s)"
  using assms disconnect_inbound_inv [of s f] disconnect_outbound_inv [of s f]
  by (auto simp: server_inv_def bufs_ok_def outs_ok_def disconnect_inbound_def disconnect_outbound_def Let_def
      split: option.splits if_splits)

lemma server_step_keeps: "server_step s s' \<Longrightarrow> server_inv s \<Longrightarrow> server_inv s'"
proof (induction rule: server_step.induct)
  case (accept_one s f s')
  then show ?case using register_keeps(1) by blast
next
  case (in_event ev l s st s')
  then show ?case using in_event_keeps [of s ev l st] by auto
next
  case (send s f k c sent s')
  then show ?case using send_visit_stream [of s f k c sent s'] send_visit_inbound [OF send(2)]
    bufs_ok_cong [of s' s] by (simp add: server_inv_def)
next
  case (out_event s ev out w s')
  then show ?case using handle_out_event_stream [of s ev out "fst w" "snd w" s'] handle_out_event_inbound [OF out_event(3)]
    bufs_ok_cong [of s' s] by (simp add: server_inv_def)
qed (simp_all add: disconnect_keeps server_inv_rings stage_keeps)

lemma server_steps_keep: "server_steps s0 s \<Longrightarrow> server_inv s0 \<Longrightarrow> server_inv s"
  by (induction rule: server_steps.induct) (auto intro: server_step_keeps)

text \<open>The inbound state of a descriptor is released only after its outbound state is gone.\<close>

lemma inbound_released:
  assumes "server_step s s'" and "server_inv s" and "inbound_map s f \<noteq> None" and "inbound_map s' f = None"
  shows "outbound_map s f = None"
  using assms
proof (induction rule: server_step.induct)
  case (accept_one s g s')
  then show ?case using register_keeps(2,3) [OF accept_one(4,1,2,3)]
    by (cases "f = g") (auto simp: slot_view_def)
next
  case (in_event ev l s st s')
  then show ?case using in_event_keeps [of s ev l st] by auto
next
  case (close_in s g)
  then show ?case by (auto simp: disconnect_inbound_def server_inv_def close_inv_def slot_ok_def split: if_splits option.splits)
next
  case (close_out s g)
  then show ?case by (auto simp: disconnect_outbound_def Let_def split: if_splits option.splits)
next
  case (send s f k c sent s')
  then show ?case using send_visit_inbound [OF send(2)] by simp
next
  case (out_event s ev out w s')
  then show ?case using handle_out_event_inbound [OF out_event(3)] by simp
qed (auto simp: stage_def split: if_splits option.splits)

lemma routes_to_keep: "M c = Some (int f) \<Longrightarrow> routes_to f ms M c = Some (int f)"
  by (induction ms arbitrary: M) auto

lemma routes_to_last: "m \<in> set ms \<Longrightarrow> routes_to f ms M (im_client_id m) = Some (int f)"
  by (induction ms arbitrary: M) (auto simp: routes_to_keep)

lemma outcome_lengths: "length (outcome_messages os) + length (outcome_errors f os) = length os"
  by (induction os rule: outcome_messages.induct) auto

section \<open>Sample states\<close>

definition ring_of :: "'a \<Rightarrow> 'a RingBuffer" where
  "ring_of z = \<lparr>write_idx = 0, read_idx = 0, buffer = replicate 4 z, rb_mask = 3\<rparr>"

definition server0 :: Server where
  "server0 = Server_new (ring_of InboundMessage_zero) (ring_of OutboundMessage_zero) (handler2 3)"

definition server5 :: Server where
  "server5 = server0\<lparr>epoll_in := {5}, outbound_map := (\<lambda>_. None)(5 := Some OutboundState_new),
     inbound_map := (\<lambda>_. None)(5 := Some (InboundState_new 5)),
     condemned_inbound := (\<lambda>_. False)(5 := False), condemned_outbound := (\<lambda>_. False)(5 := False)\<rparr>"

lemma ring_of_inv: "ring_inv (ring_of z)" and ring_of_contents: "ring_contents (ring_of z) = []"
proof -
  have "ring_log (ring_of z) 2" by (simp add: ring_log_def ring_of_def mask_eq_pow)
  then show "ring_inv (ring_of z)" by (auto simp: ring_inv_def)
  show "ring_contents (ring_of z) = []" by (simp add: ring_contents_def ring_used_def ring_of_def)
qed

lemma server5_reached: "server_steps server0 server5"
proof -
  have "registerConnections [\<lparr>acc_fd = 5, acc_fcntl_ok = True, acc_epoll_ok = True\<rparr>] server0 = ok server5"
    by (simp add: server5_def server0_def Server_new_def register_def epoll_ctrl_def FD_SLOTS_def MAX_CLIENTS_def)
  then have "server_step server0 server5"
    by (intro server_step.accept_one [of server0 5]) (simp_all add: server0_def Server_new_def FD_SLOTS_def MAX_CLIENTS_def)
  then show ?thesis by (rule server_steps.more [OF server_steps.initial])
qed

lemma server5_inv: "server_inv server5"
  using server_steps_keep [OF server5_reached] server_inv_new by (simp add: server0_def)

lemma server5_sel [simp]:
  "inbound_map server5 5 = Some (InboundState_new 5)" "outbound_map server5 5 = Some OutboundState_new"
  "condemned_inbound server5 5 = False" "condemned_outbound server5 5 = False"
  "sv_in_ring server5 = ring_of InboundMessage_zero" "sv_out_ring server5 = ring_of OutboundMessage_zero"
  by (simp_all add: server5_def server0_def Server_new_def)

lemma server5_channel: "ring_inv (error_channel server5)" "ring_contents (error_channel server5) = []"
proof -
  have "ring_log (error_channel server5) 11"
    by (simp add: ring_log_def server5_def server0_def Server_new_def ERROR_CHANNEL_SIZE_def MAX_CLIENTS_def PIPELINE_DEPTH_def mask_eq_pow)
  then show "ring_inv (error_channel server5)" by (auto simp: ring_inv_def)
  show "ring_contents (error_channel server5) = []"
    by (simp add: ring_contents_def ring_used_def server5_def server0_def Server_new_def)
qed

definition order9 :: InboundMessage where
  "order9 = InboundMessage_zero\<lparr>im_client_id := 9, im_price := 100, im_quantity := 5, im_message_type := NEW,
     im_side := BID, im_order_type := LIMIT\<rparr>"

definition frame9 :: "byte list" where
  "frame9 = frame_message (replicate 9 0) order9 (replicate 72 0)"

lemma frame9: "length frame9 = 72" "frame_outcome t frame9 = Inr (order9\<lparr>im_read_begin_tsc := t\<rparr>)"
proof -
  note p = parse_frame_message [of "replicate 72 0" "replicate 9 0" order9]
  show "length frame9 = 72" using p by (simp add: frame9_def)
  have "validate_message (order9\<lparr>im_read_begin_tsc := t\<rparr>)"
    by (simp add: validate_message_iff order9_def MIN_PRICE_def)
  then show "frame_outcome t frame9 = Inr (order9\<lparr>im_read_begin_tsc := t\<rparr>)"
    using p by (simp add: frame_outcome_def frame9_def)
qed

section \<open>Properties\<close>

text \<open>
  C6: the inbound path implements its specification on bytes. Whatever is in a live connection's
  read buffer and however \<^verbatim>\<open>recv\<close> cuts what it delivers, one call of \<^verbatim>\<open>readAndProcessBytes\<close> on a drained
  socket splits the bytes into 72-byte frames, turns every frame, in order, into exactly one message
  for the engine or one error for the client, keeps the incomplete rest for the next call, and
  records the connection as the route of every client it heard from.
\<close>

theorem inbound_stream_parsed:
  assumes "server_inv s" and "inbound_map s f = Some st" and "\<not> condemned_inbound s f" and "\<not> condemned_outbound s f"
    and "recvs_ok (remaining_capacity (read_buf st)) rs"
    and "drained_by e (final_answer (remaining_capacity (read_buf st)) rs)"
    and "bs = buf_view (read_buf st) @ delivered (remaining_capacity (read_buf st)) rs"
    and "os = map (frame_outcome (clock 0)) (frames bs)"
  shows "\<exists>s' st'. readAndProcessBytes clock e rs f s = ok s' \<and> inbound_map s' f = Some st'
     \<and> buf_view (read_buf st') = leftover bs \<and> bs = concat (frames bs) @ leftover bs \<and> length (leftover bs) < INBOUND_BSIZE
     \<and> sv_in_ring s' = ring_push_all (sv_in_ring s) (outcome_messages os)
     \<and> error_channel s' = ring_push_all (error_channel s) (outcome_errors f os)
     \<and> length (outcome_messages os) + length (outcome_errors f os) = length (frames bs)
     \<and> (\<forall>m \<in> set (outcome_messages os). client_map s' (im_client_id m) = Some (int f))"
proof -
  have al: "frame_aligned (read_buf st)" and fd: "is_fd st = f"
    using assms(1,2) by (auto simp: server_inv_def bufs_ok_def close_inv_def slot_ok_def)
  obtain st' where st': "buf_view (read_buf st') = leftover bs"
      "readAndProcessBytes clock e rs f s = ok ((accept_outcomes f os s)\<lparr>inbound_map := (inbound_map s)(f := Some st')\<rparr>)"
    using readAndProcessBytes_round [OF assms(2-4) al assms(5,7), where clock = clock and e = e and os = os] assms(6,8) fd by auto
  have "length (outcome_messages os) + length (outcome_errors f os) = length (frames bs)"
    using outcome_lengths [of os f] assms(8) by simp
  with st' frames_split [of bs] routes_to_last [of _ "outcome_messages os" f "client_map s"]
  show ?thesis by (auto simp: accept_outcomes_def INBOUND_BSIZE_def)
qed

theorem inbound_stream_parsed_witness:
  "\<exists>s'. readAndProcessBytes (\<lambda>_. 44) EAGAIN [Received (take 30 frame9), Received (drop 30 frame9 @ [1, 2])] 5 server5 = ok s'
    \<and> ring_contents (sv_in_ring s') = [order9\<lparr>im_read_begin_tsc := 44\<rparr>] \<and> client_map s' 9 = Some 5"
proof -
  let ?rs = "[Received (take 30 frame9), Received (drop 30 frame9 @ [1, 2])]"
  have c: "remaining_capacity (read_buf (InboundState_new 5)) = 2304" "buf_view (read_buf (InboundState_new 5)) = []"
    by (simp_all add: InboundState_new_def remaining_capacity_def PIPELINE_DEPTH_def INBOUND_BSIZE_def Buffer_new_def buf_view_def)
  have d: "delivered 2304 ?rs = frame9 @ [1, 2]" "recvs_ok 2304 ?rs" "drained_by EAGAIN (final_answer 2304 ?rs)"
    using frame9(1) append_take_drop_id [of 30 frame9] list.size(3) [where 'a = byte]
    by (auto simp: drained_by_def errno_recv_def simp del: append_take_drop_id simp flip: append_assoc)
  have f: "frames (frame9 @ [1, 2]) = [frame9]"
    using frame9(1) frames_cases(2) [of "frame9 @ [1, 2]"] frames_cases(1) [of "[1, 2]"] by simp
  have "\<exists>s' st'. readAndProcessBytes (\<lambda>_. 44) EAGAIN ?rs 5 server5 = ok s' \<and> inbound_map s' 5 = Some st'
     \<and> buf_view (read_buf st') = leftover (frame9 @ [1, 2]) \<and> frame9 @ [1, 2] = concat (frames (frame9 @ [1, 2])) @ leftover (frame9 @ [1, 2])
     \<and> length (leftover (frame9 @ [1, 2])) < INBOUND_BSIZE
     \<and> sv_in_ring s' = ring_push_all (sv_in_ring server5) (outcome_messages (map (frame_outcome 44) (frames (frame9 @ [1, 2]))))
     \<and> error_channel s' = ring_push_all (error_channel server5) (outcome_errors 5 (map (frame_outcome 44) (frames (frame9 @ [1, 2]))))
     \<and> length (outcome_messages (map (frame_outcome 44) (frames (frame9 @ [1, 2]))))
        + length (outcome_errors 5 (map (frame_outcome 44) (frames (frame9 @ [1, 2])))) = length (frames (frame9 @ [1, 2]))
     \<and> (\<forall>m \<in> set (outcome_messages (map (frame_outcome 44) (frames (frame9 @ [1, 2])))). client_map s' (im_client_id m) = Some (int 5))"
    using inbound_stream_parsed [OF server5_inv server5_sel(1), of ?rs EAGAIN "frame9 @ [1, 2]" _ "\<lambda>_. 44"] c d by simp
  then obtain s' where s': "readAndProcessBytes (\<lambda>_. 44) EAGAIN ?rs 5 server5 = ok s'"
      "sv_in_ring s' = snd (ring_push (ring_of InboundMessage_zero) (order9\<lparr>im_read_begin_tsc := 44\<rparr>))"
      "client_map s' (im_client_id order9) = Some (int 5)"
    unfolding f by (auto simp: frame9(2))
  have "ring_contents (sv_in_ring s') = [order9\<lparr>im_read_begin_tsc := 44\<rparr>]"
    unfolding s'(2) ring.contents_push [OF ring_of_inv] ring_of_contents by (simp add: ring_of_def ring_cap_def)
  then show ?thesis using s' by (auto simp: order9_def)
qed

text \<open>
  Handling an event of an open connection returns, without a fault, and the read loop makes
  exactly one round: the read buffer's capacity is a multiple of the frame size, so a buffer that was
  filled to the last byte has room again once its frames are consumed and \<^verbatim>\<open>readRequest\<close> never asks to
  be called again.
\<close>

theorem read_event_returns:
  assumes "server_inv s" and "inbound_map s f = Some st" and "recvs_ok (remaining_capacity (read_buf st)) rs"
  shows "(\<exists>s'. readAndProcessBytes clock e rs f s = ok s' \<and> server_inv s')
     \<and> \<not> fst (readRequest tsc e rs st s)"
proof
  have I: "close_inv s" "bufs_ok s" "outs_ok s" using assms(1) by (simp_all add: server_inv_def)
  obtain s' where "readAndProcessBytes clock e rs f s = ok s'" "close_inv s'" "bufs_ok s'" "outbound_map s' = outbound_map s"
    using read_inv_preserved [OF I(1,2), of f rs clock e] assms(2,3) by auto
  then show "\<exists>s'. readAndProcessBytes clock e rs f s = ok s' \<and> server_inv s'"
    using outs_ok_cong [of s' s] I(3) by (simp add: server_inv_def)
  have al: "frame_aligned (read_buf st)" using I(2) assms(2) by (auto simp: bufs_ok_def)
  show "\<not> fst (readRequest tsc e rs st s)"
    using readRequest_round [OF al assms(3) refl refl, where tsc = tsc and e = e and s = s]
    by (cases "drained_by e (final_answer (remaining_capacity (read_buf st)) rs)") auto
qed

theorem read_event_returns_witness:
  "\<exists>s'. readAndProcessBytes (\<lambda>_. 0) EAGAIN [Received frame9, Recv_EOF] 5 server5 = ok s' \<and> server_inv s'"
proof -
  have "recvs_ok (remaining_capacity (read_buf (InboundState_new 5))) [Received frame9, Recv_EOF]"
    using frame9(1) by (auto simp: InboundState_new_def remaining_capacity_def PIPELINE_DEPTH_def INBOUND_BSIZE_def Buffer_new_def)
  from read_event_returns [OF server5_inv server5_sel(1) this] show ?thesis by blast
qed

text \<open>
  C24: in every state the two threads reach, under every interleaving, the buffers of a connection
  have the shape the code relies on: the read offset is frame aligned and inside the buffer, the
  write buffer holds whole frames, the latency batch has exactly one entry per frame in it (so its
  bounds check never drops one), and the staging ring keeps a free cell.
\<close>

theorem connection_state_wf:
  assumes "server_steps (Server_new inr outr h) s"
  shows "(\<forall>f st. inbound_map s f = Some st \<longrightarrow>
       read_off (read_buf st) \<le> buf_len (read_buf st) \<and> buf_len (read_buf st) \<le> PIPELINE_DEPTH * INBOUND_BSIZE
       \<and> INBOUND_BSIZE dvd read_off (read_buf st))
    \<and> (\<forall>f out. outbound_map s f = Some out \<longrightarrow>
       bytes_written (write_buf out) \<le> buf_len (write_buf out) \<and> buf_len (write_buf out) \<le> PIPELINE_DEPTH * OUTBOUND_BSIZE
       \<and> buf_len (write_buf out) = OUTBOUND_BSIZE * latency_count out
       \<and> latency_count out \<le> length (latency_batch out) \<and> length (ring_contents (staging out)) < unat RINGBUF_SIZE)"
proof -
  have I: "server_inv s" using server_steps_keep [OF assms server_inv_new] .
  have i: "frame_aligned (read_buf st)" if "inbound_map s f = Some st" for f st
    using I that by (auto simp: server_inv_def bufs_ok_def)
  have o: "batch_inv out" if "outbound_map s f = Some out" for f out
    using I that by (auto simp: server_inv_def outs_ok_def)
  have r: "length (ring_contents (staging out)) < unat RINGBUF_SIZE" if "batch_inv out" for out
    using that ring.within_cap [of "staging out"] by (simp add: batch_inv_def out_inv_def RINGBUF_SIZE_def)
  show ?thesis
    using i o r by (simp add: frame_aligned_def read_inv_def batch_inv_def out_inv_def write_inv_def) metis
qed

theorem connection_state_wf_witness:
  "\<exists>out. outbound_map server5 5 = Some out \<and> buf_len (write_buf out) = OUTBOUND_BSIZE * latency_count out"
  using connection_state_wf [OF server5_reached [unfolded server0_def]] server5_sel(2) by blast





text \<open>
  C7: the outbound path delivers the byte stream. As long as a connection survives, the bytes that
  were pending, followed by the frames of the messages its staging ring accepted since, are the
  bytes the kernel took for it followed by what is pending now: every accepted response is sent
  completely, once and in order, however \<^verbatim>\<open>send\<close> cuts it and whatever happens on other connections.
\<close>

theorem responses_sent_in_order:
  assumes "outbound_run f s0 ms bs s" and "server_inv s0" and "outbound_map s0 f = Some out0" and "outbound_map s f = Some out"
  shows "pending_bytes out0 @ concat (map response_frame ms) = bs @ pending_bytes out"
  using outbound_run_stream [OF assms(1) _ _ assms(3)] assms(2,4) by (simp add: server_inv_def)

definition ack9 :: OutboundMessage where
  "ack9 = OutboundMessage_zero\<lparr>om_client_id := 9, om_order_id := 3, om_status := SUCCESS\<rparr>"

definition short_send :: send_calls where
  "short_send = \<lparr>sc_errno = EOTHER, sc_sends = [Sent 20, Send_Failed EAGAIN], sc_epoll_ok = True, sc_tsc = 0\<rparr>"

theorem responses_sent_in_order_witness:
  "\<exists>s out bs. outbound_run 5 server5 [ack9] bs s \<and> outbound_map s 5 = Some out \<and> length bs = 20
     \<and> response_frame ack9 = bs @ pending_bytes out"
proof -
  let ?s = "stage 5 ack9 server5"
  have "length (ring_contents (staging OutboundState_new)) < 63" unfolding staging_new by simp
  then have r: "outbound_run 5 server5 ([] @ [ack9]) [] ?s"
    by (intro outbound_run.staged [OF outbound_run.start]) simp_all
  have m: "outbound_map ?s 5 = Some (push_outbound ack9 OutboundState_new)" by (simp add: stage_def)
  have k: "calls_ok short_send (append_responses (push_outbound ack9 OutboundState_new))" by code_simp
  obtain sent s where v: "send_visit short_send False 5 ?s = (sent, s)" by fastforce
  have "outbound_run 5 server5 ([] @ [ack9]) ([] @ (if (5 :: fd) = 5 then sent else [])) s"
    by (rule outbound_run.visit [OF r _ v]) (use m k in simp)
  then have R: "outbound_run 5 server5 [ack9] sent s" by simp
  have "case send_visit short_send False 5 ?s of (sent, s) \<Rightarrow> length sent = 20 \<and> \<not> Option.is_none (outbound_map s 5)"
    by code_simp
  then obtain out where "outbound_map s 5 = Some out" "length sent = 20" using v by (auto simp: Option.is_none_def)
  with responses_sent_in_order [OF R server5_inv server5_sel(2)] R show ?thesis
    by (auto simp: pending_new)
qed



text \<open>
  A closed connection is noticed by \<^verbatim>\<open>recv\<close> only by accident. When \<^verbatim>\<open>recv\<close> reports the end of the
  stream, the code decides by the value some earlier call left in \<^verbatim>\<open>errno\<close>: after an earlier
  \<^verbatim>\<open>EAGAIN\<close> it takes the connection for drained and keeps it, otherwise it condemns it and throws
  away complete frames received just before.
\<close>

theorem end_of_stream_by_errno:
  assumes "server_inv s" and "inbound_map s f = Some st" and "\<not> condemned_inbound s f" and "\<not> condemned_outbound s f"
    and "recvs_ok (remaining_capacity (read_buf st)) [Received bs, Recv_EOF]" and "length bs < remaining_capacity (read_buf st)"
    and "bs \<noteq> []"
  shows "\<exists>s'. readAndProcessBytes clock e [Received bs, Recv_EOF] f s = ok s'
     \<and> (condemned_inbound s' f \<longleftrightarrow> e \<noteq> EAGAIN) \<and> (e \<noteq> EAGAIN \<longrightarrow> sv_in_ring s' = sv_in_ring s)"
proof -
  have al: "frame_aligned (read_buf st)" and fd: "is_fd st = f"
    using assms(1,2) by (auto simp: server_inv_def bufs_ok_def close_inv_def slot_ok_def)
  have a: "final_answer (remaining_capacity (read_buf st)) [Received bs, Recv_EOF] = Some Recv_EOF" using assms(6,7) by auto
  show ?thesis
    using readAndProcessBytes_round [OF assms(2-4) al assms(5) refl refl, where clock = clock and e = e] assms(3) unfolding fd a
    by (cases e) (auto simp: drained_by_def errno_recv_def accept_outcomes_def condemnConnection_def)
qed

theorem end_of_stream_by_errno_witness:
  "\<exists>s'. readAndProcessBytes (\<lambda>_. 0) EAGAIN [Received frame9, Recv_EOF] 5 server5 = ok s' \<and> \<not> condemned_inbound s' 5"
proof -
  have c: "remaining_capacity (read_buf (InboundState_new 5)) = 2304"
    by (simp add: InboundState_new_def remaining_capacity_def PIPELINE_DEPTH_def INBOUND_BSIZE_def Buffer_new_def)
  have "frame9 \<noteq> []" using frame9(1) by auto
  with end_of_stream_by_errno [OF server5_inv server5_sel(1), of frame9 "\<lambda>_. 0" EAGAIN] c frame9(1) show ?thesis by auto
qed

text \<open>
  A reconnecting client loses its route: closing its old connection clears the routing entry of the
  client id even when the client has already been heard on a new connection, and responses routed
  before the next request on the new connection vanish.
\<close>

lemma reconnect_loses_route:
  assumes "inbound_map s f = Some st" and "condemned_outbound s f" and "is_client_id st = cid" and "0 < cid"
    and "client_map s cid = Some (int g)" and "om_client_id m = cid"
  shows "resolve (disconnect_inbound f s) m = - 1" and "route_one m (disconnect_inbound f s) = disconnect_inbound f s"
  using assms by (auto simp: disconnect_inbound_def forget_route_def resolve_def route_one_def)

text \<open>
  Accepting a descriptor beyond the arrays is an access out of range; nothing limits the number of
  accepted connections.
\<close>

lemma descriptor_out_of_range:
  assumes "FD_SLOTS \<le> acc_fd a" and "acc_fcntl_ok a" and "acc_epoll_ok a"
  shows "registerConnections (a # as) s = fail Index_Out_Of_Range"
  using assms by (simp add: epoll_ctrl_def register_def)

text \<open>A connection with 63 responses staged drops the next one.\<close>

lemma full_staging_drops:
  assumes "batch_inv out" and "length (ring_contents (staging out)) = 63"
  shows "pending_bytes (push_outbound m out) = pending_bytes out"
  using push_outbound_batch(2) [OF assms(1), of m] assms(2) by simp

end
