(* ===== verification/Server_Loops.thy ===== *)
theory Server_Loops
  imports Server_Threads
begin

text \<open>
  The event loops of the two server threads, \<^verbatim>\<open>handleRequests\<close> and \<^verbatim>\<open>serveResponses\<close>, as runs of the step
  relation: whatever the kernel answers within its documented interface, every round returns without
  a fault and is a sequence of steps, so what holds of all reachable states holds after it.
\<close>

section \<open>What the kernel promises\<close>

text \<open>
  A descriptor \<^verbatim>\<open>accept\<close> returns is not open already; the tables are as large as the number of clients
  the program is configured for.
\<close>

definition registered :: "accept_result \<Rightarrow> bool" where
  "registered a \<longleftrightarrow> acc_fcntl_ok a \<and> acc_epoll_ok a"

definition accepts_ok :: "accept_result list \<Rightarrow> Server \<Rightarrow> bool" where
  "accepts_ok as s \<longleftrightarrow> distinct (map acc_fd (filter registered as))
     \<and> (\<forall>a \<in> set (filter registered as). inbound_map s (acc_fd a) = None \<and> acc_fd a < FD_SLOTS)"

text \<open>Events are reported for open descriptors, and \<^verbatim>\<open>recv\<close> delivers no more than it was asked for.\<close>

definition in_event_ok :: "fd \<Rightarrow> in_event \<Rightarrow> Server \<Rightarrow> bool" where
  "in_event_ok l ev s \<longleftrightarrow>
     (if ev_fd ev = l then accepts_ok (ev_accepts ev) s
      else case inbound_map s (ev_fd ev) of
        None \<Rightarrow> False
      | Some st \<Rightarrow> recvs_ok (remaining_capacity (read_buf st)) (ev_recvs ev))"

fun in_events_ok :: "fd \<Rightarrow> in_event list \<Rightarrow> Server \<Rightarrow> bool" where
  "in_events_ok l [] s \<longleftrightarrow> True"
| "in_events_ok l (ev # evs) s \<longleftrightarrow> in_event_ok l ev s
     \<and> (case handle_in_event l ev s of Some (Inr s') \<Rightarrow> in_events_ok l evs s' | _ \<Rightarrow> True)"

fun waits_ok :: "fd \<Rightarrow> in_event wait_result list \<Rightarrow> Server \<Rightarrow> bool" where
  "waits_ok l [] s \<longleftrightarrow> True"
| "waits_ok l (w # ws) s \<longleftrightarrow>
     (let s1 = handleDisconnectsInbound s
      in case w of
           Interrupted \<Rightarrow> waits_ok l ws s1
         | Wait_Failed \<Rightarrow> True
         | Events evs \<Rightarrow> in_events_ok l evs s1
             \<and> (case handle_in_events l evs s1 of Some (Inr s') \<Rightarrow> waits_ok l ws s' | _ \<Rightarrow> True))"

text \<open>The same for the outbound thread: \<^verbatim>\<open>send\<close> takes no more than it is offered.\<close>

fun visits_ok :: "(fd \<Rightarrow> send_calls) \<Rightarrow> (fd \<Rightarrow> bool) \<Rightarrow> fd list \<Rightarrow> Server \<Rightarrow> bool" where
  "visits_ok k c [] s \<longleftrightarrow> True"
| "visits_ok k c (f # fs) s \<longleftrightarrow>
     (case outbound_map s f of None \<Rightarrow> True | Some out \<Rightarrow> calls_ok (k f) (append_responses out))
     \<and> visits_ok k c fs (snd (send_visit (k f) (c f) f s))"

fun out_events_ok :: "out_event list \<Rightarrow> Server \<Rightarrow> bool" where
  "out_events_ok [] s \<longleftrightarrow> True"
| "out_events_ok (ev # evs) s \<longleftrightarrow>
     (case outbound_map s (oe_fd ev) of None \<Rightarrow> False | Some out \<Rightarrow> calls_ok (oe_calls ev) out)
     \<and> out_events_ok evs (snd (handle_out_event ev s))"

fun rounds_ok :: "out_round list \<Rightarrow> Server \<Rightarrow> bool" where
  "rounds_ok [] s \<longleftrightarrow> True"
| "rounds_ok (r # rs) s \<longleftrightarrow>
     (case routeOutboundMessages (handleDisconnectsOutbound s) of
        None \<Rightarrow> True
      | Some s1 \<Rightarrow>
          let order = or_order r (writable_fds s1);
              s2 = snd (beginSends (or_calls r) (or_condemned_now r) order s1)
          in visits_ok (or_calls r) (or_condemned_now r) order s1
             \<and> (case or_wait r of
                  Wait_Failed \<Rightarrow> True
                | Interrupted \<Rightarrow> rounds_ok rs s2
                | Events evs \<Rightarrow> out_events_ok evs s2 \<and> rounds_ok rs (snd (handle_out_events evs s2))))"

section \<open>Runs\<close>

lemma one_step: "server_step s s' \<Longrightarrow> server_steps s s'"
  by (rule server_steps.more [OF server_steps.initial])

lemma steps_trans [trans]: "server_steps s t \<Longrightarrow> server_steps t u \<Longrightarrow> server_steps s u"
  by (rotate_tac, induction rule: server_steps.induct) (auto intro: server_steps.more)

lemma fold_steps: "(\<And>x s. x \<in> set xs \<Longrightarrow> server_steps s (g x s)) \<Longrightarrow> server_steps s (fold g xs s)"
  by (induction xs arbitrary: s) (auto intro: server_steps.initial steps_trans)

lemma scans_run: "server_steps s (handleDisconnectsInbound s)" "server_steps s (handleDisconnectsOutbound s)"
  unfolding handleDisconnectsInbound_def handleDisconnectsOutbound_def
  by (rule fold_steps, rule one_step, rule server_step.close_in server_step.close_out)+

text \<open>The sequence of two runs, the second one starting from whatever the first one returns.\<close>

definition runs :: "Server \<Rightarrow> Server res \<Rightarrow> bool" where
  "runs s m \<longleftrightarrow> (\<exists>s'. m = ok s' \<and> server_steps s s')"

lemma runs_bind: "runs s m \<Longrightarrow> (\<And>s'. m = ok s' \<Longrightarrow> server_steps s s' \<Longrightarrow> runs s' (f s')) \<Longrightarrow> runs s (rbind m f)"
  by (fastforce simp: runs_def intro: steps_trans)

lemma runs_ok [simp]: "runs s (ok s') \<longleftrightarrow> server_steps s s'"
  by (simp add: runs_def)

lemma runs_after: "server_steps s t \<Longrightarrow> runs t m \<Longrightarrow> runs s m"
  by (auto simp: runs_def intro: steps_trans)

section \<open>The inbound loop\<close>

lemma register_one:
  assumes "server_inv s" and "registered a" and "inbound_map s (acc_fd a) = None" and "acc_fd a < FD_SLOTS"
  obtains s' where "registerConnections [a] s = ok s'" "server_step s s'" "\<And>g. g \<noteq> acc_fd a \<Longrightarrow> inbound_map s' g = inbound_map s g"
proof -
  have a: "a = \<lparr>acc_fd = acc_fd a, acc_fcntl_ok = True, acc_epoll_ok = True\<rparr>" using assms(2) by (simp add: registered_def)
  obtain s' where s': "registerConnections [a] s = ok s'"
    using assms(2,4) by (simp add: registered_def epoll_ctrl_def register_def)
  then have r: "registerConnections [\<lparr>acc_fd = acc_fd a, acc_fcntl_ok = True, acc_epoll_ok = True\<rparr>] s = ok s'"
    using a by simp
  have "inbound_map s' g = inbound_map s g" if "g \<noteq> acc_fd a" for g
    using register_keeps(3) [OF assms(1,3,4) r that] by (simp add: slot_view_def)
  then show ?thesis using that [OF s'] server_step.accept_one [OF assms(3,4) r] by blast
qed

lemma registerConnections_runs: "server_inv s \<Longrightarrow> accepts_ok as s \<Longrightarrow> runs s (registerConnections as s)"
proof (induction as arbitrary: s)
  case (Cons a as)
  show ?case
  proof (cases "registered a")
    case False
    then have "registerConnections (a # as) s = (if acc_fcntl_ok a then ok s else registerConnections as s)"
      by (auto simp: registered_def epoll_ctrl_def)
    then show ?thesis using Cons False by (auto simp: accepts_ok_def intro: server_steps.initial)
  next
    case True
    have f: "inbound_map s (acc_fd a) = None" "acc_fd a < FD_SLOTS" using Cons.prems(2) True by (auto simp: accepts_ok_def)
    obtain s' where s': "registerConnections [a] s = ok s'" "server_step s s'" "\<And>g. g \<noteq> acc_fd a \<Longrightarrow> inbound_map s' g = inbound_map s g"
      using register_one [OF Cons.prems(1) True f] by metis
    have "acc_fd a \<notin> acc_fd ` set (filter registered as)" using Cons.prems(2) True by (simp add: accepts_ok_def)
    then have "inbound_map s' (acc_fd a') = inbound_map s (acc_fd a')" if "a' \<in> set (filter registered as)" for a'
      using s'(3) [of "acc_fd a'"] imageI [OF that, of acc_fd] by metis
    then have "accepts_ok as s'" using Cons.prems(2) True by (simp add: accepts_ok_def)
    then have "runs s' (registerConnections as s')" using Cons.IH server_step_keeps [OF s'(2) Cons.prems(1)] by blast
    moreover have "registerConnections (a # as) s = registerConnections as s'"
      using s'(1) True by (auto simp: registered_def epoll_ctrl_def rbind_ok_iff)
    ultimately show ?thesis using runs_after [OF one_step [OF s'(2)]] by simp
  qed
qed (simp add: server_steps.initial)

lemma in_event_runs: "server_inv s \<Longrightarrow> in_event_ok l ev s \<Longrightarrow> runs s (handle_in_event l ev s)"
proof (cases "ev_fd ev = l")
  case True
  assume "server_inv s" "in_event_ok l ev s"
  then show ?thesis using True registerConnections_runs by (simp add: in_event_ok_def handle_in_event_def)
next
  case False
  assume I: "server_inv s" and "in_event_ok l ev s"
  then obtain st where st: "inbound_map s (ev_fd ev) = Some st" "recvs_ok (remaining_capacity (read_buf st)) (ev_recvs ev)"
    using False by (auto simp: in_event_ok_def split: option.splits)
  from in_event_keeps [OF I False st] obtain s' where "handle_in_event l ev s = ok s'" by blast
  with server_step.in_event [OF False st this] show ?thesis by (simp add: one_step)
qed

lemma in_events_run: "server_inv s \<Longrightarrow> in_events_ok l evs s \<Longrightarrow> runs s (handle_in_events l evs s)"
proof (induction evs arbitrary: s)
  case (Cons ev evs)
  have "runs s (handle_in_event l ev s)" using in_event_runs Cons.prems by simp
  then show ?case
  proof (simp, rule runs_bind)
    fix s' assume "handle_in_event l ev s = ok s'" "server_steps s s'"
    then show "runs s' (handle_in_events l evs s')" using Cons server_steps_keep by auto
  qed
qed (simp add: server_steps.initial)

lemma request_loop_runs: "server_inv s \<Longrightarrow> waits_ok l ws s \<Longrightarrow> runs s (request_loop l ws s)"
proof (induction ws arbitrary: s)
  case (Cons w ws)
  let ?s = "handleDisconnectsInbound s"
  have I: "server_inv ?s" using server_steps_keep [OF scans_run(1) Cons.prems(1)] .
  have "runs ?s (case w of Interrupted \<Rightarrow> request_loop l ws ?s | Wait_Failed \<Rightarrow> ok (?s\<lparr>stop_flag := True\<rparr>)
      | Events evs \<Rightarrow> rbind (handle_in_events l evs ?s) (request_loop l ws))"
  proof (cases w)
    case (Events evs)
    then have "runs ?s (handle_in_events l evs ?s)" using in_events_run [OF I] Cons.prems(2) by (simp add: Let_def)
    then have "runs ?s (rbind (handle_in_events l evs ?s) (request_loop l ws))"
      by (rule runs_bind) (use Cons Events I server_steps_keep in \<open>auto simp: Let_def\<close>)
    then show ?thesis using Events by simp
  qed (use Cons I in \<open>simp_all add: Let_def one_step server_step.halt\<close>)
  then show ?case using runs_after [OF scans_run(1)] by (simp add: Let_def server_steps.initial)
qed (simp add: server_steps.initial)

section \<open>The outbound loop\<close>

definition rings_ok :: "Server \<Rightarrow> bool" where
  "rings_ok s \<longleftrightarrow> ring_inv (sv_out_ring s) \<and> ring_inv (error_channel s)"

lemma rings_cong: "sv_out_ring s' = sv_out_ring s \<Longrightarrow> error_channel s' = error_channel s \<Longrightarrow> rings_ok s' = rings_ok s"
  by (simp add: rings_ok_def)

lemma sendResponse_rings:
  "sendResponse k f out s = (good, sent, out', s') \<Longrightarrow> sv_out_ring s' = sv_out_ring s \<and> error_channel s' = error_channel s"
  by (auto simp: sendResponse_def split: send_status.splits prod.splits if_splits)

lemma condemn_rings: "rings_ok (condemnConnection f b s) = rings_ok s" "rings_ok (put_outbound f out s) = rings_ok s"
  "rings_ok (erase_writable f s) = rings_ok s"
  by (simp_all add: rings_ok_def condemnConnection_def put_outbound_def Let_def)

lemma send_visit_rings: "rings_ok (snd (send_visit k c f s)) = rings_ok s"
  by (auto simp: send_visit_def send_pending_def rings_ok_def put_outbound_def condemnConnection_def Let_def
      dest!: sendResponse_rings split: option.splits prod.splits if_splits)

lemma handle_out_event_rings: "rings_ok (snd (handle_out_event ev s)) = rings_ok s"
  by (auto simp: handle_out_event_def Let_def condemn_rings rings_ok_def put_outbound_def condemnConnection_def
      dest!: sendResponse_rings split: option.splits prod.splits if_splits)

lemma disconnect_rings: "rings_ok (disconnect_outbound f s) = rings_ok s"
  by (simp add: disconnect_outbound_def Let_def rings_ok_def split: option.splits)

lemma scan_rings: "rings_ok (handleDisconnectsOutbound s) = rings_ok s"
proof -
  have "rings_ok (fold disconnect_outbound fs s) = rings_ok s" for fs
    by (induction fs arbitrary: s) (simp_all add: disconnect_rings)
  then show ?thesis by (simp add: handleDisconnectsOutbound_def)
qed

lemma ring_steps: "server_steps s (s\<lparr>sv_out_ring := r\<rparr>)" "server_steps s (s\<lparr>error_channel := e\<rparr>)"
  using one_step [OF server_step.rings [where s = s and r = "sv_in_ring s" and r' = r and e = "error_channel s"]]
    one_step [OF server_step.rings [where s = s and r = "sv_in_ring s" and r' = "sv_out_ring s" and e = e]] by simp_all

lemma routing_runs:
  assumes "rings_ok s"
  shows "\<exists>s'. routeOutboundMessages s = Some s' \<and> server_steps s s' \<and> rings_ok s'"
proof -
  have one: "server_steps t (route_one m t)" for m t
    by (simp add: route_one_def server_steps.initial one_step server_step.route)
  have err: "server_steps t (stage_error pe t)" for pe t
    by (simp add: stage_error_def one_step server_step.route)
  have keep: "sv_out_ring (fold stage_error es t) = sv_out_ring t" for es t
    by (induction es arbitrary: t) (simp_all add: stage_error_def stage_def split: option.splits)
  obtain r r' where "ring_inv r" "ring_inv r'" and "routeOutboundMessages s = Some ((fold stage_error (ring_contents (error_channel s))
       ((fold route_one (ring_contents (sv_out_ring s)) s)\<lparr>sv_out_ring := r\<rparr>))\<lparr>error_channel := r'\<rparr>)" (is "_ = Some ?s")
    using routeOutboundMessages_routes [of s] assms by (auto simp: rings_ok_def)
  moreover have "server_steps s ?s"
    by (rule steps_trans [OF _ ring_steps(2)], rule steps_trans [OF _ fold_steps [OF err]],
        rule steps_trans [OF _ ring_steps(1)], rule fold_steps [OF one])
  ultimately show ?thesis by (auto simp: rings_ok_def keep)
qed

lemma visits_run:
  assumes "server_inv s" and "visits_ok k c fs s"
  shows "server_steps s (snd (beginSends k c fs s))"
  using assms
proof (induction fs arbitrary: s)
  case (Cons f fs)
  obtain sent s1 where v: "send_visit (k f) (c f) f s = (sent, s1)" by fastforce
  have "server_step s s1"
    by (rule server_step.send [OF _ v]) (use Cons.prems(2) in \<open>auto split: option.splits\<close>)
  moreover from this have "server_steps s1 (snd (beginSends k c fs s1))"
    using Cons v server_step_keeps by simp
  ultimately show ?case using v by (auto intro: steps_trans one_step split: prod.splits)
qed (simp add: server_steps.initial)

lemma visits_rings: "rings_ok (snd (beginSends k c fs s)) = rings_ok s"
proof (induction fs arbitrary: s)
  case (Cons f fs)
  then show ?case using send_visit_rings [of "k f" "c f" f s] by (simp split: prod.splits) (metis snd_conv)
qed simp

lemma out_events_run:
  assumes "server_inv s" and "out_events_ok evs s"
  shows "server_steps s (snd (handle_out_events evs s)) \<and> rings_ok (snd (handle_out_events evs s)) = rings_ok s"
  using assms
proof (induction evs arbitrary: s)
  case (Cons ev evs)
  obtain w s1 where h: "handle_out_event ev s = (w, s1)" by fastforce
  have "server_step s s1" using Cons.prems(2) server_step.out_event [OF _ _ h] by (auto split: option.splits)
  moreover from this have "server_steps s1 (snd (handle_out_events evs s1)) \<and> rings_ok (snd (handle_out_events evs s1)) = rings_ok s1"
    using Cons h server_step_keeps by simp
  ultimately show ?case using h handle_out_event_rings [of ev s] by (auto intro: steps_trans one_step split: prod.splits)
qed (simp add: server_steps.initial)

lemma serveResponses_runs:
  assumes "server_inv s" and "rings_ok s" and "rounds_ok rs s"
  shows "\<exists>wire s'. serveResponses rs s = Some (wire, s') \<and> server_steps s s'"
  using assms
proof (induction rs arbitrary: s)
  case (Cons r rs)
  show ?case
  proof (cases "stop_flag s")
    case False
    let ?s = "handleDisconnectsOutbound s"
    obtain s1 where s1: "routeOutboundMessages ?s = Some s1" "server_steps ?s s1" "rings_ok s1"
      using routing_runs [of ?s] Cons.prems(2) by (auto simp: scan_rings)
    have t1: "server_steps s s1" using scans_run(2) s1(2) by (rule steps_trans)
    have I1: "server_inv s1" using server_steps_keep [OF t1 Cons.prems(1)] .
    let ?order = "or_order r (writable_fds s1)"
    obtain w1 s2 where b: "beginSends (or_calls r) (or_condemned_now r) ?order s1 = (w1, s2)" by fastforce
    have v: "visits_ok (or_calls r) (or_condemned_now r) ?order s1" using Cons.prems(3) s1(1) by (simp add: Let_def)
    have t2: "server_steps s s2" using visits_run [OF I1 v] t1 b by (auto intro: steps_trans)
    have I2: "server_inv s2" "rings_ok s2"
      using server_steps_keep [OF t2 Cons.prems(1)] visits_rings [of "or_calls r" "or_condemned_now r" ?order s1] s1(3) b by simp_all
    note K = Cons.prems(3) s1(1) b False
    show ?thesis
    proof (cases "or_wait r")
      case (Events evs)
      obtain w2 s3 where e: "handle_out_events evs s2 = (w2, s3)" by fastforce
      have "out_events_ok evs s2" using K Events by (simp add: Let_def)
      then have t3: "server_steps s2 s3" "rings_ok s3" using out_events_run [OF I2(1), of evs] I2(2) e by auto
      then have "\<exists>wire s'. serveResponses rs s3 = Some (wire, s') \<and> server_steps s3 s'"
        using Cons.IH [of s3] server_steps_keep [OF t3(1) I2(1)] K Events e by (simp add: Let_def)
      then show ?thesis using K Events e t2 t3(1) by (fastforce intro: steps_trans)
    next
      case Interrupted
      then have "\<exists>wire s'. serveResponses rs s2 = Some (wire, s') \<and> server_steps s2 s'"
        using Cons.IH [of s2] I2 K by (simp add: Let_def)
      then show ?thesis using K Interrupted t2 by (fastforce intro: steps_trans)
    qed (use K t2 in simp)
  qed (simp add: server_steps.initial)
qed (simp add: server_steps.initial)

section \<open>Properties\<close>


definition hup5 :: in_event where
  "hup5 = \<lparr>ev_fd = 5, ev_hup = True, ev_accepts = [], ev_clock = (\<lambda>_. 0), ev_errno = EAGAIN, ev_recvs = []\<rparr>"

definition idle_round :: out_round where
  "idle_round = \<lparr>or_order = (\<lambda>_. [5]), or_calls = (\<lambda>_. short_send), or_condemned_now = (\<lambda>_. False), or_wait = Interrupted\<rparr>"


end
