(* ===== verification/Order_Factory.thy ===== *)
theory Order_Factory
  imports Complex_Main Protocol Validation
begin

text \<open>
  \<^verbatim>\<open>client/include/order_factory.hpp\<close>: the generator of the client's requests.

  The random numbers are arguments: one record of draws per frame, with the values the
  distributions return. A double is a rational number (rounding is not modelled); \<open>d_step\<close> is the
  value of \<^verbatim>\<open>exp\<close> of the drawn log return. Casting a double to a 32-bit unsigned integer drops the
  fraction and is undefined from \<open>2\<^sup>3\<^sup>2\<close> on.
\<close>

datatype FrameKind = Kind_NEW | Kind_CANCEL | Kind_MODIFY | Kind_GARBAGE | Kind_INVALID

record draws =
  d_step :: rat
  d_roll :: int
  d_side :: bool
  d_type :: bool
  d_return :: rat
  d_qty :: rat
  d_pad :: "byte list"    \<comment> \<open>the padding bytes of the struct\<close>
  d_dst :: "byte list"    \<comment> \<open>what the frame buffer on the stack holds before\<close>

record OrderFactory =
  mid_price :: rat
  frame_count :: "32 word"

definition MID_PRICE_INITIAL :: rat where "MID_PRICE_INITIAL = 100 * 100"

definition MID_PRICE_UPDATE_N :: "32 word" where "MID_PRICE_UPDATE_N = 16"

definition OrderFactory_new :: OrderFactory where
  "OrderFactory_new = \<lparr>mid_price = MID_PRICE_INITIAL, frame_count = 0\<rparr>"

section \<open>Fields\<close>

definition limit_price :: "rat \<Rightarrow> rat \<Rightarrow> Side \<Rightarrow> Price res" where
  "limit_price mid ret side =
     (let spread = \<bar>ret\<bar> * mid;
          raw = (if side = BID then mid - spread else mid + spread);
          x = max 1 raw
      in if 2 ^ 32 \<le> x then fail Conversion_Overflow else ok (of_int \<lfloor>x\<rfloor>))"

definition clamp :: "rat \<Rightarrow> rat \<Rightarrow> rat \<Rightarrow> rat" where
  "clamp v lo hi = (if v < lo then lo else if hi < v then hi else v)"

definition order_qty :: "rat \<Rightarrow> Quantity" where
  "order_qty q = of_int \<lfloor>clamp q 1 1000000\<rfloor>"

definition side_of :: "bool \<Rightarrow> Side" where
  "side_of b = (if b then ASK else BID)"

definition type_of :: "bool \<Rightarrow> OrderType" where
  "type_of b = (if b then LIMIT else MARKET)"

section \<open>Messages\<close>

definition make_new :: "draws \<Rightarrow> rat \<Rightarrow> ClientId \<Rightarrow> InboundMessage res" where
  "make_new d mid cid =
     (let side = side_of (d_side d); order_type = type_of (d_type d)
      in rbind (if order_type = LIMIT then limit_price mid (d_return d) side else ok 0) (\<lambda>price.
           ok (InboundMessage_zero\<lparr>im_order_id := 0, im_client_id := cid, im_price := price,
                 im_quantity := order_qty (d_qty d), im_message_type := NEW, im_side := side, im_order_type := order_type\<rparr>)))"

definition make_cancel :: "ClientId \<Rightarrow> OrderId \<Rightarrow> InboundMessage" where
  "make_cancel cid target_oid =
     InboundMessage_zero\<lparr>im_order_id := target_oid, im_client_id := cid, im_price := 0, im_quantity := 0,
       im_message_type := CANCEL, im_side := BID, im_order_type := LIMIT\<rparr>"

definition make_modify :: "draws \<Rightarrow> rat \<Rightarrow> ClientId \<Rightarrow> OrderId \<Rightarrow> InboundMessage res" where
  "make_modify d mid cid target_oid =
     (let side = side_of (d_side d)
      in rbind (limit_price mid (d_return d) side) (\<lambda>price.
           ok (InboundMessage_zero\<lparr>im_order_id := target_oid, im_client_id := cid, im_price := price,
                 im_quantity := order_qty (d_qty d), im_message_type := MODIFY, im_side := side, im_order_type := LIMIT\<rparr>)))"

text \<open>\<^verbatim>\<open>make_invalid_body\<close>; \<open>coin\<close> and \<open>big\<close> are its draws.\<close>

definition make_invalid_body :: "bool \<Rightarrow> Quantity \<Rightarrow> ClientId \<Rightarrow> InboundMessage" where
  "make_invalid_body coin big cid =
     (if coin
      then InboundMessage_zero\<lparr>im_order_id := 0, im_client_id := cid, im_price := 0, im_quantity := 100,
             im_message_type := NEW, im_side := BID, im_order_type := LIMIT\<rparr>
      else InboundMessage_zero\<lparr>im_order_id := 0, im_client_id := cid, im_price := 100, im_quantity := big,
             im_message_type := NEW, im_side := BID, im_order_type := LIMIT\<rparr>)"

definition build_frame :: "draws \<Rightarrow> ClientId \<Rightarrow> OrderId \<Rightarrow> OrderFactory \<Rightarrow> (FrameKind \<times> byte list \<times> InboundMessage \<times> OrderFactory) res" where
  "build_frame d cid active_order fac =
     (let n = frame_count fac + 1;
          mid = (if and n (MID_PRICE_UPDATE_N - 1) = 0 then mid_price fac * d_step d else mid_price fac);
          fac1 = \<lparr>mid_price = mid, frame_count = n\<rparr>;
          r = d_roll d
      in if 20 < r
         then rbind (make_new d mid cid) (\<lambda>msg. ok (Kind_NEW, frame_message (d_pad d) msg (d_dst d), msg, fac1))
         else if 8 < r
         then let msg = make_cancel cid active_order
              in ok (Kind_CANCEL, frame_message (d_pad d) msg (d_dst d), msg, fac1)
         else rbind (make_modify d mid cid active_order) (\<lambda>msg. ok (Kind_MODIFY, frame_message (d_pad d) msg (d_dst d), msg, fac1)))"

section \<open>Facts\<close>

lemma of_int_word_le:
  assumes "0 \<le> k" and "k \<le> n" and "n < 2 ^ 32"
  shows "(of_int k :: 32 word) \<le> of_int n"
  using assms by (simp add: word_le_def uint_word_of_int)

lemma order_qty_bounds: "1 \<le> order_qty q \<and> order_qty q \<le> 1000000"
proof -
  have "1 \<le> clamp q 1 1000000" "clamp q 1 1000000 \<le> 1000000" by (auto simp: clamp_def)
  then have "1 \<le> \<lfloor>clamp q 1 1000000\<rfloor>" "\<lfloor>clamp q 1 1000000\<rfloor> \<le> 1000000" by linarith+
  then show ?thesis
    using of_int_word_le [of 1 "\<lfloor>clamp q 1 1000000\<rfloor>"] of_int_word_le [of "\<lfloor>clamp q 1 1000000\<rfloor>" 1000000]
    by (simp add: order_qty_def)
qed

lemma limit_price_bounds:
  assumes "limit_price mid ret side = ok p" and "0 \<le> mid" and "(1 + \<bar>ret\<bar>) * mid \<le> of_nat hi" and "1 \<le> hi" and "hi < 2 ^ 32"
  shows "1 \<le> p \<and> p \<le> of_nat hi"
proof -
  define x where "x = max 1 (if side = BID then mid - \<bar>ret\<bar> * mid else mid + \<bar>ret\<bar> * mid)"
  have m: "0 \<le> \<bar>ret\<bar> * mid" using assms(2) by simp
  have "x \<le> of_nat hi" using assms(3,4) m by (auto simp: x_def algebra_simps)
  moreover have "1 \<le> x" by (simp add: x_def)
  ultimately have l: "1 \<le> \<lfloor>x\<rfloor>" and h: "\<lfloor>x\<rfloor> \<le> int hi" by (linarith, simp add: floor_le_iff)+
  have n1: "int hi < 2 ^ 32" using assms(5) by simp
  have n2: "\<lfloor>x\<rfloor> < 2 ^ 32" by (rule le_less_trans [OF h n1])
  have n3: "0 \<le> \<lfloor>x\<rfloor>" using l by linarith
  have p: "p = of_int \<lfloor>x\<rfloor>" using assms(1) by (simp add: limit_price_def x_def Let_def split: if_splits)
  show ?thesis unfolding p
    using of_int_word_le [OF _ l n2] of_int_word_le [OF n3 h n1] by simp
qed

lemma limit_price_returns:
  assumes "0 \<le> mid" and "(1 + \<bar>ret\<bar>) * mid \<le> of_nat hi" and "1 \<le> hi" and "hi < 2 ^ 32"
  shows "\<exists>p. limit_price mid ret side = ok p"
proof -
  define x where "x = max 1 (if side = BID then mid - \<bar>ret\<bar> * mid else mid + \<bar>ret\<bar> * mid)"
  have m: "0 \<le> \<bar>ret\<bar> * mid" using assms(1) by simp
  have "x \<le> of_nat hi" using assms(2,3) m by (auto simp: x_def algebra_simps)
  also have "(of_nat hi :: rat) < 2 ^ 32" using assms(4) by simp
  finally show ?thesis by (simp add: limit_price_def x_def Let_def)
qed

text \<open>The mid price a frame is built with.\<close>

definition next_mid :: "draws \<Rightarrow> OrderFactory \<Rightarrow> rat" where
  "next_mid d fac = (if and (frame_count fac + 1) (MID_PRICE_UPDATE_N - 1) = 0 then mid_price fac * d_step d else mid_price fac)"

definition on_ladder :: "InboundMessage \<Rightarrow> bool" where
  "on_ladder msg \<longleftrightarrow> (im_message_type msg \<noteq> CANCEL \<and> im_order_type msg \<noteq> MARKET \<longrightarrow> valid_price (im_price msg))"

lemma factory_message:
  assumes "0 \<le> next_mid d fac" and "(1 + \<bar>d_return d\<bar>) * next_mid d fac \<le> 100000"
    and "length (d_pad d) = 9" and "length (d_dst d) = 72"
  shows "\<exists>k frame msg fac'. build_frame d cid oid fac = ok (k, frame, msg, fac') \<and> length frame = 72
     \<and> parse_frame frame = Some msg \<and> validate_message msg \<and> on_ladder msg \<and> im_client_id msg = cid
     \<and> mid_price fac' = next_mid d fac \<and> frame_count fac' = frame_count fac + 1"
proof -
  let ?mid = "next_mid d fac"
  have h: "(1 + \<bar>d_return d\<bar>) * ?mid \<le> of_nat 100000" using assms(2) by simp
  obtain p where p: "limit_price ?mid (d_return d) (side_of (d_side d)) = ok p"
    using limit_price_returns [OF assms(1) h] by auto
  from limit_price_bounds [OF p assms(1) h] have v: "valid_price p" "1 \<le> p" by (simp_all add: valid_price_def MIN_PRICE_def MAX_PRICE_def)
  have q: "order_qty (d_qty d) \<le> 1000000" using order_qty_bounds by blast
  note f = parse_frame_message [OF assms(4,3)]
  have m: "build_frame d cid oid fac =
     (if 20 < d_roll d
         then rbind (make_new d ?mid cid) (\<lambda>msg. ok (Kind_NEW, frame_message (d_pad d) msg (d_dst d), msg, \<lparr>mid_price = ?mid, frame_count = frame_count fac + 1\<rparr>))
         else if 8 < d_roll d
         then ok (Kind_CANCEL, frame_message (d_pad d) (make_cancel cid oid) (d_dst d), make_cancel cid oid, \<lparr>mid_price = ?mid, frame_count = frame_count fac + 1\<rparr>)
         else rbind (make_modify d ?mid cid oid) (\<lambda>msg. ok (Kind_MODIFY, frame_message (d_pad d) msg (d_dst d), msg, \<lparr>mid_price = ?mid, frame_count = frame_count fac + 1\<rparr>)))"
    by (simp only: build_frame_def Let_def next_mid_def)
  show ?thesis unfolding m using p v q f
    by (auto simp: make_new_def make_modify_def make_cancel_def Let_def validate_message_iff on_ladder_def side_of_def type_of_def
        MIN_PRICE_def)
qed

section \<open>Properties\<close>

text \<open>
  C30: every frame the factory builds is one the exchange accepts. As long as the mid price and the
  drawn spread keep the limit price on the ladder, \<^verbatim>\<open>build_frame\<close> succeeds for every draw, and its
  72-byte frame parses to a message of the requesting client that passes validation and that the
  engine can execute without leaving its level arrays.
\<close>

theorem factory_frames_accepted:
  assumes "0 \<le> next_mid d fac" and "(1 + \<bar>d_return d\<bar>) * next_mid d fac \<le> 100000"
    and "length (d_pad d) = 9" and "length (d_dst d) = INBOUND_BSIZE"
  shows "\<exists>k frame msg fac'. build_frame d cid oid fac = ok (k, frame, msg, fac') \<and> length frame = INBOUND_BSIZE
     \<and> parse_frame frame = Some msg \<and> validate_message msg \<and> on_ladder msg \<and> im_client_id msg = cid"
  using factory_message [OF assms(1-3), of cid oid] assms(4) by (auto simp: INBOUND_BSIZE_def)

definition draws_at :: "int \<Rightarrow> draws" where
  "draws_at r = \<lparr>d_step = 1, d_roll = r, d_side = True, d_type = True, d_return = - (1 / 500), d_qty = 205 / 2,
     d_pad = replicate 9 0, d_dst = replicate 72 7\<rparr>"

theorem factory_frames_accepted_witness:
  "\<exists>k frame msg fac'. build_frame (draws_at 50) 3 0 OrderFactory_new = ok (k, frame, msg, fac') \<and> validate_message msg"
proof -
  have "next_mid (draws_at 50) OrderFactory_new = 10000" by code_simp
  moreover have "d_return (draws_at 50) = - (1 / 500)" "length (d_pad (draws_at 50)) = 9" "length (d_dst (draws_at 50)) = INBOUND_BSIZE"
    by (simp_all add: draws_at_def INBOUND_BSIZE_def)
  ultimately show ?thesis using factory_frames_accepted [of "draws_at 50" OrderFactory_new 3 0] by auto
qed

text \<open>The bodies meant to be invalid are refused.\<close>

lemma invalid_bodies_refused: "1000000 < big \<Longrightarrow> \<not> validate_message (make_invalid_body coin big cid)"
  by (auto simp: validate_message_iff make_invalid_body_def MIN_PRICE_def)

text \<open>Nothing keeps the mid price on the ladder: a high mid price yields a validated order off the ladder.\<close>

lemma mid_price_leaves_ladder:
  "\<exists>msg. make_new (draws_at 50) 200000 cid = ok msg \<and> validate_message msg \<and> \<not> on_ladder msg"
proof -
  have "limit_price 200000 (d_return (draws_at 50)) ASK = ok 200400" by code_simp
  then show ?thesis using order_qty_bounds
    by (simp add: make_new_def draws_at_def side_of_def type_of_def validate_message_iff on_ladder_def valid_price_def
        MIN_PRICE_def MAX_PRICE_def)
qed

end
