(* ===== verification/Load_Generator.thy ===== *)
theory Load_Generator
  imports Order_Factory
begin

text \<open>
  \<^verbatim>\<open>client/include/client_state.hpp\<close> and \<^verbatim>\<open>client/src/load_generator.cpp\<close>: the state machine of one
  client connection, which keeps up to \<^verbatim>\<open>PIPELINE_DEPTH\<close> requests in flight.

  Kernel answers, clock readings and random draws are arguments. \<open>cs_interest\<close> is what the socket is
  registered for with epoll: nothing, or the pair (EPOLLIN, EPOLLOUT). \<open>cs_calls\<close> is no member of the
  struct: it is the record of the \<^verbatim>\<open>socket\<close> and \<^verbatim>\<open>close\<close> calls made for the client, oldest first. The
  32-bit counters are words; they are used modulo the ring sizes, which divide \<open>2\<^sup>3\<^sup>2\<close>.
\<close>

section \<open>State\<close>

definition CLIENT_PIPELINE_DEPTH :: "32 word" where "CLIENT_PIPELINE_DEPTH = 32"

definition MAX_ACTIVE_ORDERS :: "32 word" where "MAX_ACTIVE_ORDERS = 32"

definition RECONNECT_DELAY_MS :: "32 word" where "RECONNECT_DELAY_MS = 1000"

datatype fd_call = Opened int | Closed int

record ClientState =
  cs_client_id :: ClientId
  cs_fd :: int
  connecting :: bool
  cs_write_buf :: Buffer
  cs_read_buf :: Buffer
  acks_pending :: "32 word"
  next_send_ns :: "64 word"
  reconnect_at_ns :: "64 word"
  reconnect_backoff_ms :: "32 word"
  pending_types :: "MessageType list"
  pending_head :: "32 word"
  pending_tail :: "32 word"
  active_orders :: "OrderId list"
  active_write :: "32 word"
  active_count :: "32 word"
  active_read :: "32 word"
  requests_sent :: "64 word"
  responses_ack :: "64 word"
  responses_match :: "64 word"
  responses_err :: "64 word"
  orders_in_flight :: int
  cs_interest :: "(bool \<times> bool) option"
  cs_calls :: "fd_call list"

definition ClientState_new :: "ClientId \<Rightarrow> ClientState" where
  "ClientState_new cid =
     \<lparr>cs_client_id = cid, cs_fd = - 1, connecting = False,
      cs_write_buf = Buffer_new (unat CLIENT_PIPELINE_DEPTH * INBOUND_BSIZE),
      cs_read_buf = Buffer_new (unat CLIENT_PIPELINE_DEPTH * 2 * OUTBOUND_BSIZE),
      acks_pending = 0, next_send_ns = 0, reconnect_at_ns = 0, reconnect_backoff_ms = 0,
      pending_types = replicate (unat CLIENT_PIPELINE_DEPTH) 0, pending_head = 0, pending_tail = 0,
      active_orders = replicate (unat MAX_ACTIVE_ORDERS) 0, active_write = 0, active_count = 0, active_read = 0,
      requests_sent = 0, responses_ack = 0, responses_match = 0, responses_err = 0, orders_in_flight = 0,
      cs_interest = None, cs_calls = []\<rparr>"

section \<open>Connection life cycle\<close>

text \<open>
  The epoll helpers. \<^verbatim>\<open>EPOLL_CTL_MOD\<close> is only called for a descriptor that is registered; the code does not
  look at the results of \<^verbatim>\<open>epoll_ctl\<close>, which are taken to be successes.
\<close>

definition epollAdd :: "bool \<times> bool \<Rightarrow> ClientState \<Rightarrow> ClientState" where
  [simp]: "epollAdd events cs = cs\<lparr>cs_interest := Some events\<rparr>"

definition epollMod :: "bool \<times> bool \<Rightarrow> ClientState \<Rightarrow> ClientState" where
  [simp]: "epollMod events cs = cs\<lparr>cs_interest := Some events\<rparr>"

definition reconnect :: "64 word \<Rightarrow> ClientState \<Rightarrow> ClientState" where
  "reconnect now cs =
     (if cs_fd cs = - 1 then cs
      else let backoff = (if reconnect_backoff_ms cs < RECONNECT_DELAY_MS then reconnect_backoff_ms cs + 50 else reconnect_backoff_ms cs)
           in cs\<lparr>cs_interest := None, cs_calls := cs_calls cs @ [Closed (cs_fd cs)], cs_fd := - 1,
                 orders_in_flight := orders_in_flight cs - int (unat (acks_pending cs)), acks_pending := 0,
                 reconnect_backoff_ms := backoff, reconnect_at_ns := now + ucast backoff * 1000000\<rparr>)"

text \<open>
  \<open>sock\<close> is the result of \<^verbatim>\<open>socket\<close>; \<open>started\<close> says that \<^verbatim>\<open>connect\<close> returned 0 or failed with
  \<^verbatim>\<open>EINPROGRESS\<close>.
\<close>

definition connectClient :: "nat option \<Rightarrow> bool \<Rightarrow> ClientState \<Rightarrow> bool \<times> ClientState" where
  "connectClient sock started cs =
     (case sock of
        None \<Rightarrow> (False, cs)
      | Some fd \<Rightarrow>
          let cs1 = cs\<lparr>cs_calls := cs_calls cs @ [Opened (int fd)], cs_fd := int fd, connecting := True, cs_write_buf := buf_clear (cs_write_buf cs),
                       cs_read_buf := buf_clear (cs_read_buf cs), acks_pending := 0, pending_head := 0, pending_tail := 0,
                       active_write := 0, active_count := 0, active_read := 0\<rparr>
          in if started then (True, epollAdd (False, True) cs1)
             else (False, cs1\<lparr>cs_calls := cs_calls cs1 @ [Closed (int fd)], cs_fd := - 1\<rparr>))"

section \<open>Sending\<close>

fun flush_loop :: "send_result list \<Rightarrow> Buffer \<Rightarrow> send_status \<times> byte list \<times> Buffer" where
  "flush_loop [] b = (if remaining_to_send b = 0 then Send_Done else Send_Blocked, [], b)"
| "flush_loop (r # rs) b =
     (if remaining_to_send b = 0 then (Send_Done, [], b)
      else case write_to r b of
        (n, b') \<Rightarrow>
          if 0 < n then (case flush_loop rs b' of (status, sent, b'') \<Rightarrow> (status, kernel_takes r b @ sent, b''))
          else if n < 0 \<and> r = Send_Failed EAGAIN then (Send_Blocked, [], b')
          else (Send_Fatal, [], b'))"

definition flushWrite :: "64 word \<Rightarrow> send_result list \<Rightarrow> ClientState \<Rightarrow> byte list \<times> ClientState" where
  "flushWrite now rs cs =
     (case flush_loop rs (cs_write_buf cs) of
        (Send_Blocked, sent, b) \<Rightarrow> (sent, epollMod (True, True) (cs\<lparr>cs_write_buf := b\<rparr>))
      | (Send_Fatal, sent, b) \<Rightarrow> (sent, reconnect now (cs\<lparr>cs_write_buf := b\<rparr>))
      | (Send_Done, sent, b) \<Rightarrow> (sent, cs\<lparr>cs_write_buf := try_reset b\<rparr>))"

text \<open>One round of the loop of \<^verbatim>\<open>buildBatch\<close>, after the frame is built.\<close>

definition enqueue_request :: "byte list \<Rightarrow> InboundMessage \<Rightarrow> ClientState \<Rightarrow> ClientState" where
  "enqueue_request frame msg cs =
     cs\<lparr>cs_write_buf := snd (buf_append frame (cs_write_buf cs)),
        active_read := (if im_message_type msg = CANCEL \<or> im_message_type msg = MODIFY then active_read cs + 1 else active_read cs),
        pending_types := (pending_types cs)[unat (pending_tail cs) mod 32 := im_message_type msg],
        pending_tail := pending_tail cs + 1,
        acks_pending := acks_pending cs + 1,
        requests_sent := requests_sent cs + 1,
        orders_in_flight := orders_in_flight cs + 1\<rparr>"

definition active_oid :: "ClientState \<Rightarrow> OrderId" where
  "active_oid cs = (if 0 < active_count cs then active_orders cs ! (unat (active_read cs) mod 32) else 0)"

function build_loop :: "32 word \<Rightarrow> (nat \<Rightarrow> draws) \<Rightarrow> OrderFactory \<Rightarrow> ClientState \<Rightarrow> (OrderFactory \<times> ClientState) res" where
  "build_loop slots ds fac cs =
     (if acks_pending cs < slots
      then rbind (build_frame (ds 0) (cs_client_id cs) (active_oid cs) fac) (\<lambda>r.
             build_loop slots (\<lambda>i. ds (Suc i)) (snd (snd (snd r))) (enqueue_request (fst (snd r)) (fst (snd (snd r))) cs))
      else ok (fac, cs))"
  by pat_completeness auto
termination
proof (relation "measure (\<lambda>(slots, ds, fac, cs). unat slots - unat (acks_pending cs))", goal_cases)
  case (2 slots ds fac cs r)
  then have "acks_pending cs < slots" by simp
  then have "unat (acks_pending cs) < unat slots" "unat (acks_pending cs + 1) = Suc (unat (acks_pending cs))"
    by (simp add: word_less_nat_alt, unat_arith)
  then show ?case by (simp add: enqueue_request_def)
qed simp

declare build_loop.simps [simp del]

text \<open>The clock readings, draws and answers one call of \<^verbatim>\<open>buildBatch\<close> uses.\<close>

record client_calls =
  cc_now1 :: "64 word"
  cc_now2 :: "64 word"
  cc_now3 :: "64 word"
  cc_draws :: "nat \<Rightarrow> draws"
  cc_sends :: "send_result list"

definition saturated :: "64 word \<Rightarrow> 64 word \<Rightarrow> ClientState \<Rightarrow> bool" where
  "saturated inter_arrival now cs =
     (if 0 < inter_arrival then CLIENT_PIPELINE_DEPTH \<le> acks_pending cs \<or> now < next_send_ns cs
      else acks_pending cs = CLIENT_PIPELINE_DEPTH)"

definition buildBatch :: "64 word \<Rightarrow> client_calls \<Rightarrow> OrderFactory \<Rightarrow> ClientState \<Rightarrow> (byte list \<times> OrderFactory \<times> ClientState) res" where
  "buildBatch inter_arrival k fac cs =
     (if 0 < buf_length (cs_write_buf cs) then ok ([], fac, cs)
      else if saturated inter_arrival (cc_now1 k) cs then ok ([], fac, cs)
      else let cs1 = cs\<lparr>cs_write_buf := buf_clear (cs_write_buf cs)\<rparr>;
               slots = (if 0 < inter_arrival then 1 else CLIENT_PIPELINE_DEPTH)
           in rbind (build_loop slots (cc_draws k) fac cs1) (\<lambda>r.
                let cs2 = (if 0 < inter_arrival then (snd r)\<lparr>next_send_ns := cc_now2 k + inter_arrival\<rparr> else snd r)
                in case flushWrite (cc_now3 k) (cc_sends k) cs2 of (sent, cs3) \<Rightarrow> ok (sent, fst r, cs3)))"

section \<open>Receiving\<close>

text \<open>One response frame; \<open>None\<close> is a protocol violation.\<close>

definition handle_response :: "byte list \<Rightarrow> ClientState \<Rightarrow> ClientState option" where
  "handle_response frame cs =
     (case classify frame of
        Bad_Header \<Rightarrow> None
      | Bad_Type \<Rightarrow> None
      | Ack oid \<Rightarrow>
          Some (if 0 < acks_pending cs
                then let sent_type = pending_types cs ! (unat (pending_head cs) mod 32);
                         cs1 = cs\<lparr>pending_head := pending_head cs + 1\<rparr>;
                         cs2 = (if sent_type = NEW
                                then cs1\<lparr>active_orders := (active_orders cs1)[unat (active_write cs1) mod 32 := oid],
                                         active_write := active_write cs1 + 1,
                                         active_count := if active_count cs1 < MAX_ACTIVE_ORDERS then active_count cs1 + 1 else active_count cs1\<rparr>
                                else cs1)
                     in cs2\<lparr>acks_pending := acks_pending cs2 - 1, orders_in_flight := orders_in_flight cs2 - 1,
                            responses_ack := responses_ack cs2 + 1\<rparr>
                else cs)
      | Fill \<Rightarrow> Some (cs\<lparr>responses_match := responses_match cs + 1\<rparr>)
      | Error_Response \<Rightarrow>
          Some (let cs1 = (if 0 < acks_pending cs
                           then cs\<lparr>pending_head := pending_head cs + 1, acks_pending := acks_pending cs - 1,
                                   orders_in_flight := orders_in_flight cs - 1\<rparr>
                           else cs)
                in cs1\<lparr>responses_err := responses_err cs1 + 1\<rparr>))"

lemma handle_response_buf: "handle_response frame cs = Some cs' \<Longrightarrow> cs_read_buf cs' = cs_read_buf cs"
  by (auto simp: handle_response_def Let_def split: response.splits if_splits)

text \<open>The loop over the complete frames; the flag is false after a protocol violation.\<close>

function drain_responses :: "64 word \<Rightarrow> ClientState \<Rightarrow> bool \<times> ClientState" where
  "drain_responses now cs =
     (if OUTBOUND_BSIZE \<le> buf_length (cs_read_buf cs)
      then (case handle_response (take OUTBOUND_BSIZE (buf_view (cs_read_buf cs))) cs of
              None \<Rightarrow> (False, reconnect now cs)
            | Some cs' \<Rightarrow> drain_responses now (cs'\<lparr>cs_read_buf := advance OUTBOUND_BSIZE (cs_read_buf cs')\<rparr>))
      else (True, cs))"
  by pat_completeness auto
termination
proof (relation "measure (\<lambda>(now, cs). buf_length (cs_read_buf cs))", goal_cases)
  case (2 now cs cs')
  then have "cs_read_buf cs' = cs_read_buf cs" by (metis handle_response_buf)
  moreover have "buf_length (advance OUTBOUND_BSIZE (cs_read_buf cs)) < buf_length (cs_read_buf cs)"
    using 2(1) by (auto simp: buf_length_def advance_def Let_def OUTBOUND_BSIZE_def)
  ultimately show ?case by simp
qed simp

declare drain_responses.simps [simp del]

definition handleReadable :: "64 word \<Rightarrow> client_calls \<Rightarrow> recv_result \<Rightarrow> 64 word \<Rightarrow> OrderFactory \<Rightarrow> ClientState \<Rightarrow>
    (byte list \<times> OrderFactory \<times> ClientState) res" where
  "handleReadable inter_arrival k r now fac cs =
     (case read_from r (cs_read_buf cs) of
        (n, b) \<Rightarrow>
          let cs1 = cs\<lparr>cs_read_buf := b\<rparr>
          in if n = 0 then ok ([], fac, reconnect now cs1)
             else if n < 0 then ok ([], fac, if r = Recv_Failed EAGAIN then cs1 else reconnect now cs1)
             else case drain_responses now cs1 of
                    (good, cs2) \<Rightarrow> if good then buildBatch inter_arrival k fac cs2 else ok ([], fac, cs2))"

definition handleConnect :: "64 word \<Rightarrow> client_calls \<Rightarrow> bool \<Rightarrow> 64 word \<Rightarrow> OrderFactory \<Rightarrow> ClientState \<Rightarrow>
    (byte list \<times> OrderFactory \<times> ClientState) res" where
  "handleConnect inter_arrival k err now fac cs =
     (if err then ok ([], fac, reconnect now cs)
      else buildBatch inter_arrival k fac (epollMod (True, False) (cs\<lparr>connecting := False, reconnect_backoff_ms := 0\<rparr>)))"

section \<open>The event loop\<close>

text \<open>One epoll event of \<^verbatim>\<open>run\<close>, with the answers its handlers get.\<close>

record client_event =
  ce_error :: bool
  ce_out :: bool
  ce_in :: bool
  ce_now :: "64 word"
  ce_conn_err :: bool
  ce_calls_out :: client_calls
  ce_calls_in :: client_calls
  ce_recv :: recv_result

text \<open>The EPOLLOUT part of an event, and the event.\<close>

definition handle_writable :: "64 word \<Rightarrow> client_event \<Rightarrow> OrderFactory \<Rightarrow> ClientState \<Rightarrow> (byte list \<times> OrderFactory \<times> ClientState) res" where
  "handle_writable inter_arrival ev fac cs =
     (if connecting cs then handleConnect inter_arrival (ce_calls_out ev) (ce_conn_err ev) (ce_now ev) fac cs
      else case flushWrite (ce_now ev) (cc_sends (ce_calls_out ev)) cs of (sent, cs1) \<Rightarrow> ok (sent, fac, cs1))"

definition handle_client_event :: "64 word \<Rightarrow> client_event \<Rightarrow> OrderFactory \<Rightarrow> ClientState \<Rightarrow> (byte list \<times> OrderFactory \<times> ClientState) res" where
  "handle_client_event inter_arrival ev fac cs =
     (if ce_error ev then ok ([], fac, reconnect (ce_now ev) cs)
      else rbind (if ce_out ev then handle_writable inter_arrival ev fac cs else ok ([], fac, cs))
        (\<lambda>(sent, fac1, cs1).
           if ce_out ev \<and> cs_fd cs1 = - 1 then ok (sent, fac1, cs1)
           else if ce_in ev
           then rbind (handleReadable inter_arrival (ce_calls_in ev) (ce_recv ev) (ce_now ev) fac1 cs1)
                  (\<lambda>(sent2, fac2, cs2). ok (sent @ sent2, fac2, cs2))
           else ok (sent, fac1, cs1)))"

text \<open>The deadline the loop may not sleep past, and the timeout of \<^verbatim>\<open>epoll_wait\<close>.\<close>

definition client_deadline :: "64 word \<Rightarrow> ClientState \<Rightarrow> 64 word \<Rightarrow> 64 word" where
  "client_deadline inter_arrival cs d =
     (if cs_fd cs = - 1 then min d (reconnect_at_ns cs)
      else if 0 < inter_arrival \<and> \<not> connecting cs \<and> acks_pending cs < CLIENT_PIPELINE_DEPTH \<and> buf_length (cs_write_buf cs) = 0
      then min d (next_send_ns cs) else d)"

definition poll_timeout :: "64 word \<Rightarrow> 64 word \<Rightarrow> ClientState list \<Rightarrow> int" where
  "poll_timeout inter_arrival now clients =
     (let min_deadline = fold (client_deadline inter_arrival) clients (- 1)
      in if min_deadline \<noteq> - 1
         then let wait_ns = sint min_deadline - sint now
              in if wait_ns \<le> 0 then 0 else sint (word_of_int (wait_ns div 1000000) :: 32 word)
         else - 1)"

text \<open>
  The loop of \<^verbatim>\<open>run\<close>. A round is the answer of \<^verbatim>\<open>epoll_wait\<close>, whose events name their client by its
  index, and the answers for the two sweeps that follow; the list of rounds ends when \<^verbatim>\<open>running_\<close> is
  cleared. The bytes sent are collected per client.
\<close>

record client_round =
  rn_wait :: "(nat \<times> client_event) wait_result"
  rn_after :: "64 word"
  rn_sock :: "nat \<Rightarrow> nat option"
  rn_started :: "nat \<Rightarrow> bool"
  rn_calls :: "nat \<Rightarrow> client_calls"

fun handle_client_events :: "64 word \<Rightarrow> (nat \<times> client_event) list \<Rightarrow> OrderFactory \<Rightarrow> ClientState list \<Rightarrow>
    ((nat \<times> byte list) list \<times> OrderFactory \<times> ClientState list) res" where
  "handle_client_events ia [] fac css = ok ([], fac, css)"
| "handle_client_events ia ((i, ev) # evs) fac css =
     rbind (handle_client_event ia ev fac (css ! i)) (\<lambda>(sent, fac1, cs1).
       rbind (handle_client_events ia evs fac1 (css[i := cs1])) (\<lambda>(wire, fac2, css2). ok ((i, sent) # wire, fac2, css2)))"

definition reconnect_due :: "64 word \<Rightarrow> nat option \<Rightarrow> bool \<Rightarrow> ClientState \<Rightarrow> ClientState" where
  "reconnect_due after sock started cs =
     (if cs_fd cs = - 1 \<and> reconnect_at_ns cs \<le> after then snd (connectClient sock started cs) else cs)"

definition send_due :: "64 word \<Rightarrow> client_calls \<Rightarrow> OrderFactory \<Rightarrow> ClientState \<Rightarrow> (byte list \<times> OrderFactory \<times> ClientState) res" where
  "send_due ia k fac cs =
     (if cs_fd cs \<noteq> - 1 \<and> \<not> connecting cs \<and> acks_pending cs < CLIENT_PIPELINE_DEPTH \<and> buf_length (cs_write_buf cs) = 0
      then buildBatch ia k fac cs else ok ([], fac, cs))"

fun send_sweep :: "64 word \<Rightarrow> (nat \<Rightarrow> client_calls) \<Rightarrow> nat \<Rightarrow> OrderFactory \<Rightarrow> ClientState list \<Rightarrow>
    ((nat \<times> byte list) list \<times> OrderFactory \<times> ClientState list) res" where
  "send_sweep ia k i fac [] = ok ([], fac, [])"
| "send_sweep ia k i fac (cs # css) =
     rbind (send_due ia (k i) fac cs) (\<lambda>(sent, fac1, cs1).
       rbind (send_sweep ia k (Suc i) fac1 css) (\<lambda>(wire, fac2, css1). ok ((i, sent) # wire, fac2, cs1 # css1)))"

definition client_sweeps :: "64 word \<Rightarrow> client_round \<Rightarrow> OrderFactory \<Rightarrow> ClientState list \<Rightarrow>
    ((nat \<times> byte list) list \<times> OrderFactory \<times> ClientState list) res" where
  "client_sweeps ia r fac css =
     (let css1 = map (\<lambda>i. reconnect_due (rn_after r) (rn_sock r i) (rn_started r i) (css ! i)) [0..<length css]
      in if 0 < ia then send_sweep ia (rn_calls r) 0 fac css1 else ok ([], fac, css1))"

fun client_rounds :: "64 word \<Rightarrow> client_round list \<Rightarrow> OrderFactory \<Rightarrow> ClientState list \<Rightarrow>
    ((nat \<times> byte list) list \<times> OrderFactory \<times> ClientState list) res" where
  "client_rounds ia [] fac css = ok ([], fac, css)"
| "client_rounds ia (r # rs) fac css =
     (case rn_wait r of
        Interrupted \<Rightarrow> client_rounds ia rs fac css
      | Wait_Failed \<Rightarrow> ok ([], fac, css)
      | Events evs \<Rightarrow>
          rbind (handle_client_events ia evs fac css) (\<lambda>(w1, fac1, css1).
            rbind (client_sweeps ia r fac1 css1) (\<lambda>(w2, fac2, css2).
              rbind (client_rounds ia rs fac2 css2) (\<lambda>(w3, fac3, css3). ok (w1 @ w2 @ w3, fac3, css3)))))"

definition LoadGenerator_run :: "64 word \<Rightarrow> (nat \<Rightarrow> nat option) \<Rightarrow> (nat \<Rightarrow> bool) \<Rightarrow> client_round list \<Rightarrow> OrderFactory \<Rightarrow> ClientState list \<Rightarrow>
    ((nat \<times> byte list) list \<times> OrderFactory \<times> ClientState list) res" where
  "LoadGenerator_run ia sock started rs fac css =
     client_rounds ia rs fac (map (\<lambda>i. snd (connectClient (sock i) (started i) (css ! i))) [0..<length css])"

record Stats =
  st_requests_sent :: "64 word"
  st_responses_ack :: "64 word"
  st_responses_match :: "64 word"
  st_responses_err :: "64 word"
  st_orders_in_flight :: int

definition stats :: "ClientState list \<Rightarrow> Stats" where
  "stats clients =
     fold (\<lambda>cs s. s\<lparr>st_requests_sent := st_requests_sent s + requests_sent cs,
                    st_responses_ack := st_responses_ack s + responses_ack cs,
                    st_responses_match := st_responses_match s + responses_match cs,
                    st_responses_err := st_responses_err s + responses_err cs,
                    st_orders_in_flight := st_orders_in_flight s + orders_in_flight cs\<rparr>) clients
       \<lparr>st_requests_sent = 0, st_responses_ack = 0, st_responses_match = 0, st_responses_err = 0, st_orders_in_flight = 0\<rparr>"

definition LoadGenerator_clients :: "nat \<Rightarrow> ClientState list" where
  "LoadGenerator_clients num_clients = map (\<lambda>i. ClientState_new (of_nat (i + 1))) [0..<num_clients]"

end
