(* ===== verification/Client_Pipeline.thy ===== *)
theory Client_Pipeline
  imports Load_Generator
begin

text \<open>
  The pipeline of a client connection: the outstanding requests form a queue, the counters and
  buffers stay inside their bounds, and every operation keeps this. The properties of the client.
\<close>

section \<open>Outstanding requests\<close>

text \<open>The request types still waiting for a response, oldest first.\<close>

definition outstanding :: "ClientState \<Rightarrow> MessageType list" where
  "outstanding cs = map (\<lambda>i. pending_types cs ! ((unat (pending_head cs) + i) mod 32)) [0..<unat (acks_pending cs)]"

lemma unat_add_mod32: "unat (a + b :: 32 word) mod 32 = (unat a + unat b) mod 32"
  by (simp add: unat_word_ariths mod_mod_cancel)

lemma mod32_shift: "(unat (a + 1 :: 32 word) + i) mod 32 = (unat a + Suc i) mod 32"
proof -
  have "(unat (a + 1) + i) mod 32 = (unat (a + 1) mod 32 + i) mod 32" by (simp add: mod_simps)
  also have "\<dots> = (unat a + Suc i) mod 32" by (simp add: unat_add_mod32 mod_simps)
  finally show ?thesis .
qed

lemma mod32_inj: "i < j \<Longrightarrow> j < 32 \<Longrightarrow> (h + i) mod 32 \<noteq> (h + j) mod (32 :: nat)"
  by (metis mod_eq_dvd_iff_nat add_left_cancel add_le_cancel_left less_imp_le diff_add_inverse nat_dvd_not_less
      less_imp_diff_less zero_less_diff add_diff_cancel_left)

definition client_inv :: "ClientState \<Rightarrow> bool" where
  "client_inv cs \<longleftrightarrow>
     unat (acks_pending cs) \<le> 32 \<and> length (pending_types cs) = 32 \<and> length (active_orders cs) = 32
   \<and> unat (active_count cs) \<le> 32 \<and> orders_in_flight cs = int (unat (acks_pending cs))
   \<and> write_inv (cs_write_buf cs) \<and> capacity (cs_write_buf cs) = 2304 \<and> read_off (cs_write_buf cs) = 0
   \<and> read_inv (cs_read_buf cs) \<and> capacity (cs_read_buf cs) = 2048
   \<and> (if cs_fd cs = - 1 then acks_pending cs = 0 else pending_tail cs = pending_head cs + acks_pending cs)"

lemma client_inv_new: "client_inv (ClientState_new cid)"
  by (simp add: client_inv_def ClientState_new_def CLIENT_PIPELINE_DEPTH_def MAX_ACTIVE_ORDERS_def INBOUND_BSIZE_def
      OUTBOUND_BSIZE_def) (simp add: Buffer_new_def)

lemma unat_Suc_acks: "unat (a :: 32 word) < 32 \<Longrightarrow> unat (a + 1) = Suc (unat a)"
  by (simp add: unat_word_ariths)

lemma enqueue_outstanding:
  assumes "unat (acks_pending cs) < 32" and "pending_tail cs = pending_head cs + acks_pending cs" and "length (pending_types cs) = 32"
  shows "outstanding (enqueue_request frame msg cs) = outstanding cs @ [im_message_type msg]"
proof -
  let ?h = "unat (pending_head cs)" and ?a = "unat (acks_pending cs)"
  have t: "unat (pending_tail cs) mod 32 = (?h + ?a) mod 32" unfolding assms(2) by (rule unat_add_mod32)
  have "(?h + ?a) mod 32 \<noteq> (?h + i) mod 32" if "i < ?a" for i using mod32_inj [OF that assms(1), of ?h] by simp
  then show ?thesis using unat_Suc_acks [OF assms(1)] assms(3) t
    by (auto simp: outstanding_def enqueue_request_def)
qed

lemma dequeue_outstanding:
  assumes "unat (acks_pending cs) = Suc n" and "pending_types cs' = pending_types cs"
    and "pending_head cs' = pending_head cs + 1" and "acks_pending cs' = acks_pending cs - 1"
  shows "outstanding cs = pending_types cs ! (unat (pending_head cs) mod 32) # outstanding cs'" and "unat (acks_pending cs') = n"
proof -
  show n: "unat (acks_pending cs') = n" using assms(1,4) by (simp, unat_arith)
  have "[0..<Suc n] = 0 # map Suc [0..<n]" by (metis map_Suc_upt upt_conv_Cons zero_less_Suc)
  then show "outstanding cs = pending_types cs ! (unat (pending_head cs) mod 32) # outstanding cs'"
    using assms n by (simp add: outstanding_def mod32_shift)
qed

section \<open>The operations keep the invariant\<close>

lemma reconnect_inv: "client_inv cs \<Longrightarrow> client_inv (reconnect now cs)"
  by (simp add: client_inv_def reconnect_def Let_def)

lemma clear_sizes [simp]: "capacity (buf_clear b) = capacity b" "buf_len (buf_clear b) = 0" "read_inv (buf_clear b)"
  "write_inv (buf_clear b)" "unsent (buf_clear b) = []" "read_off (buf_clear b) = 0"
  by (simp_all add: buf_clear_def read_inv_def write_inv_def unsent_def)

lemma connect_inv:
  assumes "client_inv cs" and "cs_fd cs = - 1"
  shows "client_inv (snd (connectClient sock started cs))"
  using assms by (auto simp: client_inv_def connectClient_def Let_def split: option.splits)

lemma enqueue_inv:
  assumes "client_inv cs" and "cs_fd cs \<noteq> - 1" and "unat (acks_pending cs) < 32"
    and "buf_len (cs_write_buf cs) \<le> 72 * unat (acks_pending cs)" and "length frame = 72"
  shows "client_inv (enqueue_request frame msg cs)"
    and "unsent (cs_write_buf (enqueue_request frame msg cs)) = unsent (cs_write_buf cs) @ frame"
    and "buf_len (cs_write_buf (enqueue_request frame msg cs)) \<le> 72 * unat (acks_pending (enqueue_request frame msg cs))"
proof -
  let ?b = "cs_write_buf cs"
  have w: "write_inv ?b" "capacity ?b = 2304" "read_off ?b = 0" using assms(1) by (simp_all add: client_inv_def)
  have room: "buf_len ?b + length frame \<le> capacity ?b" using assms(3-5) w(2) by simp
  then have l: "length frame \<le> remaining_capacity ?b" by (simp add: remaining_capacity_def)
  note a = append_unsent [OF w(1) l]
  have b: "snd (buf_append frame ?b) = ?b\<lparr>buf_data := overwrite (buf_data ?b) (buf_len ?b) frame, buf_len := buf_len ?b + 72\<rparr>"
    using room assms(5) by (simp add: buf_append_def has_room_def)
  have cap: "capacity (snd (buf_append frame ?b)) = 2304" unfolding b using overwrite_simps(1) [OF room] w(2) by simp
  note n = unat_Suc_acks [OF assms(3)]
  show "client_inv (enqueue_request frame msg cs)"
    using assms(1-3) a(1) cap n w(3) by (simp add: client_inv_def enqueue_request_def b add.assoc)
  show "unsent (cs_write_buf (enqueue_request frame msg cs)) = unsent ?b @ frame" using a(2) by (simp add: enqueue_request_def)
  show "buf_len (cs_write_buf (enqueue_request frame msg cs)) \<le> 72 * unat (acks_pending (enqueue_request frame msg cs))"
    using assms(4) n by (simp add: enqueue_request_def b)
qed

lemma handle_response_inv:
  assumes "client_inv cs" and "cs_fd cs \<noteq> - 1" and "handle_response frame cs = Some cs'"
  shows "client_inv cs' \<and> cs_fd cs' = cs_fd cs \<and> cs_write_buf cs' = cs_write_buf cs"
proof -
  have d: "unat (acks_pending cs - 1) = unat (acks_pending cs) - 1" "0 < unat (acks_pending cs)" if "0 < acks_pending cs"
    using that by (simp_all add: word_less_nat_alt unat_sub_if_size word_le_nat_alt)
  have u: "uint (acks_pending cs - 1) = uint (acks_pending cs) - 1" if "0 < acks_pending cs"
  proof -
    have "int (unat (acks_pending cs - 1)) = int (unat (acks_pending cs)) - 1" using d [OF that] by linarith
    then show ?thesis by simp
  qed
  have c: "unat (active_count cs + 1) \<le> 32" if "active_count cs < 32"
    using that unat_Suc_acks [of "active_count cs"] by (simp add: word_less_nat_alt)
  note I = assms(1) [unfolded client_inv_def]
  show ?thesis
  proof (cases "classify frame")
    case (Ack oid)
    then show ?thesis using assms(2,3) I d u c
      by (cases "0 < acks_pending cs"; cases "pending_types cs ! (unat (pending_head cs) mod 32) = NEW"; cases "active_count cs < 32")
        (auto simp: handle_response_def client_inv_def Let_def MAX_ACTIVE_ORDERS_def)
  next
    case Error_Response
    then show ?thesis using assms(2,3) I d u
      by (cases "0 < acks_pending cs") (auto simp: handle_response_def client_inv_def Let_def)
  qed (use assms(2,3) I in \<open>auto simp: handle_response_def client_inv_def\<close>)
qed

lemma drain_responses_inv:
  assumes "client_inv cs" and "cs_fd cs \<noteq> - 1" and "drain_responses now cs = (good, cs')"
  shows "client_inv cs' \<and> (good \<longrightarrow> cs_fd cs' = cs_fd cs \<and> cs_write_buf cs' = cs_write_buf cs \<and> buf_length (cs_read_buf cs') < 32)"
  using assms
proof (induction now cs arbitrary: cs' rule: drain_responses.induct)
  case (1 now cs)
  show ?case
  proof (cases "OUTBOUND_BSIZE \<le> buf_length (cs_read_buf cs)")
    case False
    then show ?thesis using 1(2-4) by (auto simp: drain_responses.simps [of now cs] OUTBOUND_BSIZE_def)
  next
    case True
    show ?thesis
    proof (cases "handle_response (take OUTBOUND_BSIZE (buf_view (cs_read_buf cs))) cs")
      case None
      then show ?thesis using True 1(2,4) reconnect_inv by (auto simp: drain_responses.simps [of now cs])
    next
      case (Some cs1)
      let ?cs = "cs1\<lparr>cs_read_buf := advance OUTBOUND_BSIZE (cs_read_buf cs1)\<rparr>"
      have h: "client_inv cs1" "cs_fd cs1 = cs_fd cs" "cs_write_buf cs1 = cs_write_buf cs"
        using handle_response_inv [OF 1(2,3) Some] by simp_all
      have "cs_read_buf cs1 = cs_read_buf cs" using handle_response_buf [OF Some] .
      then have "client_inv ?cs" using h(1) advance_view(1) [of "cs_read_buf cs" OUTBOUND_BSIZE] True
        by (auto simp: client_inv_def advance_def Let_def)
      moreover have "drain_responses now ?cs = (good, cs')" using 1(4) True Some by (simp add: drain_responses.simps [of now cs])
      ultimately show ?thesis using 1(1) [OF True Some] h 1(3) by simp
    qed
  qed
qed

section \<open>Building a batch\<close>

text \<open>
  The draws of a batch keep the limit prices on the ladder while the mid price moves, and the byte
  lists have the sizes of the objects they stand for.
\<close>

definition factory_step :: "draws \<Rightarrow> OrderFactory \<Rightarrow> OrderFactory" where
  "factory_step d fac = \<lparr>mid_price = next_mid d fac, frame_count = frame_count fac + 1\<rparr>"

primrec factory_at :: "(nat \<Rightarrow> draws) \<Rightarrow> OrderFactory \<Rightarrow> nat \<Rightarrow> OrderFactory" where
  "factory_at ds fac 0 = fac"
| "factory_at ds fac (Suc n) = factory_step (ds n) (factory_at ds fac n)"

definition draw_ok :: "draws \<Rightarrow> OrderFactory \<Rightarrow> bool" where
  "draw_ok d fac \<longleftrightarrow> 0 \<le> next_mid d fac \<and> (1 + \<bar>d_return d\<bar>) * next_mid d fac \<le> 100000
     \<and> length (d_pad d) = 9 \<and> length (d_dst d) = 72"

definition draws_ok :: "(nat \<Rightarrow> draws) \<Rightarrow> OrderFactory \<Rightarrow> bool" where
  "draws_ok ds fac \<longleftrightarrow> (\<forall>n. draw_ok (ds n) (factory_at ds fac n))"

lemma factory_at_shift: "factory_at (\<lambda>i. ds (Suc i)) (factory_step (ds 0) fac) n = factory_at ds fac (Suc n)"
  by (induction n) simp_all

lemma draws_ok_step: "draws_ok ds fac \<Longrightarrow> draws_ok (\<lambda>i. ds (Suc i)) (factory_step (ds 0) fac)"
  unfolding draws_ok_def factory_at_shift by blast

text \<open>A frame and the message it carries.\<close>

definition carries :: "ClientId \<Rightarrow> byte list \<Rightarrow> InboundMessage \<Rightarrow> bool" where
  "carries cid frame msg \<longleftrightarrow> length frame = 72 \<and> parse_frame frame = Some msg \<and> validate_message msg \<and> on_ladder msg
     \<and> im_client_id msg = cid"

lemma build_loop_spec:
  assumes "client_inv cs" and "cs_fd cs \<noteq> - 1" and "buf_len (cs_write_buf cs) \<le> 72 * unat (acks_pending cs)"
    and "draws_ok ds fac" and "unat slots \<le> 32"
  shows "\<exists>fac' cs' frames msgs. build_loop slots ds fac cs = ok (fac', cs') \<and> client_inv cs' \<and> cs_fd cs' = cs_fd cs
     \<and> unat (acks_pending cs') = max (unat slots) (unat (acks_pending cs))
     \<and> list_all2 (carries (cs_client_id cs)) frames msgs \<and> length msgs = unat slots - unat (acks_pending cs)
     \<and> unsent (cs_write_buf cs') = unsent (cs_write_buf cs) @ concat frames
     \<and> outstanding cs' = outstanding cs @ map im_message_type msgs"
  using assms
proof (induction slots ds fac cs rule: build_loop.induct)
  case (1 slots ds fac cs)
  show ?case
  proof (cases "acks_pending cs < slots")
    case False
    then have "unat slots \<le> unat (acks_pending cs)" by (simp add: word_less_nat_alt)
    then show ?thesis using False 1(2) by (auto simp: build_loop.simps [of slots ds fac cs] max_def intro!: exI [of _ "[]"])
  next
    case True
    then have a: "unat (acks_pending cs) < unat slots" "unat (acks_pending cs) < 32" using 1(6) by (auto simp: word_less_nat_alt)
    have d: "draw_ok (ds 0) fac" using 1(5) by (metis draws_ok_def factory_at.simps(1))
    obtain k frame msg fac1 where f: "build_frame (ds 0) (cs_client_id cs) (active_oid cs) fac = ok (k, frame, msg, fac1)"
      "carries (cs_client_id cs) frame msg" "fac1 = factory_step (ds 0) fac"
      using factory_message [of "ds 0" fac "cs_client_id cs" "active_oid cs"] d
      by (auto simp: draw_ok_def carries_def factory_step_def)
    let ?cs = "enqueue_request frame msg cs"
    have l: "length frame = 72" using f(2) by (simp add: carries_def)
    note e = enqueue_inv [OF 1(2,3) a(2) 1(4) l, of msg]
    have x: "cs_fd ?cs = cs_fd cs" "cs_client_id ?cs = cs_client_id cs" "unat (acks_pending ?cs) = Suc (unat (acks_pending cs))"
      using unat_Suc_acks [OF a(2)] by (simp_all add: enqueue_request_def)
    have o: "outstanding ?cs = outstanding cs @ [im_message_type msg]"
      using enqueue_outstanding a(2) 1(2,3) by (simp add: client_inv_def)
    have b: "build_loop slots ds fac cs = build_loop slots (\<lambda>i. ds (Suc i)) fac1 ?cs"
      using True f(1) by (simp add: build_loop.simps [of slots ds fac cs])
    obtain fac' cs' frames msgs where r: "build_loop slots (\<lambda>i. ds (Suc i)) fac1 ?cs = ok (fac', cs')" "client_inv cs'"
      "cs_fd cs' = cs_fd cs" "unat (acks_pending cs') = max (unat slots) (Suc (unat (acks_pending cs)))"
      "list_all2 (carries (cs_client_id cs)) frames msgs" "length msgs = unat slots - Suc (unat (acks_pending cs))"
      "unsent (cs_write_buf cs') = unsent (cs_write_buf ?cs) @ concat frames"
      "outstanding cs' = outstanding ?cs @ map im_message_type msgs"
      using 1(1) [OF True f(1)] e(1,3) 1(3,6) x draws_ok_step [OF 1(5)] f(3) by auto
    show ?thesis unfolding b
      using r e(2) o f(2) a(1) by (intro exI [of _ fac'] exI [of _ cs'] exI [of _ "frame # frames"] exI [of _ "msg # msgs"]) auto
  qed
qed

lemma flush_loop_stream:
  assumes "write_inv b" and "sends_ok (remaining_to_send b) rs" and "flush_loop rs b = (status, sent, b')"
  shows "write_inv b' \<and> unsent b = sent @ unsent b' \<and> buf_len b' = buf_len b \<and> capacity b' = capacity b \<and> read_off b' = read_off b
     \<and> (status = Send_Done \<longleftrightarrow> remaining_to_send b' = 0)"
  using assms
proof (induction rs b arbitrary: status sent b' rule: flush_loop.induct)
  case (1 b)
  then show ?case by (auto split: if_splits)
next
  case (2 r rs b)
  show ?case
  proof (cases "remaining_to_send b = 0")
    case True
    then show ?thesis using 2(2,4) by auto
  next
    case False
    show ?thesis
    proof (cases r)
      case (Sent k)
      with 2(3) False have k: "0 < k" "k \<le> remaining_to_send b" "sends_ok (remaining_to_send b - k) rs" by auto
      let ?b = "b\<lparr>bytes_written := bytes_written b + k\<rparr>"
      have w: "write_to r b = (int k, ?b)" by (simp add: Sent write_to_def)
      obtain sent1 where s: "flush_loop rs ?b = (status, sent1, b')" "sent = take k (unsent b) @ sent1"
        using 2(4) False w k(1) by (auto simp: kernel_takes_def Sent split: prod.splits)
      have u: "write_inv ?b" "unsent ?b = drop k (unsent b)" using write_unsent [OF 2(2) k(2)] by (simp_all add: write_to_def)
      have "remaining_to_send ?b = remaining_to_send b - k" by (simp add: remaining_to_send_def)
      with 2(1) [OF False w [symmetric] _ u(1) _ s(1)] k
      have "write_inv b' \<and> unsent ?b = sent1 @ unsent b' \<and> buf_len b' = buf_len b \<and> capacity b' = capacity b
        \<and> read_off b' = read_off b \<and> (status = Send_Done \<longleftrightarrow> remaining_to_send b' = 0)" by simp
      then show ?thesis unfolding s(2) u(2) by (metis append.assoc append_take_drop_id)
    next
      case (Send_Failed e')
      then show ?thesis using 2(2,4) False by (auto simp: write_to_def split: if_splits)
    qed
  qed
qed

lemma flushWrite_inv:
  assumes "client_inv cs" and "sends_ok (remaining_to_send (cs_write_buf cs)) rs" and "flushWrite now rs cs = (sent, cs')"
  shows "client_inv cs' \<and> unsent (cs_write_buf cs) = sent @ unsent (cs_write_buf cs')
     \<and> (cs_fd cs' = cs_fd cs \<longrightarrow> outstanding cs' = outstanding cs \<and> acks_pending cs' = acks_pending cs \<or> cs_fd cs = - 1)"
proof -
  obtain st sent1 b where l: "flush_loop rs (cs_write_buf cs) = (st, sent1, b)" by (metis prod_cases3)
  have w: "write_inv (cs_write_buf cs)" using assms(1) by (simp add: client_inv_def)
  note b = flush_loop_stream [OF w assms(2) l]
  have i: "client_inv (cs\<lparr>cs_write_buf := b\<rparr>)" using assms(1) b by (simp add: client_inv_def)
  show ?thesis
  proof (cases st)
    case Send_Done
    then have c: "cs' = cs\<lparr>cs_write_buf := try_reset b\<rparr>" "sent = sent1" using assms(3) l by (simp_all add: flushWrite_def)
    have "capacity (try_reset b) = capacity b" "read_off (try_reset b) = read_off b" by (simp_all add: try_reset_def)
    then show ?thesis unfolding c using i b try_reset_unsent [of b] by (simp add: client_inv_def outstanding_def cong: if_cong)
  next
    case Send_Blocked
    then have "cs' = cs\<lparr>cs_write_buf := b, cs_interest := Some (True, True)\<rparr>" "sent = sent1" using assms(3) l by (simp_all add: flushWrite_def)
    then show ?thesis using i b by (simp add: client_inv_def outstanding_def cong: if_cong)
  next
    case Send_Fatal
    then have c: "cs' = reconnect now (cs\<lparr>cs_write_buf := b\<rparr>)" "sent = sent1" using assms(3) l by (simp_all add: flushWrite_def)
    show ?thesis unfolding c using reconnect_inv [OF i] b by (auto simp: reconnect_def Let_def)
  qed
qed

text \<open>What the kernel promises for the sends of the batch the client is about to build.\<close>

definition batch_slots :: "64 word \<Rightarrow> 32 word" where
  "batch_slots inter_arrival = (if 0 < inter_arrival then 1 else CLIENT_PIPELINE_DEPTH)"

definition batch_sends_ok :: "64 word \<Rightarrow> client_calls \<Rightarrow> ClientState \<Rightarrow> bool" where
  "batch_sends_ok inter_arrival k cs \<longleftrightarrow>
     sends_ok (72 * (unat (batch_slots inter_arrival) - unat (acks_pending cs))) (cc_sends k)"

lemma list_all2_carries_length: "list_all2 (carries cid) fs ms \<Longrightarrow> length (concat fs) = 72 * length ms"
  by (induction fs ms rule: list_all2_induct) (simp_all add: carries_def)

lemma buildBatch_spec:
  assumes "client_inv cs" and fd: "cs_fd cs \<noteq> - 1" and "draws_ok (cc_draws k) fac" and "batch_sends_ok ia k cs"
  shows "\<exists>sent fac' cs'. buildBatch ia k fac cs = ok (sent, fac', cs') \<and> client_inv cs' \<and>
     (if 0 < buf_length (cs_write_buf cs) \<or> saturated ia (cc_now1 k) cs then sent = [] \<and> cs' = cs
      else \<exists>frames msgs. list_all2 (carries (cs_client_id cs)) frames msgs
        \<and> length msgs = unat (batch_slots ia) - unat (acks_pending cs) \<and> concat frames = sent @ unsent (cs_write_buf cs')
        \<and> (cs_fd cs' = cs_fd cs \<longrightarrow> outstanding cs' = outstanding cs @ map im_message_type msgs
             \<and> unat (acks_pending cs') = max (unat (batch_slots ia)) (unat (acks_pending cs))))"
proof (cases "0 < buf_length (cs_write_buf cs) \<or> saturated ia (cc_now1 k) cs")
  case True
  then show ?thesis using assms(1) by (auto simp: buildBatch_def)
next
  case False
  let ?slots = "batch_slots ia"
  define cs1 where "cs1 = cs\<lparr>cs_write_buf := buf_clear (cs_write_buf cs)\<rparr>"
  have c1: "client_inv cs1" "cs_fd cs1 = cs_fd cs" "cs_client_id cs1 = cs_client_id cs" "acks_pending cs1 = acks_pending cs"
    "outstanding cs1 = outstanding cs" "unsent (cs_write_buf cs1) = []" "buf_len (cs_write_buf cs1) = 0"
    using assms(1) by (simp_all add: cs1_def client_inv_def outstanding_def cong: if_cong)
  have s: "unat ?slots \<le> 32" by (simp add: batch_slots_def CLIENT_PIPELINE_DEPTH_def)
  obtain fac' cs2 frames msgs where r: "build_loop ?slots (cc_draws k) fac cs1 = ok (fac', cs2)" "client_inv cs2"
    "cs_fd cs2 = cs_fd cs" "unat (acks_pending cs2) = max (unat ?slots) (unat (acks_pending cs))"
    "list_all2 (carries (cs_client_id cs)) frames msgs" "length msgs = unat ?slots - unat (acks_pending cs)"
    "unsent (cs_write_buf cs2) = concat frames" "outstanding cs2 = outstanding cs @ map im_message_type msgs"
    using build_loop_spec [OF c1(1) _ _ assms(3) s] c1 fd by auto
  define cs3 where "cs3 = (if 0 < ia then cs2\<lparr>next_send_ns := cc_now2 k + ia\<rparr> else cs2)"
  have c3: "client_inv cs3" "cs_fd cs3 = cs_fd cs" "cs_write_buf cs3 = cs_write_buf cs2" "outstanding cs3 = outstanding cs2"
    "acks_pending cs3 = acks_pending cs2"
    using r(2,3) by (simp_all add: cs3_def client_inv_def outstanding_def cong: if_cong)
  obtain sent cs4 where f: "flushWrite (cc_now3 k) (cc_sends k) cs3 = (sent, cs4)" by fastforce
  have "remaining_to_send (cs_write_buf cs3) = 72 * (unat ?slots - unat (acks_pending cs))"
    using length_unsent [of "cs_write_buf cs2"] r(2,6,7) list_all2_carries_length [OF r(5)] c3(3) by (simp add: client_inv_def)
  with assms(4) have "sends_ok (remaining_to_send (cs_write_buf cs3)) (cc_sends k)" by (simp add: batch_sends_ok_def)
  note fl = flushWrite_inv [OF c3(1) this f]
  have "buildBatch ia k fac cs = ok (sent, fac', cs4)"
    using False r(1) f by (cases "0 < ia") (simp_all add: buildBatch_def Let_def cs1_def [symmetric] batch_slots_def cs3_def)
  then show ?thesis using False fl r c3 fd by (intro exI [of _ sent] exI [of _ fac'] exI [of _ cs4]) auto
qed

section \<open>Runs of a client\<close>

text \<open>
  The steps of one connection's state machine, with the factory the clients share: connecting,
  completing the handshake, a writable socket, a readable socket, an error, and a send slot.
\<close>

inductive client_step :: "64 word \<Rightarrow> OrderFactory \<times> ClientState \<Rightarrow> OrderFactory \<times> ClientState \<Rightarrow> bool" for ia where
  connect: "cs_fd cs = - 1 \<Longrightarrow> client_step ia (fac, cs) (fac, snd (connectClient sock started cs))"
| connected: "cs_fd cs \<noteq> - 1 \<Longrightarrow> draws_ok (cc_draws k) fac \<Longrightarrow> batch_sends_ok ia k cs \<Longrightarrow>
    handleConnect ia k err now fac cs = ok (sent, fac', cs') \<Longrightarrow> client_step ia (fac, cs) (fac', cs')"
| writable: "cs_fd cs \<noteq> - 1 \<Longrightarrow> sends_ok (remaining_to_send (cs_write_buf cs)) rs \<Longrightarrow>
    flushWrite now rs cs = (sent, cs') \<Longrightarrow> client_step ia (fac, cs) (fac, cs')"
| readable: "cs_fd cs \<noteq> - 1 \<Longrightarrow> recv_ok (read_room (cs_read_buf cs)) r \<Longrightarrow> draws_ok (cc_draws k) fac \<Longrightarrow>
    (\<And>cs2. drain_responses now (cs\<lparr>cs_read_buf := snd (read_from r (cs_read_buf cs))\<rparr>) = (True, cs2) \<Longrightarrow> batch_sends_ok ia k cs2) \<Longrightarrow>
    handleReadable ia k r now fac cs = ok (sent, fac', cs') \<Longrightarrow> client_step ia (fac, cs) (fac', cs')"
| failed: "client_step ia (fac, cs) (fac, reconnect now cs)"
| send_slot: "cs_fd cs \<noteq> - 1 \<Longrightarrow> draws_ok (cc_draws k) fac \<Longrightarrow> batch_sends_ok ia k cs \<Longrightarrow>
    buildBatch ia k fac cs = ok (sent, fac', cs') \<Longrightarrow> client_step ia (fac, cs) (fac', cs')"
| others: "client_step ia (fac, cs) (fac', cs)"   \<comment> \<open>another client draws from the factory\<close>

inductive client_run :: "64 word \<Rightarrow> OrderFactory \<times> ClientState \<Rightarrow> OrderFactory \<times> ClientState \<Rightarrow> bool" for ia x where
  begin_run: "client_run ia x x"
| next_step: "client_run ia x y \<Longrightarrow> client_step ia y z \<Longrightarrow> client_run ia x z"

lemma read_from_inv:
  assumes "read_inv b" and "recv_ok (read_room b) r"
  shows "read_inv (snd (read_from r b)) \<and> capacity (snd (read_from r b)) = capacity b"
proof (cases r)
  case (Received bs)
  let ?b = "buf_compact b"
  have l: "length bs \<le> read_room b" using assms(2) Received by (simp add: recv_ok_def)
  have i: "read_inv ?b" "capacity ?b = capacity b" using compact_view [OF assms(1)] by blast+
  have "buf_len ?b + length bs \<le> capacity ?b" using l i(1) by (auto simp: read_room_def remaining_capacity_def read_inv_def)
  from overwrite_simps(1) [OF this] show ?thesis using read_from_view(1) [OF assms(1) l] i(2) Received
    by (simp add: read_from_def Let_def)
qed (use compact_view [OF assms(1)] in \<open>simp_all add: read_from_def Let_def\<close>)

lemma handleReadable_returns:
  assumes "client_inv cs" and "cs_fd cs \<noteq> - 1" and "recv_ok (read_room (cs_read_buf cs)) r" and "draws_ok (cc_draws k) fac"
    and "\<And>cs2. drain_responses now (cs\<lparr>cs_read_buf := snd (read_from r (cs_read_buf cs))\<rparr>) = (True, cs2) \<Longrightarrow> batch_sends_ok ia k cs2"
  shows "\<exists>sent fac' cs'. handleReadable ia k r now fac cs = ok (sent, fac', cs') \<and> client_inv cs'"
proof -
  obtain n b where p: "read_from r (cs_read_buf cs) = (n, b)" by fastforce
  let ?cs = "cs\<lparr>cs_read_buf := b\<rparr>"
  have i: "client_inv ?cs" using read_from_inv [of "cs_read_buf cs" r] assms(1,3) p by (simp add: client_inv_def cong: if_cong)
  obtain good cs2 where d: "drain_responses now ?cs = (good, cs2)" by fastforce
  note dr = drain_responses_inv [OF i _ d]
  show ?thesis
  proof (cases "0 < n \<and> good")
    case True
    then show ?thesis using buildBatch_spec [of cs2 k fac ia] dr d p assms(2,4) assms(5) [of cs2]
      by (auto simp: handleReadable_def Let_def)
  next
    case False
    then show ?thesis using reconnect_inv [OF i] i dr d p assms(2) by (auto simp: handleReadable_def Let_def)
  qed
qed

lemma client_step_inv: "client_step ia x y \<Longrightarrow> client_inv (snd x) \<Longrightarrow> client_inv (snd y)"
proof (induction rule: client_step.induct)
  case (connected cs k fac err now sent fac' cs')
  let ?cs = "cs\<lparr>connecting := False, reconnect_backoff_ms := 0, cs_interest := Some (True, False)\<rparr>"
  have "client_inv ?cs" "batch_sends_ok ia k ?cs" using connected by (simp_all add: client_inv_def batch_sends_ok_def cong: if_cong)
  then show ?case using connected buildBatch_spec [of ?cs k fac ia] reconnect_inv
    by (auto simp: handleConnect_def split: if_splits)
next
  case (readable cs r k fac now sent fac' cs')
  then show ?case using handleReadable_returns [of cs r k fac now ia] by auto
next
  case (send_slot cs k fac sent fac' cs')
  then show ?case using buildBatch_spec [of cs k fac ia] by auto
next
  case (writable cs rs now sent cs' fac)
  then show ?case using flushWrite_inv by auto
qed (simp_all add: connect_inv reconnect_inv)

lemma client_run_inv: "client_run ia x y \<Longrightarrow> client_inv (snd x) \<Longrightarrow> client_inv (snd y)"
  by (induction rule: client_run.induct) (auto intro: client_step_inv)

text \<open>The two sweeps of the loop are steps of the state machine.\<close>

lemma reconnect_due_run: "client_run ia (fac, cs) (fac, reconnect_due after sock started cs)"
  using client_run.next_step [OF client_run.begin_run client_step.connect] client_run.begin_run
  by (simp add: reconnect_due_def)

lemma send_due_run:
  assumes "send_due ia k fac cs = ok (sent, fac', cs')" and "draws_ok (cc_draws k) fac" and "batch_sends_ok ia k cs"
  shows "client_run ia (fac, cs) (fac', cs')"
  using assms client_run.next_step [OF client_run.begin_run client_step.send_slot [of cs k fac ia sent fac' cs']]
    client_run.begin_run [of ia "(fac, cs)"]
  by (auto simp: send_due_def split: if_splits)

section \<open>Sample states\<close>

definition steady :: "nat \<Rightarrow> draws" where "steady = (\<lambda>_. draws_at 50)"

lemma steady_ok: "draws_ok steady OrderFactory_new"
proof -
  have "next_mid (draws_at 50) fac = mid_price fac" for fac by (simp add: next_mid_def draws_at_def)
  moreover from this have "mid_price (factory_at steady OrderFactory_new n) = 10000" for n
    by (induction n) (simp_all add: OrderFactory_new_def MID_PRICE_INITIAL_def factory_step_def steady_def)
  ultimately show ?thesis by (simp add: draws_ok_def draw_ok_def steady_def) (simp add: draws_at_def)
qed

definition client1 :: ClientState where
  "client1 = snd (connectClient (Some 4) True (ClientState_new 1))"

lemma client1_run: "client_run 0 (OrderFactory_new, ClientState_new 1) (OrderFactory_new, client1)"
  unfolding client1_def
  by (rule client_run.next_step [OF client_run.begin_run], rule client_step.connect) (simp add: ClientState_new_def)

lemma client1_sel: "cs_fd client1 = 4" "acks_pending client1 = 0" "buf_length (cs_write_buf client1) = 0" "cs_client_id client1 = 1"
  "client_inv client1"
  using client_run_inv [OF client1_run] client_inv_new
  by (simp_all add: client1_def connectClient_def ClientState_new_def Let_def buf_length_def buf_clear_def)

definition batch_calls :: client_calls where
  "batch_calls = \<lparr>cc_now1 = 0, cc_now2 = 0, cc_now3 = 0, cc_draws = steady, cc_sends = [Sent 100]\<rparr>"

section \<open>Properties\<close>

text \<open>
  C28: the client's pipeline stays inside its bounds in every run: at most 32 requests are
  outstanding, the ring of their types holds exactly those, the in-flight statistic is exact, every
  batch fits the write buffer (so no frame is ever dropped by \<^verbatim>\<open>append\<close>), and a closed connection has
  nothing outstanding.
\<close>

theorem client_pipeline_bounded:
  assumes "client_run ia (fac, ClientState_new cid) (fac', cs)"
  shows "acks_pending cs \<le> CLIENT_PIPELINE_DEPTH \<and> orders_in_flight cs = int (length (outstanding cs))
     \<and> length (outstanding cs) = unat (acks_pending cs)
     \<and> bytes_written (cs_write_buf cs) \<le> buf_len (cs_write_buf cs)
     \<and> buf_len (cs_write_buf cs) \<le> unat CLIENT_PIPELINE_DEPTH * INBOUND_BSIZE
     \<and> (cs_fd cs = - 1 \<longrightarrow> outstanding cs = []) \<and> (cs_fd cs \<noteq> - 1 \<longrightarrow> pending_tail cs - pending_head cs = acks_pending cs)"
proof -
  have "client_inv cs" using client_run_inv [OF assms] client_inv_new by simp
  then show ?thesis
    by (auto simp: client_inv_def outstanding_def CLIENT_PIPELINE_DEPTH_def INBOUND_BSIZE_def word_le_nat_alt write_inv_def split: if_splits)
qed

theorem client_pipeline_bounded_witness: "orders_in_flight client1 = int (length (outstanding client1))"
  using client_pipeline_bounded [OF client1_run] by blast

text \<open>
  What a batch is. On a connected client with an empty write buffer and a pipeline that is not
  full, \<^verbatim>\<open>buildBatch\<close> returns after building exactly one frame per free slot, each carrying a validated
  message of this client; the frames are handed to the kernel in order, as far as it takes them, the
  rest stays in the write buffer, and the types are queued behind the outstanding ones. Otherwise
  nothing happens.
\<close>

theorem batch_fills_pipeline:
  assumes "client_run 0 (fac0, ClientState_new cid) (fac, cs)" and "cs_fd cs \<noteq> - 1"
    and "draws_ok (cc_draws k) fac" and "batch_sends_ok 0 k cs"
  shows "\<exists>sent fac' cs'. buildBatch 0 k fac cs = ok (sent, fac', cs') \<and>
     (if 0 < buf_length (cs_write_buf cs) \<or> acks_pending cs = CLIENT_PIPELINE_DEPTH then sent = [] \<and> cs' = cs
      else \<exists>frames msgs. list_all2 (carries (cs_client_id cs)) frames msgs \<and> length msgs = 32 - unat (acks_pending cs)
        \<and> concat frames = sent @ unsent (cs_write_buf cs')
        \<and> (cs_fd cs' = cs_fd cs \<longrightarrow> outstanding cs' = outstanding cs @ map im_message_type msgs
             \<and> acks_pending cs' = CLIENT_PIPELINE_DEPTH))"
proof -
  have i: "client_inv cs" using client_run_inv [OF assms(1)] client_inv_new by simp
  then have a: "unat (acks_pending cs) \<le> 32" by (simp add: client_inv_def)
  have w: "unat x = 32 \<Longrightarrow> x = 32" for x :: "32 word" by unat_arith
  have s: "saturated 0 (cc_now1 k) cs \<longleftrightarrow> acks_pending cs = CLIENT_PIPELINE_DEPTH" "unat (batch_slots 0) = 32"
    by (simp_all add: saturated_def batch_slots_def CLIENT_PIPELINE_DEPTH_def)
  obtain sent fac' cs' where b: "buildBatch 0 k fac cs = ok (sent, fac', cs')" and
    c: "if 0 < buf_length (cs_write_buf cs) \<or> acks_pending cs = CLIENT_PIPELINE_DEPTH then sent = [] \<and> cs' = cs
      else \<exists>frames msgs. list_all2 (carries (cs_client_id cs)) frames msgs \<and> length msgs = 32 - unat (acks_pending cs)
        \<and> concat frames = sent @ unsent (cs_write_buf cs')
        \<and> (cs_fd cs' = cs_fd cs \<longrightarrow> outstanding cs' = outstanding cs @ map im_message_type msgs
             \<and> unat (acks_pending cs') = max 32 (unat (acks_pending cs)))"
    using buildBatch_spec [OF i assms(2,3,4)] unfolding s by blast
  have "unat (acks_pending cs') = max 32 (unat (acks_pending cs)) \<longleftrightarrow> acks_pending cs' = CLIENT_PIPELINE_DEPTH"
    using a w [of "acks_pending cs'"] by (auto simp: CLIENT_PIPELINE_DEPTH_def max_def)
  with b c show ?thesis by auto
qed

theorem batch_fills_pipeline_witness:
  "\<exists>sent fac' cs' frames msgs. buildBatch 0 batch_calls OrderFactory_new client1 = ok (sent, fac', cs')
     \<and> list_all2 (carries 1) frames msgs \<and> length msgs = 32 \<and> concat frames = sent @ unsent (cs_write_buf cs')"
proof -
  have "batch_sends_ok 0 batch_calls client1" "draws_ok (cc_draws batch_calls) OrderFactory_new"
    using steady_ok by (simp_all add: batch_sends_ok_def batch_slots_def CLIENT_PIPELINE_DEPTH_def client1_sel batch_calls_def)
  with batch_fills_pipeline [OF client1_run, of batch_calls] show ?thesis
    by (simp add: client1_sel CLIENT_PIPELINE_DEPTH_def) blast
qed

text \<open>
  C29: responses are attributed first come, first served: an acknowledgement answers the oldest
  outstanding request, frees its slot and stores the order id exactly when that request was a NEW; an
  error frees the oldest slot; a MATCH frees none; anything else is a protocol violation.
\<close>

theorem responses_attributed_fifo:
  assumes "client_inv cs" and "cs_fd cs \<noteq> - 1" and "outstanding cs = t # ts"
  shows "case classify frame of
      Ack oid \<Rightarrow> \<exists>cs'. handle_response frame cs = Some cs' \<and> outstanding cs' = ts
        \<and> active_orders cs' = (if t = NEW then (active_orders cs)[unat (active_write cs) mod 32 := oid] else active_orders cs)
    | Error_Response \<Rightarrow> \<exists>cs'. handle_response frame cs = Some cs' \<and> outstanding cs' = ts \<and> active_orders cs' = active_orders cs
    | Fill \<Rightarrow> \<exists>cs'. handle_response frame cs = Some cs' \<and> outstanding cs' = t # ts \<and> active_orders cs' = active_orders cs
    | _ \<Rightarrow> handle_response frame cs = None"
proof -
  obtain n where n: "unat (acks_pending cs) = Suc n" using assms(3) by (cases "unat (acks_pending cs)") (auto simp: outstanding_def)
  then have p: "0 < acks_pending cs" by (simp add: word_less_nat_alt)
  have hd: "pending_types cs ! (unat (pending_head cs) mod 32) = t" and
    tl: "\<And>cs'. pending_types cs' = pending_types cs \<Longrightarrow> pending_head cs' = pending_head cs + 1 \<Longrightarrow>
      acks_pending cs' = acks_pending cs - 1 \<Longrightarrow> outstanding cs' = ts"
    using dequeue_outstanding(1) [OF n] dequeue_outstanding(1) [OF n, of "cs\<lparr>pending_head := pending_head cs + 1, acks_pending := acks_pending cs - 1\<rparr>"]
      assms(3) by auto
  show ?thesis
  proof (cases "classify frame")
    case (Ack oid)
    then show ?thesis using p hd tl by (cases "t = NEW") (simp_all add: handle_response_def Let_def)
  next
    case Error_Response
    then show ?thesis using p tl by (simp add: handle_response_def Let_def)
  next
    case Fill
    then show ?thesis using assms(3) by (simp add: handle_response_def outstanding_def)
  qed (simp_all add: handle_response_def)
qed

definition waiting1 :: ClientState where
  "waiting1 = client1\<lparr>acks_pending := 1, pending_tail := 1, orders_in_flight := 1\<rparr>"

theorem responses_attributed_fifo_witness:
  "\<exists>cs'. handle_response (response_frame (OutboundMessage_zero\<lparr>om_order_id := 8\<rparr>)) waiting1 = Some cs'
     \<and> outstanding cs' = [] \<and> hd (active_orders cs') = 8"
proof -
  have i: "client_inv waiting1" using client1_sel(5)
    by (simp add: waiting1_def client_inv_def client1_sel cong: if_cong)
      (simp add: client1_def connectClient_def ClientState_new_def Let_def)
  have o: "outstanding waiting1 = [NEW]"
    by code_simp
  have c: "classify (response_frame (OutboundMessage_zero\<lparr>om_order_id := 8\<rparr>)) = Ack 8"
    by (simp add: classify_response OutboundMessage_zero_def MATCH_def)
  have a: "(active_orders waiting1)[unat (active_write waiting1) mod 32 := 8] = 8 # replicate 31 0"
    by code_simp
  show ?thesis using responses_attributed_fifo [OF i _ o, of "response_frame (OutboundMessage_zero\<lparr>om_order_id := 8\<rparr>)"] c a
    by (auto simp: waiting1_def client1_sel)
qed



text \<open>
  A refused connection is retried at once: a \<^verbatim>\<open>connect\<close> that fails immediately leaves the backoff and
  the retry time alone, which has already passed, so the loop polls with a zero timeout.
\<close>

lemma failed_connect_has_no_backoff:
  assumes "connectClient (Some f) False cs = (r, cs')"
  shows "\<not> r \<and> cs_fd cs' = - 1 \<and> reconnect_at_ns cs' = reconnect_at_ns cs \<and> reconnect_backoff_ms cs' = reconnect_backoff_ms cs"
  using assms by (auto simp: connectClient_def Let_def)

lemma overdue_retry_polls:
  assumes "cs_fd cs = - 1" and "reconnect_at_ns cs \<noteq> - 1" and "sint (reconnect_at_ns cs) \<le> sint now"
  shows "poll_timeout ia now [cs] = 0"
proof -
  have "min (- 1) (reconnect_at_ns cs) = reconnect_at_ns cs" by (rule min_absorb2) (rule word_order.extremum)
  then show ?thesis using assms by (simp add: poll_timeout_def client_deadline_def Let_def)
qed

end
