(* ===== verification/Client_Loop.thy ===== *)
theory Client_Loop
  imports Client_Pipeline
begin

text \<open>
  The event loop of the load generator over all its clients: \<^verbatim>\<open>run\<close> gets through every round and keeps
  every client's pipeline inside its bounds, whatever the kernel answers within its interface.
\<close>

section \<open>What the kernel and the draws promise\<close>

text \<open>
  For the EPOLLOUT part of an event, for its EPOLLIN part in the state and with the factory the first
  part leaves, and for a send slot.
\<close>

definition writable_ok :: "64 word \<Rightarrow> client_event \<Rightarrow> OrderFactory \<Rightarrow> ClientState \<Rightarrow> bool" where
  "writable_ok ia ev fac cs \<longleftrightarrow>
     (if connecting cs then draws_ok (cc_draws (ce_calls_out ev)) fac \<and> batch_sends_ok ia (ce_calls_out ev) cs
      else sends_ok (remaining_to_send (cs_write_buf cs)) (cc_sends (ce_calls_out ev)))"

definition readable_ok :: "64 word \<Rightarrow> client_event \<Rightarrow> OrderFactory \<Rightarrow> ClientState \<Rightarrow> bool" where
  "readable_ok ia ev fac cs \<longleftrightarrow> recv_ok (read_room (cs_read_buf cs)) (ce_recv ev) \<and> draws_ok (cc_draws (ce_calls_in ev)) fac
     \<and> (case drain_responses (ce_now ev) (cs\<lparr>cs_read_buf := snd (read_from (ce_recv ev) (cs_read_buf cs))\<rparr>) of
          (good, cs2) \<Rightarrow> good \<longrightarrow> batch_sends_ok ia (ce_calls_in ev) cs2)"

definition client_event_ok :: "64 word \<Rightarrow> client_event \<Rightarrow> OrderFactory \<Rightarrow> ClientState \<Rightarrow> bool" where
  "client_event_ok ia ev fac cs \<longleftrightarrow> cs_fd cs \<noteq> - 1 \<and> (ce_error ev \<or>
     (ce_out ev \<longrightarrow> writable_ok ia ev fac cs) \<and>
     (ce_in ev \<longrightarrow> (case if ce_out ev then handle_writable ia ev fac cs else ok ([], fac, cs) of
                     Some (Inr (sent, fac1, cs1)) \<Rightarrow> readable_ok ia ev fac1 cs1 | _ \<Rightarrow> True)))"

definition slot_send_ok :: "64 word \<Rightarrow> client_calls \<Rightarrow> OrderFactory \<Rightarrow> ClientState \<Rightarrow> bool" where
  "slot_send_ok ia k fac cs \<longleftrightarrow> draws_ok (cc_draws k) fac \<and> batch_sends_ok ia k cs"

fun client_events_ok :: "64 word \<Rightarrow> (nat \<times> client_event) list \<Rightarrow> OrderFactory \<Rightarrow> ClientState list \<Rightarrow> bool" where
  "client_events_ok ia [] fac css \<longleftrightarrow> True"
| "client_events_ok ia ((i, ev) # evs) fac css \<longleftrightarrow> i < length css \<and> client_event_ok ia ev fac (css ! i)
     \<and> (case handle_client_event ia ev fac (css ! i) of
          Some (Inr (sent, fac1, cs1)) \<Rightarrow> client_events_ok ia evs fac1 (css[i := cs1]) | _ \<Rightarrow> True)"

fun sweep_ok :: "64 word \<Rightarrow> (nat \<Rightarrow> client_calls) \<Rightarrow> nat \<Rightarrow> OrderFactory \<Rightarrow> ClientState list \<Rightarrow> bool" where
  "sweep_ok ia k i fac [] \<longleftrightarrow> True"
| "sweep_ok ia k i fac (cs # css) \<longleftrightarrow> slot_send_ok ia (k i) fac cs
     \<and> (case send_due ia (k i) fac cs of Some (Inr (sent, fac1, cs1)) \<Rightarrow> sweep_ok ia k (Suc i) fac1 css | _ \<Rightarrow> True)"

definition reconnected :: "client_round \<Rightarrow> ClientState list \<Rightarrow> ClientState list" where
  "reconnected r css = map (\<lambda>i. reconnect_due (rn_after r) (rn_sock r i) (rn_started r i) (css ! i)) [0..<length css]"

fun client_rounds_ok :: "64 word \<Rightarrow> client_round list \<Rightarrow> OrderFactory \<Rightarrow> ClientState list \<Rightarrow> bool" where
  "client_rounds_ok ia [] fac css \<longleftrightarrow> True"
| "client_rounds_ok ia (r # rs) fac css \<longleftrightarrow>
     (case rn_wait r of
        Interrupted \<Rightarrow> client_rounds_ok ia rs fac css
      | Wait_Failed \<Rightarrow> True
      | Events evs \<Rightarrow> client_events_ok ia evs fac css
          \<and> (case handle_client_events ia evs fac css of
               Some (Inr (w, fac1, css1)) \<Rightarrow>
                 (0 < ia \<longrightarrow> sweep_ok ia (rn_calls r) 0 fac1 (reconnected r css1))
                 \<and> (case client_sweeps ia r fac1 css1 of
                      Some (Inr (w2, fac2, css2)) \<Rightarrow> client_rounds_ok ia rs fac2 css2 | _ \<Rightarrow> True)
             | _ \<Rightarrow> True))"

section \<open>Every handler returns\<close>

text \<open>\<open>returns P m\<close>: the computation returns without a fault, with a result in \<open>P\<close>.\<close>

definition returns :: "('a \<Rightarrow> bool) \<Rightarrow> 'a res \<Rightarrow> bool" where
  "returns P m \<longleftrightarrow> (\<exists>x. m = ok x \<and> P x)"

lemma returns_ok [simp]: "returns P (ok x) \<longleftrightarrow> P x"
  by (simp add: returns_def)

lemma returns_bind: "returns P m \<Longrightarrow> (\<And>x. m = ok x \<Longrightarrow> P x \<Longrightarrow> returns Q (f x)) \<Longrightarrow> returns Q (rbind m f)"
  by (auto simp: returns_def)

abbreviation keeps_client :: "byte list \<times> OrderFactory \<times> ClientState \<Rightarrow> bool" where
  "keeps_client \<equiv> \<lambda>(sent, fac, cs). client_inv cs"

abbreviation keeps_clients :: "nat \<Rightarrow> (nat \<times> byte list) list \<times> OrderFactory \<times> ClientState list \<Rightarrow> bool" where
  "keeps_clients n \<equiv> \<lambda>(wire, fac, css). length css = n \<and> list_all client_inv css"

lemma writable_returns:
  assumes "client_inv cs" and "cs_fd cs \<noteq> - 1" and "writable_ok ia ev fac cs"
  shows "returns keeps_client (handle_writable ia ev fac cs)"
proof (cases "connecting cs")
  case True
  let ?cs = "cs\<lparr>connecting := False, reconnect_backoff_ms := 0, cs_interest := Some (True, False)\<rparr>"
  have "client_inv ?cs" "batch_sends_ok ia (ce_calls_out ev) ?cs" "draws_ok (cc_draws (ce_calls_out ev)) fac"
    using assms(1,3) True by (simp_all add: client_inv_def batch_sends_ok_def writable_ok_def cong: if_cong)
  then show ?thesis using buildBatch_spec [of ?cs "ce_calls_out ev" fac ia] assms(1,2) True
    by (auto simp: handle_writable_def handleConnect_def reconnect_inv returns_def)
next
  case False
  then show ?thesis using assms flushWrite_inv [of cs "cc_sends (ce_calls_out ev)" "ce_now ev"]
    by (simp add: handle_writable_def writable_ok_def split: prod.splits)
qed

lemma client_event_returns:
  assumes "client_inv cs" and "client_event_ok ia ev fac cs"
  shows "returns keeps_client (handle_client_event ia ev fac cs)"
proof (cases "ce_error ev")
  case False
  let ?m = "if ce_out ev then handle_writable ia ev fac cs else ok ([], fac, cs)"
  have "returns keeps_client ?m" using writable_returns assms False by (auto simp: client_event_ok_def)
  then have "returns keeps_client (rbind ?m (\<lambda>(sent, fac1, cs1).
           if ce_out ev \<and> cs_fd cs1 = - 1 then ok (sent, fac1, cs1)
           else if ce_in ev
           then rbind (handleReadable ia (ce_calls_in ev) (ce_recv ev) (ce_now ev) fac1 cs1)
                  (\<lambda>(sent2, fac2, cs2). ok (sent @ sent2, fac2, cs2))
           else ok (sent, fac1, cs1)))"
  proof (rule returns_bind, goal_cases)
    case (1 x)
    obtain sent fac1 cs1 where x: "x = (sent, fac1, cs1)" by (cases x)
    have "readable_ok ia ev fac1 cs1" if "ce_in ev"
      using assms(2) False that 1(1) x by (auto simp: client_event_ok_def split: if_splits)
    moreover have "cs_fd cs1 \<noteq> - 1" if "\<not> ce_out ev" using that 1(1) x assms(2) by (auto simp: client_event_ok_def)
    ultimately show ?case using x 1(2) handleReadable_returns [of cs1 "ce_recv ev" "ce_calls_in ev" fac1 "ce_now ev" ia]
      by (auto simp: readable_ok_def)
  qed
  then show ?thesis using False by (simp add: handle_client_event_def)
qed (use assms(1) in \<open>simp add: handle_client_event_def reconnect_inv\<close>)

lemma client_events_return:
  "list_all client_inv css \<Longrightarrow> client_events_ok ia evs fac css \<Longrightarrow>
     returns (keeps_clients (length css)) (handle_client_events ia evs fac css)"
proof (induction evs arbitrary: fac css)
  case (Cons e evs)
  obtain i ev where e: "e = (i, ev)" by fastforce
  have "client_inv (css ! i)" using Cons.prems e by (simp add: list_all_length)
  then have "returns keeps_client (handle_client_event ia ev fac (css ! i))"
    using client_event_returns Cons.prems(2) e by simp
  then obtain sent fac1 cs1 where h: "handle_client_event ia ev fac (css ! i) = ok (sent, fac1, cs1)" "client_inv cs1"
    by (auto simp: returns_def)
  have "list_all client_inv (css[i := cs1])" using Cons.prems e h(2) by (auto simp: list_all_length nth_list_update)
  then have "returns (keeps_clients (length css)) (handle_client_events ia evs fac1 (css[i := cs1]))"
    using Cons.IH [of "css[i := cs1]" fac1] Cons.prems(2) e h(1) by simp
  then show ?case using e h(1) by (auto simp: returns_def)
qed simp

lemma send_due_returns:
  "client_inv cs \<Longrightarrow> slot_send_ok ia k fac cs \<Longrightarrow> returns keeps_client (send_due ia k fac cs)"
  using buildBatch_spec [of cs k fac ia] by (auto simp: send_due_def slot_send_ok_def returns_def)

lemma sweep_returns:
  "list_all client_inv css \<Longrightarrow> sweep_ok ia k i fac css \<Longrightarrow> returns (keeps_clients (length css)) (send_sweep ia k i fac css)"
proof (induction css arbitrary: i fac)
  case (Cons cs css)
  obtain sent fac1 cs1 where h: "send_due ia (k i) fac cs = ok (sent, fac1, cs1)" "client_inv cs1"
    using send_due_returns [of cs ia "k i" fac] Cons.prems by (auto simp: returns_def)
  then have "returns (keeps_clients (length css)) (send_sweep ia k (Suc i) fac1 css)" using Cons by simp
  then show ?case using h by (auto simp: returns_def)
qed simp

lemma reconnected_inv: "list_all client_inv css \<Longrightarrow> list_all client_inv (reconnected r css) \<and> length (reconnected r css) = length css"
  by (simp add: reconnected_def list_all_length reconnect_due_def connect_inv)

lemma sweeps_return:
  assumes "list_all client_inv css" and "0 < ia \<longrightarrow> sweep_ok ia (rn_calls r) 0 fac (reconnected r css)"
  shows "returns (keeps_clients (length css)) (client_sweeps ia r fac css)"
  using assms(2) reconnected_inv [OF assms(1), of r] sweep_returns [of "reconnected r css" ia "rn_calls r" 0 fac]
  by (auto simp: client_sweeps_def Let_def simp flip: reconnected_def)

lemma rounds_return:
  "list_all client_inv css \<Longrightarrow> client_rounds_ok ia rs fac css \<Longrightarrow>
     returns (keeps_clients (length css)) (client_rounds ia rs fac css)"
proof (induction rs arbitrary: fac css)
  case (Cons r rs)
  show ?case
  proof (cases "rn_wait r")
    case (Events evs)
    obtain w1 fac1 css1 where e: "handle_client_events ia evs fac css = ok (w1, fac1, css1)" "length css1 = length css" "list_all client_inv css1"
      using client_events_return [OF Cons.prems(1), of ia evs fac] Cons.prems(2) Events by (auto simp: returns_def)
    obtain w2 fac2 css2 where s: "client_sweeps ia r fac1 css1 = ok (w2, fac2, css2)" "length css2 = length css" "list_all client_inv css2"
      using sweeps_return [OF e(3), of ia r fac1] Cons.prems(2) Events e(1,2) by (auto simp: returns_def)
    have "returns (keeps_clients (length css)) (client_rounds ia rs fac2 css2)"
      using Cons.IH [OF s(3), of fac2] Cons.prems(2) Events e(1) s(1,2) by simp
    then show ?thesis using Events e(1) s(1) by (auto simp: returns_def)
  qed (use Cons in simp_all)
qed simp

lemma run_returns:
  assumes "list_all client_inv css" and "\<forall>cs \<in> set css. cs_fd cs = - 1"
    and "client_rounds_ok ia rs fac (map (\<lambda>i. snd (connectClient (sock i) (started i) (css ! i))) [0..<length css])"
  shows "returns (keeps_clients (length css)) (LoadGenerator_run ia sock started rs fac css)"
proof -
  have "list_all client_inv (map (\<lambda>i. snd (connectClient (sock i) (started i) (css ! i))) [0..<length css])"
    using assms(1,2) by (auto simp: list_all_length connect_inv)
  from rounds_return [OF this assms(3)] show ?thesis by (simp add: LoadGenerator_run_def)
qed

section \<open>Properties\<close>

lemma stats_in_flight: "st_orders_in_flight (stats css) = sum_list (map orders_in_flight css)"
proof -
  have "st_orders_in_flight (fold (\<lambda>cs s. s\<lparr>st_requests_sent := st_requests_sent s + requests_sent cs,
      st_responses_ack := st_responses_ack s + responses_ack cs, st_responses_match := st_responses_match s + responses_match cs,
      st_responses_err := st_responses_err s + responses_err cs, st_orders_in_flight := st_orders_in_flight s + orders_in_flight cs\<rparr>) css s)
    = st_orders_in_flight s + sum_list (map orders_in_flight css)" for s :: Stats
    by (induction css arbitrary: s) simp_all
  then show ?thesis by (simp add: stats_def)
qed

lemma client_inv_outstanding: "client_inv cs \<Longrightarrow> orders_in_flight cs = int (length (outstanding cs))"
  by (simp add: client_inv_def outstanding_def)


definition handshake :: client_event where
  "handshake = \<lparr>ce_error = False, ce_out = True, ce_in = False, ce_now = 0, ce_conn_err = False,
     ce_calls_out = batch_calls, ce_calls_in = batch_calls, ce_recv = Recv_EOF\<rparr>"

definition first_round :: client_round where
  "first_round = \<lparr>rn_wait = Events [(0, handshake)], rn_after = 0, rn_sock = (\<lambda>_. None), rn_started = (\<lambda>_. False),
     rn_calls = (\<lambda>_. batch_calls)\<rparr>"

lemma first_round_ok: "client_rounds_ok 0 [first_round] OrderFactory_new [client1]"
proof -
  have "batch_sends_ok 0 batch_calls client1" "draws_ok (cc_draws batch_calls) OrderFactory_new"
    using steady_ok by (simp_all add: batch_sends_ok_def batch_slots_def CLIENT_PIPELINE_DEPTH_def batch_calls_def client1_sel)
  then have "client_event_ok 0 handshake OrderFactory_new client1"
    by (simp add: client_event_ok_def handshake_def writable_ok_def client1_sel) (simp add: client1_def connectClient_def Let_def)
  then show ?thesis by (simp add: first_round_def split: option.splits sum.splits prod.splits)
qed


end
