(* ===== verification/Exchange.thy ===== *)
theory Exchange
  imports Engine Server_Loops Client_Loop
begin

text \<open>
  \<^verbatim>\<open>exchange/app/exchange.hpp\<close>: the engine and the server around the two rings they share, and the
  path of a batch of requests from the client's write buffer through the server and the engine back
  to the bytes pending for the client.

  The rings are members of the exchange that the engine (with its book) and the server hold by
  reference. In the model both components carry a copy; \<open>after_server\<close> and \<open>after_engine\<close> put the
  ring contents one component leaves behind into the other.
\<close>

section \<open>Wiring\<close>

record Exchange =
  ex_engine :: Engine
  ex_server :: Server

definition COMMUNICATION_RING_COUNT :: "32 word" where "COMMUNICATION_RING_COUNT = 524288"

definition Exchange_new :: "LatencyHandler \<Rightarrow> Exchange option" where
  "Exchange_new h =
     (case RingBuffer_new InboundMessage_zero COMMUNICATION_RING_COUNT of
        None \<Rightarrow> None
      | Some inr \<Rightarrow>
          (case RingBuffer_new OutboundMessage_zero COMMUNICATION_RING_COUNT of
             None \<Rightarrow> None
           | Some outr \<Rightarrow> Some \<lparr>ex_engine = Engine_new PREALLOCATION_COUNT inr outr, ex_server = Server_new inr outr h\<rparr>))"

definition after_server :: "Server \<Rightarrow> Exchange \<Rightarrow> Exchange" where
  "after_server s x =
     \<lparr>ex_engine = (ex_engine x)\<lparr>in_ring := sv_in_ring s, book := (book (ex_engine x))\<lparr>out_ring := sv_out_ring s\<rparr>\<rparr>,
      ex_server = s\<rparr>"

definition after_engine :: "Engine \<Rightarrow> Exchange \<Rightarrow> Exchange" where
  "after_engine e x =
     \<lparr>ex_engine = e, ex_server = (ex_server x)\<lparr>sv_in_ring := in_ring e, sv_out_ring := out_ring (book e)\<rparr>\<rparr>"

text \<open>
  One turn of each component: the inbound thread reads connection \<open>f\<close>, the engine executes what the
  ring holds, the outbound thread routes the replies.
\<close>

definition exchange_turn :: "(nat \<Rightarrow> Timestamp) \<Rightarrow> errno \<Rightarrow> recv_result list \<Rightarrow> fd \<Rightarrow> nat \<Rightarrow> Exchange \<Rightarrow> Exchange res" where
  "exchange_turn clock e rs f fuel x =
     rbind (readAndProcessBytes clock e rs f (ex_server x)) (\<lambda>s1.
       let x1 = after_server s1 x
       in rbind (engine_step fuel (ex_engine x1)) (\<lambda>en.
            let x2 = after_engine en x1
            in case routeOutboundMessages (ex_server x2) of
                 None \<Rightarrow> None
               | Some s3 \<Rightarrow> ok (after_server s3 x2)))"

definition exchange_inv :: "Exchange \<Rightarrow> bool" where
  "exchange_inv x \<longleftrightarrow> in_ring (ex_engine x) = sv_in_ring (ex_server x) \<and> out_ring (book (ex_engine x)) = sv_out_ring (ex_server x)
     \<and> ring_inv (sv_in_ring (ex_server x)) \<and> ring_inv (sv_out_ring (ex_server x)) \<and> ring_inv (error_channel (ex_server x))
     \<and> server_inv (ex_server x)"

text \<open>No message is under way inside the exchange.\<close>

definition quiet :: "Exchange \<Rightarrow> bool" where
  "quiet x \<longleftrightarrow> ring_contents (sv_in_ring (ex_server x)) = [] \<and> ring_contents (sv_out_ring (ex_server x)) = []
     \<and> ring_contents (error_channel (ex_server x)) = []"

section \<open>From the client's frames to the engine's ring\<close>

definition stamped :: "Timestamp \<Rightarrow> InboundMessage \<Rightarrow> InboundMessage" where
  "stamped t msg = msg\<lparr>im_read_begin_tsc := t\<rparr>"

lemma stamped_checks [simp]: "validate_message (stamped t msg) = validate_message msg" "msg_ok (stamped t msg) = on_ladder msg"
  "im_client_id (stamped t msg) = im_client_id msg"
  by (simp_all add: stamped_def validate_message_iff msg_ok_def on_ladder_def)

lemma carried_outcome: "carries cid frame msg \<Longrightarrow> frame_outcome t frame = Inr (stamped t msg)"
  using stamped_checks(1) [of t msg] by (simp add: carries_def frame_outcome_def stamped_def)

lemma frames_of_batch: "list_all2 (carries cid) fs ms \<Longrightarrow> frames (concat fs) = fs"
proof (induction fs ms rule: list_all2_induct)
  case (Cons f fs m ms)
  then have l: "length f = 72" by (simp add: carries_def)
  with frames_cases(2) [of "f @ concat fs"] Cons show ?case by simp
qed (simp add: frames_cases(1))

lemma outcomes_of_batch:
  assumes "list_all2 (carries cid) fs ms"
  shows "outcome_messages (map (frame_outcome t) fs) = map (stamped t) ms" and "outcome_errors f (map (frame_outcome t) fs) = []"
  using assms by (induction fs ms rule: list_all2_induct) (simp_all add: carried_outcome)

lemma batch_read:
  assumes "server_inv s" and "inbound_map s f = Some st" and "\<not> condemned_inbound s f" and "\<not> condemned_outbound s f"
    and "buf_view (read_buf st) = []" and "recvs_ok (remaining_capacity (read_buf st)) rs"
    and "drained_by e (final_answer (remaining_capacity (read_buf st)) rs)"
    and "delivered (remaining_capacity (read_buf st)) rs = concat fs" and "list_all2 (carries cid) fs ms"
  shows "\<exists>st'. readAndProcessBytes clock e rs f s = ok (s\<lparr>client_map := routes_to f (map (stamped (clock 0)) ms) (client_map s),
       sv_in_ring := ring_push_all (sv_in_ring s) (map (stamped (clock 0)) ms), inbound_map := (inbound_map s)(f := Some st')\<rparr>)
     \<and> buf_view (read_buf st') = []"
proof -
  let ?os = "map (frame_outcome (clock 0)) (frames (concat fs))"
  have al: "frame_aligned (read_buf st)" and fd: "is_fd st = f"
    using assms(1,2) by (auto simp: server_inv_def bufs_ok_def close_inv_def slot_ok_def)
  have bs: "concat fs = buf_view (read_buf st) @ delivered (remaining_capacity (read_buf st)) rs" using assms(5,8) by simp
  note F = frames_of_batch [OF assms(9)]
  have l: "leftover (concat fs) = []" using frames_split [of "concat fs"] unfolding F by simp
  have a: "accept_outcomes f ?os s = s\<lparr>client_map := routes_to f (map (stamped (clock 0)) ms) (client_map s),
       sv_in_ring := ring_push_all (sv_in_ring s) (map (stamped (clock 0)) ms)\<rparr>"
    unfolding F by (simp add: accept_outcomes_def outcomes_of_batch [OF assms(9)])
  obtain st' where "buf_view (read_buf st') = leftover (concat fs)"
    "readAndProcessBytes clock e rs f s = ok ((accept_outcomes f ?os s)\<lparr>inbound_map := (inbound_map s)(f := Some st')\<rparr>)"
    using readAndProcessBytes_round [OF assms(2-4) al assms(6) bs, where clock = clock and e = e and os = ?os] assms(7) fd by auto
  then show ?thesis unfolding a l by auto
qed

section \<open>From the engine's replies to the client's bytes\<close>

lemma fold_route_stream:
  assumes "outbound_map s f = Some out" and "batch_inv out" and "\<not> condemned_inbound s f"
    and "length (ring_contents (staging out)) + length (filter (\<lambda>m. resolve s m = int f) ms) \<le> 63"
  shows "\<exists>out'. outbound_map (fold route_one ms s) f = Some out' \<and> batch_inv out'
     \<and> pending_bytes out' = pending_bytes out @ concat (map response_frame (filter (\<lambda>m. resolve s m = int f) ms))"
  using assms
proof (induction ms arbitrary: s out)
  case (Cons m ms)
  have r: "resolve (route_one m s) = resolve s" by simp
  show ?case
  proof (cases "resolve s m = int f \<and> 0 < resolve s m")
    case True
    let ?out = "push_outbound m out"
    have n: "length (ring_contents (staging out)) < 63" using Cons.prems(4) True by simp
    have o: "outbound_map (route_one m s) f = Some ?out" "\<not> condemned_inbound (route_one m s) f"
      using True Cons.prems(1,3) by (simp_all add: route_one_def stage_def)
    have I: "out_inv out" using Cons.prems(2) by (simp add: batch_inv_def)
    have c: "length (ring_contents (staging ?out)) = Suc (length (ring_contents (staging out)))"
      unfolding push_outbound_contents [OF I] using n by simp
    note p = push_outbound_batch [OF Cons.prems(2), of m]
    have "length (ring_contents (staging ?out)) + length (filter (\<lambda>m. resolve (route_one m s) m = int f) ms) \<le> 63"
      using Cons.prems(4) True unfolding c by simp
    then show ?thesis using Cons.IH [OF o(1) p(1) o(2)] p(2) n True Cons.prems(4) c by (simp add: r)
  next
    case False
    have "resolve s m \<noteq> 0" by (simp add: resolve_def split: option.splits)
    then have F: "resolve s m \<noteq> int f" using False by (auto simp: resolve_def split: option.splits if_splits)
    then have "outbound_map (route_one m s) f = Some out" "\<not> condemned_inbound (route_one m s) f"
      using Cons.prems(1,3) by (auto simp: route_one_def stage_def split: option.splits)
    then show ?thesis using Cons.IH [of "route_one m s" out] Cons.prems F by (simp add: r)
  qed
qed simp

lemma out_ring_frame [simp]:
  "levels (b\<lparr>out_ring := r\<rparr>) s = levels b s" "best (b\<lparr>out_ring := r\<rparr>) s = best b s"
  "non_empty (b\<lparr>out_ring := r\<rparr>) s = non_empty b s" "pay (b\<lparr>out_ring := r\<rparr>) = pay b"
  by (cases s; simp)+ (simp add: pay_def fun_eq_iff)

text \<open>The book the orders represent does not depend on the ring.\<close>

lemma refines_with_ring: "refines b B \<Longrightarrow> refines (b\<lparr>out_ring := r\<rparr>) B"
proof -
  let ?b = "b\<lparr>out_ring := r\<rparr>"
  assume "refines b B"
  then obtain sl where R: "book_rep b sl" and B: "B = book_abs b sl" by (auto simp: refines_def)
  have "core_rep ?b sl" using R links_rep_cong [of b sl ?b] by (simp add: book_rep_core core_rep_def index_rep_def)
  then have "book_rep ?b sl" using R price_rep_env [of b _ _ ?b] by (simp add: book_rep_core)
  then show ?thesis by (rule refinesI) (simp_all add: B)
qed

text \<open>The last leg: routing the replies of a quiet error channel.\<close>

lemma replies_routed:
  assumes "ring_inv (sv_out_ring s)" and "ring_contents (sv_out_ring s) = ms"
    and "ring_inv (error_channel s)" and "ring_contents (error_channel s) = []"
    and "outbound_map s f = Some out" and "batch_inv out" and "\<not> condemned_inbound s f"
    and "replies = filter (\<lambda>m. resolve s m = int f) ms" and "length (ring_contents (staging out)) + length replies \<le> 63"
  shows "\<exists>s' out'. routeOutboundMessages s = Some s' \<and> sv_in_ring s' = sv_in_ring s
     \<and> ring_contents (sv_out_ring s') = [] \<and> ring_contents (error_channel s') = [] \<and> outbound_map s' f = Some out'
     \<and> pending_bytes out' = pending_bytes out @ concat (map response_frame replies)"
proof -
  obtain ra rb where r: "routeOutboundMessages s = Some ((fold route_one ms s\<lparr>sv_out_ring := ra\<rparr>)\<lparr>error_channel := rb\<rparr>)"
    "ring_contents ra = []" "ring_contents rb = []"
    using routeOutboundMessages_routes [OF assms(1,3)] unfolding assms(2,4) by auto
  obtain out' where "outbound_map (fold route_one ms s) f = Some out'"
    "pending_bytes out' = pending_bytes out @ concat (map response_frame replies)"
    using fold_route_stream [OF assms(5-7), of ms] assms(8,9) by auto
  moreover have "sv_in_ring (fold route_one ms t) = sv_in_ring t" for t
    by (induction ms arbitrary: t) (simp_all add: route_one_def stage_def split: option.splits)
  ultimately show ?thesis using r by simp
qed

section \<open>Properties\<close>


definition exchange5 :: Exchange where
  "exchange5 = \<lparr>ex_engine = Engine_new 4 (ring_of InboundMessage_zero) (ring_of OutboundMessage_zero), ex_server = server5\<rparr>"


end
