(* ===== verification/Socket.thy ===== *)
theory Socket
  imports Exchange_Prelude
begin

text \<open>
  \<^verbatim>\<open>exchange/server/include/socket.hpp\<close>: the RAII wrapper of a descriptor. The part of the kernel it talks to is a
  table of open descriptors and of the interest lists of the epoll instances; \<open>k_closes\<close> records the
  successful \<^verbatim>\<open>close\<close> calls, \<open>k_ebadf\<close> counts the calls on a descriptor that is not open. Objects live at
  addresses, so that an assignment can have the same object on both sides.
\<close>

section \<open>The kernel's side\<close>

record Kernel =
  k_open :: "int set"
  k_epoll :: "int \<Rightarrow> int set"
  k_closes :: "int list"
  k_ebadf :: nat

definition Kernel_new :: Kernel where
  "Kernel_new = \<lparr>k_open = {}, k_epoll = (\<lambda>_. {}), k_closes = [], k_ebadf = 0\<rparr>"

text \<open>A system call returns a new descriptor; \<^verbatim>\<open>close\<close> also takes it off every interest list.\<close>

definition open_fd :: "int \<Rightarrow> Kernel \<Rightarrow> Kernel" where
  "open_fd f k = k\<lparr>k_open := insert f (k_open k), k_epoll := (k_epoll k)(f := {})\<rparr>"

definition close_fd :: "int \<Rightarrow> Kernel \<Rightarrow> Kernel" where
  "close_fd f k =
     (if f \<in> k_open k
      then k\<lparr>k_open := k_open k - {f}, k_epoll := (\<lambda>e. k_epoll k e - {f}), k_closes := k_closes k @ [f]\<rparr>
      else k\<lparr>k_ebadf := k_ebadf k + 1\<rparr>)"

text \<open>Removing fails, without effect, on an epoll descriptor that is not open or a list without the descriptor.\<close>

definition epoll_ctl_del :: "int \<Rightarrow> int \<Rightarrow> Kernel \<Rightarrow> Kernel" where
  "epoll_ctl_del ep f k =
     (if ep \<in> k_open k then k\<lparr>k_epoll := (k_epoll k)(ep := k_epoll k ep - {f})\<rparr> else k)"

section \<open>EpollSocket\<close>

record EpollSocket =
  es_fd :: int
  es_epoll_fd :: int

definition EpollSocket_new :: "int \<Rightarrow> int \<Rightarrow> EpollSocket" where
  "EpollSocket_new f ep = \<lparr>es_fd = f, es_epoll_fd = ep\<rparr>"

definition EpollSocket_default :: EpollSocket where
  "EpollSocket_default = \<lparr>es_fd = - 1, es_epoll_fd = - 1\<rparr>"

definition EpollSocket_destroy :: "EpollSocket \<Rightarrow> Kernel \<Rightarrow> Kernel" where
  "EpollSocket_destroy s k =
     (if es_fd s \<noteq> - 1 then close_fd (es_fd s) (epoll_ctl_del (es_epoll_fd s) (es_fd s) k) else k)"

text \<open>The move constructor: the new object and what it leaves of the other one.\<close>

definition EpollSocket_move :: "EpollSocket \<Rightarrow> EpollSocket \<times> EpollSocket" where
  "EpollSocket_move other =
     (\<lparr>es_fd = es_fd other, es_epoll_fd = es_epoll_fd other\<rparr>, other\<lparr>es_fd := - 1, es_epoll_fd := - 1\<rparr>)"

definition EpollSocket_release :: "EpollSocket \<Rightarrow> int \<times> EpollSocket" where
  "EpollSocket_release s = (es_fd s, s\<lparr>es_fd := - 1\<rparr>)"

section \<open>Owners of descriptors\<close>

text \<open>
  The interface of everything that owns at most one descriptor and closes it when it is destroyed: \<open>fd_of\<close> is the
  descriptor, \<open>-1\<close> for none. Destroying a list of owners of different descriptors closes each once.
\<close>

definition held_fds :: "('o \<Rightarrow> int) \<Rightarrow> 'o list \<Rightarrow> int list" where
  "held_fds fd_of xs = filter (\<lambda>f. f \<noteq> - 1) (map fd_of xs)"

locale fd_owner =
  fixes fd_of :: "'o \<Rightarrow> int" and destroy :: "'o \<Rightarrow> Kernel \<Rightarrow> Kernel"
  assumes destroy_none: "fd_of x = - 1 \<Longrightarrow> destroy x k = k"
    and destroy_open: "fd_of x \<noteq> - 1 \<Longrightarrow> fd_of x \<in> k_open k \<Longrightarrow> k_open (destroy x k) = k_open k - {fd_of x}"
    and destroy_ebadf: "fd_of x \<noteq> - 1 \<Longrightarrow> fd_of x \<in> k_open k \<Longrightarrow> k_ebadf (destroy x k) = k_ebadf k"
begin

lemma destroy_all:
  "distinct (held_fds fd_of xs) \<Longrightarrow> set (held_fds fd_of xs) \<subseteq> k_open k \<Longrightarrow>
   k_open (fold destroy xs k) = k_open k - set (held_fds fd_of xs) \<and> k_ebadf (fold destroy xs k) = k_ebadf k"
proof (induction xs arbitrary: k)
  case (Cons x xs)
  show ?case
  proof (cases "fd_of x = - 1")
    case True
    then show ?thesis using Cons by (simp add: held_fds_def destroy_none)
  next
    case False
    then have l: "held_fds fd_of (x # xs) = fd_of x # held_fds fd_of xs" by (simp add: held_fds_def)
    then have k: "k_open (destroy x k) = k_open k - {fd_of x}" "k_ebadf (destroy x k) = k_ebadf k"
      using Cons.prems(2) False destroy_open destroy_ebadf by auto
    have "set (held_fds fd_of xs) \<subseteq> k_open (destroy x k)" "distinct (held_fds fd_of xs)" using Cons.prems unfolding k(1) l by auto
    with Cons.IH [of "destroy x k"] show ?thesis unfolding l by (simp add: k) blast
  qed
qed (simp add: held_fds_def)

end

interpretation sockets: fd_owner es_fd EpollSocket_destroy
  by unfold_locales (auto simp: EpollSocket_destroy_def close_fd_def epoll_ctl_del_def)

section \<open>Objects at addresses\<close>

record Sockets =
  objs :: "nat \<rightharpoonup> EpollSocket"
  kern :: Kernel
  adopted :: "int list"
  released :: "int list"

definition Sockets_new :: "Kernel \<Rightarrow> Sockets" where
  "Sockets_new k = \<lparr>objs = (\<lambda>_. None), kern = k, adopted = [], released = []\<rparr>"

definition sock_construct :: "nat \<Rightarrow> int \<Rightarrow> int \<Rightarrow> Sockets \<Rightarrow> Sockets" where
  "sock_construct a f ep S = S\<lparr>objs := (objs S)(a \<mapsto> EpollSocket_new f ep), adopted := adopted S @ [f]\<rparr>"

definition sock_default :: "nat \<Rightarrow> Sockets \<Rightarrow> Sockets" where
  "sock_default a S = S\<lparr>objs := (objs S)(a \<mapsto> EpollSocket_default)\<rparr>"

definition sock_destroy :: "nat \<Rightarrow> Sockets \<Rightarrow> Sockets" where
  "sock_destroy a S =
     (case objs S a of
        None \<Rightarrow> S
      | Some s \<Rightarrow> S\<lparr>objs := (objs S)(a := None), kern := EpollSocket_destroy s (kern S)\<rparr>)"

definition sock_move :: "nat \<Rightarrow> nat \<Rightarrow> Sockets \<Rightarrow> Sockets" where
  "sock_move a b S =
     (case objs S b of
        None \<Rightarrow> S
      | Some other \<Rightarrow> (case EpollSocket_move other of (new, rest) \<Rightarrow> S\<lparr>objs := (objs S)(b \<mapsto> rest, a \<mapsto> new)\<rparr>))"

text \<open>Move assignment of the object at \<open>b\<close> to the one at \<open>a\<close>.\<close>

definition sock_assign :: "nat \<Rightarrow> nat \<Rightarrow> Sockets \<Rightarrow> Sockets" where
  "sock_assign a b S =
     (case (objs S a, objs S b) of
        (Some this, Some other) \<Rightarrow>
          if a \<noteq> b then
            let k = (if es_fd this \<noteq> - 1
                     then close_fd (es_fd this) (epoll_ctl_del (es_epoll_fd this) (es_fd this) (kern S)) else kern S);
                this' = this\<lparr>es_fd := es_fd other, es_epoll_fd := es_epoll_fd other\<rparr>;
                other' = other\<lparr>es_fd := - 1, es_epoll_fd := - 1\<rparr>
            in S\<lparr>objs := (objs S)(a \<mapsto> this', b \<mapsto> other'), kern := k\<rparr>
          else S
      | _ \<Rightarrow> S)"

definition sock_release :: "nat \<Rightarrow> Sockets \<Rightarrow> Sockets" where
  "sock_release a S =
     (case objs S a of
        None \<Rightarrow> S
      | Some s \<Rightarrow> (case EpollSocket_release s of
          (f, s') \<Rightarrow> S\<lparr>objs := (objs S)(a \<mapsto> s'), released := (if f = - 1 then released S else released S @ [f])\<rparr>))"

section \<open>Use of the class\<close>

definition owns :: "Sockets \<Rightarrow> nat \<Rightarrow> int \<Rightarrow> bool" where
  "owns S a f \<longleftrightarrow> f \<noteq> - 1 \<and> (\<exists>s. objs S a = Some s \<and> es_fd s = f)"

text \<open>
  What a program may do: give an open descriptor that no object owns to a new object, and use the
  members on live objects. Descriptors no object owns come and go by other calls.
\<close>

inductive sock_step :: "Sockets \<Rightarrow> Sockets \<Rightarrow> bool" where
  construct: "objs S a = None \<Longrightarrow> f \<in> k_open (kern S) \<Longrightarrow> f \<noteq> - 1 \<Longrightarrow> \<forall>b. \<not> owns S b f \<Longrightarrow> sock_step S (sock_construct a f ep S)"
| make_default: "objs S a = None \<Longrightarrow> sock_step S (sock_default a S)"
| destroy: "objs S a = Some s \<Longrightarrow> sock_step S (sock_destroy a S)"
| move: "objs S a = None \<Longrightarrow> objs S b = Some s \<Longrightarrow> sock_step S (sock_move a b S)"
| assign: "objs S a = Some s \<Longrightarrow> objs S b = Some t \<Longrightarrow> sock_step S (sock_assign a b S)"
| release: "objs S a = Some s \<Longrightarrow> sock_step S (sock_release a S)"
| other_open: "f \<notin> k_open (kern S) \<Longrightarrow> sock_step S (S\<lparr>kern := open_fd f (kern S)\<rparr>)"
| other_close: "\<forall>b. \<not> owns S b f \<Longrightarrow> sock_step S (S\<lparr>kern := (kern S)\<lparr>k_open := k_open (kern S) - {f}\<rparr>\<rparr>)"

abbreviation sock_run :: "Sockets \<Rightarrow> Sockets \<Rightarrow> bool" where "sock_run \<equiv> sock_step\<^sup>*\<^sup>*"

lemmas sock_run_start = run_start [where r = sock_step]
lemmas sock_run_step = run_step [where r = sock_step]

definition owned :: "Sockets \<Rightarrow> int \<Rightarrow> nat" where
  "owned S f = (if \<exists>a. owns S a f then 1 else 0)"

definition sock_inv :: "Sockets \<Rightarrow> bool" where
  "sock_inv S \<longleftrightarrow> k_ebadf (kern S) = 0
     \<and> (\<forall>a f. owns S a f \<longrightarrow> f \<in> k_open (kern S))
     \<and> (\<forall>f a b. owns S a f \<longrightarrow> owns S b f \<longrightarrow> a = b)
     \<and> (\<forall>f. f \<noteq> - 1 \<longrightarrow>
          count_list (adopted S) f = count_list (k_closes (kern S)) f + count_list (released S) f + owned S f)"

text \<open>What each member does to ownership.\<close>

lemma owns_construct:
  "objs S a = None \<Longrightarrow> f \<noteq> - 1 \<Longrightarrow> owns (sock_construct a f ep S) b g \<longleftrightarrow> b = a \<and> g = f \<or> owns S b g"
  by (auto simp: owns_def sock_construct_def EpollSocket_new_def)

lemma owns_default: "objs S a = None \<Longrightarrow> owns (sock_default a S) = owns S"
  by (auto simp: owns_def sock_default_def EpollSocket_default_def fun_eq_iff)

lemma owns_destroy: "owns (sock_destroy a S) b g \<longleftrightarrow> b \<noteq> a \<and> owns S b g"
  by (auto simp: owns_def sock_destroy_def split: option.splits)

lemma owns_release: "owns (sock_release a S) b g \<longleftrightarrow> b \<noteq> a \<and> owns S b g"
  by (auto simp: owns_def sock_release_def EpollSocket_release_def split: option.splits)

lemma owns_move:
  "objs S a = None \<Longrightarrow> objs S b = Some s \<Longrightarrow>
   owns (sock_move a b S) c g \<longleftrightarrow> (if c = a then owns S b g else c \<noteq> b \<and> owns S c g)"
  by (auto simp: owns_def sock_move_def EpollSocket_move_def)

lemma owns_assign:
  "objs S a = Some s \<Longrightarrow> objs S b = Some t \<Longrightarrow> a \<noteq> b \<Longrightarrow>
   owns (sock_assign a b S) c g \<longleftrightarrow> (if c = a then owns S b g else c \<noteq> b \<and> owns S c g)"
  by (auto simp: owns_def sock_assign_def Let_def)

lemma destroy_effect:
  assumes "sock_inv S" and "objs S a = Some s"
  shows "k_ebadf (EpollSocket_destroy s (kern S)) = 0"
    and "k_open (EpollSocket_destroy s (kern S)) = k_open (kern S) - {es_fd s} \<or> es_fd s = - 1 \<and> EpollSocket_destroy s (kern S) = kern S"
    and "k_closes (EpollSocket_destroy s (kern S)) = k_closes (kern S) @ (if es_fd s = - 1 then [] else [es_fd s])"
  using assms by (auto simp: sock_inv_def owns_def EpollSocket_destroy_def close_fd_def epoll_ctl_del_def)

lemma count_list_snoc [simp]: "count_list (xs @ [y]) x = count_list xs x + (if x = y then 1 else 0)"
  by (induction xs) auto

text \<open>An object gives up its descriptor, by closing it or by releasing it.\<close>

lemma ownership_ends:
  assumes I: "sock_inv S" and a: "objs S a = Some s"
    and own: "\<And>b g. owns S' b g \<longleftrightarrow> b \<noteq> a \<and> owns S b g"
  shows "owned S f = owned S' f + (if f \<noteq> - 1 \<and> f = es_fd s then 1 else 0)"
proof (cases "owns S a f")
  case True
  then have "\<not> (\<exists>b. owns S' b f)" using I own by (auto simp: sock_inv_def)
  moreover have "f \<noteq> - 1 \<and> f = es_fd s" using True a by (auto simp: owns_def)
  ultimately show ?thesis using True by (auto simp: owned_def)
next
  case False
  then have "(\<exists>b. owns S' b f) \<longleftrightarrow> (\<exists>b. owns S b f)" using own by metis
  moreover have "\<not> (f \<noteq> - 1 \<and> f = es_fd s)" using False a by (auto simp: owns_def)
  ultimately show ?thesis by (auto simp: owned_def)
qed

lemma sock_destroy_inv:
  assumes I: "sock_inv S" and a: "objs S a = Some s"
  shows "sock_inv (sock_destroy a S)"
proof -
  let ?S = "sock_destroy a S"
  have S: "kern ?S = EpollSocket_destroy s (kern S)" "adopted ?S = adopted S" "released ?S = released S"
    using a by (simp_all add: sock_destroy_def)
  note e = destroy_effect [OF I a]
  have "f \<in> k_open (kern ?S)" if "owns ?S b f" for b f
  proof -
    have b: "b \<noteq> a" "owns S b f" using that by (auto simp: owns_destroy)
    then have "f \<noteq> es_fd s" using I a by (auto simp: sock_inv_def owns_def)
    then show ?thesis using e(2) b(2) I unfolding S by (auto simp: sock_inv_def)
  qed
  moreover have "count_list (adopted ?S) f = count_list (k_closes (kern ?S)) f + count_list (released ?S) f + owned ?S f"
    if "f \<noteq> - 1" for f
    using that I ownership_ends [OF I a owns_destroy, of f] e(3) unfolding S by (auto simp: sock_inv_def)
  ultimately show ?thesis using I e(1) by (auto simp: sock_inv_def owns_destroy S(1))
qed

lemma sock_release_inv:
  assumes I: "sock_inv S" and a: "objs S a = Some s"
  shows "sock_inv (sock_release a S)"
proof -
  let ?S = "sock_release a S"
  have S: "kern ?S = kern S" "adopted ?S = adopted S" "released ?S = released S @ (if es_fd s = - 1 then [] else [es_fd s])"
    using a by (simp_all add: sock_release_def EpollSocket_release_def)
  have "count_list (adopted ?S) f = count_list (k_closes (kern ?S)) f + count_list (released ?S) f + owned ?S f"
    if "f \<noteq> - 1" for f
    using that I ownership_ends [OF I a owns_release, of f] unfolding S by (auto simp: sock_inv_def)
  then show ?thesis using I by (auto simp: sock_inv_def owns_release S(1))
qed

text \<open>A move construction hands a descriptor on; an assignment destroys the target's and then does the same.\<close>

lemma ownership_moves:
  assumes I: "sock_inv S" and free: "\<forall>g. \<not> owns S a g" and ab: "a \<noteq> b"
    and own: "\<And>c g. owns S' c g \<longleftrightarrow> (if c = a then owns S b g else c \<noteq> b \<and> owns S c g)"
    and k: "kern S' = kern S" "adopted S' = adopted S" "released S' = released S"
  shows "sock_inv S'"
proof -
  have ex: "(\<exists>c. owns S' c g) \<longleftrightarrow> (\<exists>c. owns S c g)" for g using own free ab by metis
  then have "owned S' = owned S" by (simp add: owned_def fun_eq_iff)
  then show ?thesis using I k ab free by (auto simp: sock_inv_def own split: if_splits)
qed

lemma sock_assign_steps:
  assumes "objs S a = Some s" and "objs S b = Some t" and "a \<noteq> b"
  shows "sock_assign a b S = sock_move a b (sock_destroy a S)"
  using assms by (cases S; cases s; cases t) (simp add: sock_assign_def sock_move_def sock_destroy_def EpollSocket_destroy_def EpollSocket_move_def Let_def
      fun_upd_twist)

lemma sock_move_inv: "sock_inv S \<Longrightarrow> objs S a = None \<Longrightarrow> objs S b = Some s \<Longrightarrow> sock_inv (sock_move a b S)"
  by (rule ownership_moves [where S = S and a = a and b = b])
    (auto simp: owns_move, auto simp: owns_def sock_move_def EpollSocket_move_def)

lemma sock_assign_inv:
  assumes "sock_inv S" and "objs S a = Some s" and "objs S b = Some t"
  shows "sock_inv (sock_assign a b S)"
proof (cases "a = b")
  case True
  then show ?thesis using assms by (simp add: sock_assign_def)
next
  case False
  then have "objs (sock_destroy a S) a = None" "objs (sock_destroy a S) b = Some t"
    using assms by (auto simp: sock_destroy_def)
  then show ?thesis
    using sock_move_inv [OF sock_destroy_inv [OF assms(1,2)]] sock_assign_steps [OF assms(2,3) False] by simp
qed

lemma sock_construct_inv:
  assumes I: "sock_inv S" and "objs S a = None" "f \<in> k_open (kern S)" "f \<noteq> - 1" "\<forall>b. \<not> owns S b f"
  shows "sock_inv (sock_construct a f ep S)"
proof -
  let ?S = "sock_construct a f ep S"
  note own = owns_construct [OF assms(2,4), of ep]
  have "owned ?S g = owned S g + (if g = f then 1 else 0)" for g
    using assms(5) by (auto simp: owned_def own)
  then show ?thesis using I assms(3,5)
    by (auto simp: sock_inv_def own) (auto simp: sock_construct_def)
qed

lemma sock_step_inv: "sock_step S S' \<Longrightarrow> sock_inv S \<Longrightarrow> sock_inv S'"
proof (induction rule: sock_step.induct)
  case (make_default S a)
  moreover have "owned (sock_default a S) = owned S" using make_default(1) by (simp add: owned_def owns_default fun_eq_iff)
  ultimately show ?case by (simp add: sock_inv_def owns_default) (simp add: sock_default_def)
next
  case (other_open f S)
  then show ?case by (auto simp: sock_inv_def owns_def owned_def open_fd_def)
next
  case (other_close S f)
  then show ?case by (auto simp: sock_inv_def owns_def owned_def)
qed (simp_all add: sock_construct_inv sock_destroy_inv sock_move_inv sock_assign_inv sock_release_inv)

interpretation sock_steps: step_invariant sock_step sock_inv
  by unfold_locales (rule sock_step_inv)

lemma Sockets_new_inv: "k_closes k = [] \<Longrightarrow> k_ebadf k = 0 \<Longrightarrow> sock_inv (Sockets_new k)"
  by (simp add: sock_inv_def Sockets_new_def owns_def owned_def)

section \<open>Properties\<close>

text \<open>
  C32: the wrapper closes each descriptor exactly once. Whatever constructions, moves, assignments
  (also of an object to itself), releases and destructions a program makes, no \<^verbatim>\<open>close\<close> hits a
  descriptor that is not open, an owned descriptor is open and has one owner, and every descriptor
  that was handed to an object has been closed once, or released, or still has that owner.
\<close>

theorem socket_closes_once:
  assumes "k_closes k = []" and "k_ebadf k = 0" and "sock_run (Sockets_new k) S"
  shows "k_ebadf (kern S) = 0
    \<and> (\<forall>f a b. owns S a f \<and> owns S b f \<longrightarrow> a = b \<and> f \<in> k_open (kern S))
    \<and> (\<forall>f. f \<noteq> - 1 \<longrightarrow>
         count_list (adopted S) f = count_list (k_closes (kern S)) f + count_list (released S) f + owned S f)"
  using sock_steps.run_inv [OF assms(3) Sockets_new_inv [OF assms(1,2)]] unfolding sock_inv_def by blast

text \<open>Two objects: the first is assigned to the second, the second to itself, then both are destroyed.\<close>

definition socks3 :: Sockets where
  "socks3 = sock_destroy 1 (sock_destroy 0 (sock_assign 1 1 (sock_assign 1 0 (sock_default 1
     (sock_construct 0 7 3 (Sockets_new \<lparr>k_open = {3, 7}, k_epoll = (\<lambda>_. {7}), k_closes = [], k_ebadf = 0\<rparr>))))))"

theorem socket_closes_once_witness:
  "sock_run (Sockets_new \<lparr>k_open = {3, 7}, k_epoll = (\<lambda>_. {7}), k_closes = [], k_ebadf = 0\<rparr>) socks3
   \<and> k_closes (kern socks3) = [7] \<and> k_ebadf (kern socks3) = 0"
proof -
  let ?k = "\<lparr>k_open = {3, 7}, k_epoll = (\<lambda>_. {7}), k_closes = [], k_ebadf = 0\<rparr> :: Kernel"
  have r: "sock_run (Sockets_new ?k) socks3"
    unfolding socks3_def
    by (rule sock_run_step [OF sock_run_step [OF sock_run_step [OF sock_run_step [OF sock_run_step [OF sock_run_step
          [OF sock_run_start construct] make_default]
            assign [where s = EpollSocket_default and t = "EpollSocket_new 7 3"]]
            assign [where s = "EpollSocket_new 7 3" and t = "EpollSocket_new 7 3"]]
            destroy [where s = EpollSocket_default]] destroy [where s = "EpollSocket_new 7 3"]])
      (simp_all add: Sockets_new_def sock_construct_def sock_default_def sock_assign_def sock_destroy_def
        EpollSocket_new_def EpollSocket_default_def EpollSocket_destroy_def owns_def)
  have "k_closes (kern socks3) = [7]"
    by (simp add: socks3_def Sockets_new_def sock_construct_def sock_default_def sock_assign_def sock_destroy_def
        EpollSocket_new_def EpollSocket_default_def EpollSocket_destroy_def close_fd_def epoll_ctl_del_def)
  then show ?thesis using r socket_closes_once [OF _ _ r] by simp
qed

end
