(* ===== verification/Server_Setup.thy ===== *)
theory Server_Setup
  imports Socket Server_Loops
begin

text \<open>
  The life of a \<^verbatim>\<open>Server\<close> (\<^verbatim>\<open>server/src/server.cpp\<close>) seen from its descriptors: \<^verbatim>\<open>setupEpoll\<close>, \<^verbatim>\<open>run\<close>,
  \<^verbatim>\<open>setupListenSocket\<close>, the sockets that \<^verbatim>\<open>registerConnections\<close> accepts and the disconnect scan closes, the
  end of \<^verbatim>\<open>handleRequests\<close>, and the destructor. The connection state is the one of the other server
  theories; here its sockets are objects of \<open>Socket\<close>, with the kernel's table of open descriptors beside them.
  Answers of system calls are arguments; a call that returns a descriptor returns one that is not open.
\<close>

section \<open>Set-up\<close>

definition fd_or_error :: "int option \<Rightarrow> int" where
  "fd_or_error r = (case r of None \<Rightarrow> - 1 | Some f \<Rightarrow> f)"

definition opened :: "int option \<Rightarrow> Kernel \<Rightarrow> Kernel" where
  "opened r k = (case r of None \<Rightarrow> k | Some f \<Rightarrow> open_fd f k)"

text \<open>\<^verbatim>\<open>setupEpoll\<close>: its result, \<^verbatim>\<open>epoll_in_\<close>, \<^verbatim>\<open>epoll_out_\<close> and the kernel.\<close>

definition setupEpoll :: "int option \<Rightarrow> int option \<Rightarrow> Kernel \<Rightarrow> bool \<times> int \<times> int \<times> Kernel" where
  "setupEpoll r_in r_out k =
     (let ep_in = fd_or_error r_in; k1 = opened r_in k;
          ep_out = fd_or_error r_out; k2 = opened r_out k1
      in if ep_in = - 1 \<or> ep_out = - 1 then (False, ep_in, ep_out, k2) else (True, ep_in, ep_out, k2))"

text \<open>The answers \<^verbatim>\<open>setupListenSocket\<close> looks at.\<close>

record listen_calls =
  lc_getaddrinfo :: bool
  lc_socket :: "int option"
  lc_bind :: bool
  lc_listen :: bool
  lc_getfl :: bool
  lc_epoll_add :: bool

text \<open>
  \<open>n\<close> counts the address lists that are allocated. A return runs the destructor of \<^verbatim>\<open>listen_sock\<close>, on
  success after its descriptor has moved into the result.
\<close>

definition setupListenSocket :: "listen_calls \<Rightarrow> int \<Rightarrow> Kernel \<Rightarrow> nat \<Rightarrow> EpollSocket option \<times> Kernel \<times> nat" where
  "setupListenSocket c ep k n =
     (if \<not> lc_getaddrinfo c then (None, k, n)
      else let n1 = n + 1 in
        case lc_socket c of
          None \<Rightarrow> (None, k, n1 - 1)
        | Some raw_fd \<Rightarrow>
            let k1 = open_fd raw_fd k; listen_sock = EpollSocket_new raw_fd ep in
            if \<not> lc_bind c then (None, EpollSocket_destroy listen_sock k1, n1 - 1)
            else let n2 = n1 - 1 in
              if \<not> lc_listen c then (None, EpollSocket_destroy listen_sock k1, n2)
              else if \<not> lc_getfl c then (None, EpollSocket_destroy listen_sock k1, n2)
              else if \<not> lc_epoll_add c then (None, EpollSocket_destroy listen_sock k1, n2)
              else let k2 = k1\<lparr>k_epoll := (k_epoll k1)(ep := insert raw_fd (k_epoll k1 ep))\<rparr> in
                case EpollSocket_move listen_sock of
                  (result, rest) \<Rightarrow> (Some result, EpollSocket_destroy rest k2, n2))"

section \<open>Connections\<close>

text \<open>\<^verbatim>\<open>registerConnections\<close> with its sockets: every path out of the body runs the destructor of \<^verbatim>\<open>client_sock\<close>.\<close>

fun registerSockets :: "accept_result list \<Rightarrow> int \<Rightarrow> Kernel \<Rightarrow> Server \<Rightarrow> (Kernel \<times> Server) res" where
  "registerSockets [] ep k s = ok (k, s)"
| "registerSockets (a # as) ep k s =
     (let client_fd = int (acc_fd a); k1 = open_fd client_fd k in
      if \<not> acc_fcntl_ok a then registerSockets as ep (close_fd client_fd k1) s
      else let client_sock = EpollSocket_new client_fd ep in
        case epoll_ctrl (acc_epoll_ok a) (epoll_in s) (acc_fd a) EPOLL_CTL_ADD of
          (rc, E) \<Rightarrow>
            if rc = - 1 then ok (EpollSocket_destroy client_sock k1, s)
            else let k2 = k1\<lparr>k_epoll := (k_epoll k1)(ep := insert client_fd (k_epoll k1 ep))\<rparr> in
              rbind (register (acc_fd a) (s\<lparr>epoll_in := E\<rparr>))
                (\<lambda>s'. case EpollSocket_move client_sock of
                   (member, rest) \<Rightarrow> registerSockets as ep (EpollSocket_destroy rest k2) s'))"

text \<open>One descriptor of \<^verbatim>\<open>handleDisconnectsInbound\<close>: resetting the slot destroys the socket in it.\<close>

definition disconnect_socket :: "fd \<Rightarrow> int \<Rightarrow> Kernel \<Rightarrow> Server \<Rightarrow> Kernel \<times> Server" where
  "disconnect_socket f ep k s =
     (if \<not> condemned_outbound s f then (k, s)
      else case inbound_map s f of
        None \<Rightarrow> (k, s)
      | Some st \<Rightarrow> (EpollSocket_destroy (EpollSocket_new (int (is_fd st)) ep) k, disconnect_inbound f s))"

section \<open>The server's life\<close>

datatype phase = Constructed | Starting | Looping | Ended | Destructed

record Sys =
  sys_kernel :: Kernel
  sys_addrinfos :: nat
  epoll_in_fd :: int
  epoll_out_fd :: int
  sys_listen :: "EpollSocket option"
  sys_phase :: phase
  sys_server :: Server

definition Sys_new :: "Kernel \<Rightarrow> Server \<Rightarrow> Sys" where
  "Sys_new k s = \<lparr>sys_kernel = k, sys_addrinfos = 0, epoll_in_fd = - 1, epoll_out_fd = - 1, sys_listen = None,
     sys_phase = Constructed, sys_server = s\<rparr>"

text \<open>\<^verbatim>\<open>Server::run\<close>: without both epoll instances no thread is started.\<close>

definition Server_run :: "int option \<Rightarrow> int option \<Rightarrow> Sys \<Rightarrow> Sys" where
  "Server_run r_in r_out S =
     (case setupEpoll r_in r_out (sys_kernel S) of
        (good, ep_in, ep_out, k) \<Rightarrow>
          S\<lparr>sys_kernel := k, epoll_in_fd := ep_in, epoll_out_fd := ep_out, sys_phase := (if good then Starting else Ended)\<rparr>)"

text \<open>
  \<^verbatim>\<open>handleRequests\<close> up to its loop, and from the end of its loop, which it leaves when it sees the stop flag or
  after setting it because \<^verbatim>\<open>epoll_wait\<close> failed.
\<close>

definition requests_begin :: "listen_calls \<Rightarrow> Sys \<Rightarrow> Sys" where
  "requests_begin c S =
     (case setupListenSocket c (epoll_in_fd S) (sys_kernel S) (sys_addrinfos S) of
        (None, k, n) \<Rightarrow> S\<lparr>sys_kernel := k, sys_addrinfos := n, sys_phase := Ended,
            sys_server := (sys_server S)\<lparr>stop_flag := True\<rparr>\<rparr>
      | (Some socket_setup, k, n) \<Rightarrow> (case EpollSocket_move socket_setup of
          (listen_sock, rest) \<Rightarrow> S\<lparr>sys_kernel := k, sys_addrinfos := n, sys_phase := Looping, sys_listen := Some listen_sock\<rparr>))"

definition requests_end :: "Sys \<Rightarrow> Sys" where
  "requests_end S =
     (case sys_listen S of
        None \<Rightarrow> S
      | Some l \<Rightarrow> S\<lparr>sys_kernel := EpollSocket_destroy l (sys_kernel S), sys_listen := None, sys_phase := Ended,
          sys_server := (sys_server S)\<lparr>stop_flag := True\<rparr>\<rparr>)"

text \<open>\<^verbatim>\<open>~Server\<close>: the two epoll descriptors, then the members, \<^verbatim>\<open>inbound_map_\<close> from its last slot.\<close>

definition destroy_slot :: "int \<Rightarrow> fd \<Rightarrow> Server \<Rightarrow> Kernel \<Rightarrow> Kernel" where
  "destroy_slot ep f s k =
     (case inbound_map s f of None \<Rightarrow> k | Some st \<Rightarrow> EpollSocket_destroy (EpollSocket_new (int (is_fd st)) ep) k)"

definition Server_destroy :: "Sys \<Rightarrow> Sys" where
  "Server_destroy S =
     (let k1 = (if epoll_in_fd S \<noteq> - 1 then close_fd (epoll_in_fd S) (sys_kernel S) else sys_kernel S);
          k2 = (if epoll_out_fd S \<noteq> - 1 then close_fd (epoll_out_fd S) k1 else k1);
          k3 = fold (\<lambda>f. destroy_slot (epoll_in_fd S) f (sys_server S)) (rev [0..<FD_SLOTS]) k2
      in S\<lparr>sys_kernel := k3, sys_phase := Destructed\<rparr>)"

text \<open>What \<^verbatim>\<open>accept\<close> promises: each descriptor is not open when it is returned.\<close>

fun accepts_fresh :: "accept_result list \<Rightarrow> int set \<Rightarrow> bool" where
  "accepts_fresh [] opn = True"
| "accepts_fresh (a # as) opn =
     (int (acc_fd a) \<notin> opn \<and>
      (if \<not> acc_fcntl_ok a then accepts_fresh as opn
       else acc_epoll_ok a \<longrightarrow> acc_fd a < FD_SLOTS \<and> accepts_fresh as (insert (int (acc_fd a)) opn)))"

definition occupied :: "Server \<Rightarrow> fd set" where "occupied s = {f. inbound_map s f \<noteq> None}"

text \<open>
  The steps. \<open>threads\<close> is any other step of the two threads; its \<^verbatim>\<open>epoll_ctl\<close> calls change interest lists only.
  The destructor runs when the inbound thread was not started or has returned.
\<close>

inductive sys_step :: "Sys \<Rightarrow> Sys \<Rightarrow> bool" where
  run: "sys_phase S = Constructed \<Longrightarrow> set_option r_in \<inter> set_option r_out = {} \<Longrightarrow>
    \<forall>f \<in> set_option r_in \<union> set_option r_out. 0 \<le> f \<and> f \<notin> k_open (sys_kernel S) \<Longrightarrow> sys_step S (Server_run r_in r_out S)"
| begin_requests: "sys_phase S = Starting \<Longrightarrow> \<forall>f \<in> set_option (lc_socket c). 0 \<le> f \<and> f \<notin> k_open (sys_kernel S) \<Longrightarrow>
    sys_step S (requests_begin c S)"
| accept: "sys_phase S = Looping \<Longrightarrow> accepts_fresh as (k_open (sys_kernel S)) \<Longrightarrow>
    registerSockets as (epoll_in_fd S) (sys_kernel S) (sys_server S) = ok (k, s) \<Longrightarrow>
    sys_step S (S\<lparr>sys_kernel := k, sys_server := s\<rparr>)"
| disconnect: "sys_phase S = Looping \<Longrightarrow> disconnect_socket f (epoll_in_fd S) (sys_kernel S) (sys_server S) = (k, s) \<Longrightarrow>
    sys_step S (S\<lparr>sys_kernel := k, sys_server := s\<rparr>)"
| threads: "sys_phase S \<in> {Looping, Ended} \<Longrightarrow> server_step (sys_server S) s \<Longrightarrow> occupied s = occupied (sys_server S) \<Longrightarrow>
    sys_step S (S\<lparr>sys_kernel := (sys_kernel S)\<lparr>k_epoll := E\<rparr>, sys_server := s\<rparr>)"
| end_requests: "sys_phase S = Looping \<Longrightarrow> sys_step S (requests_end S)"
| destruct: "sys_phase S \<in> {Constructed, Ended} \<Longrightarrow> sys_step S (Server_destroy S)"

abbreviation sys_run :: "Sys \<Rightarrow> Sys \<Rightarrow> bool" where "sys_run \<equiv> sys_step\<^sup>*\<^sup>*"

lemmas sys_run_start = run_start [where r = sys_step]
lemmas sys_run_step = run_step [where r = sys_step]

section \<open>Who holds which descriptor\<close>

definition listen_fds :: "Sys \<Rightarrow> int set" where
  "listen_fds S = (case sys_listen S of None \<Rightarrow> {} | Some l \<Rightarrow> {es_fd l})"

definition epoll_fds :: "Sys \<Rightarrow> int set" where
  "epoll_fds S = {epoll_in_fd S, epoll_out_fd S} - {- 1}"

abbreviation conn_fds :: "Server \<Rightarrow> int set" where "conn_fds s \<equiv> int ` occupied s"

lemma destroy_fds:
  "es_fd x \<noteq> - 1 \<Longrightarrow> es_fd x \<in> k_open k \<Longrightarrow>
   k_open (EpollSocket_destroy x k) = k_open k - {es_fd x} \<and> k_ebadf (EpollSocket_destroy x k) = k_ebadf k"
  using sockets.destroy_open sockets.destroy_ebadf by simp

lemma fds_simps [simp]:
  "k_open (open_fd f k) = insert f (k_open k)" "k_ebadf (open_fd f k) = k_ebadf k"
  "f \<in> k_open k \<Longrightarrow> k_open (close_fd f k) = k_open k - {f}" "f \<in> k_open k \<Longrightarrow> k_ebadf (close_fd f k) = k_ebadf k"
  "es_fd (EpollSocket_new f ep) = f" "es_fd (fst (EpollSocket_move x)) = es_fd x"
  by (simp_all add: open_fd_def close_fd_def EpollSocket_new_def EpollSocket_move_def)

text \<open>\<^verbatim>\<open>setupListenSocket\<close>: all or nothing.\<close>

lemma setupListenSocket_cases:
  assumes "setupListenSocket c ep k n = (r, k', n')" and "\<forall>f \<in> set_option (lc_socket c). 0 \<le> f \<and> f \<notin> k_open k"
  shows "n' = n" and "k_ebadf k' = k_ebadf k"
    and "(r = None \<and> k_open k' = k_open k)
      \<or> (\<exists>f. lc_socket c = Some f \<and> r = Some (EpollSocket_new f ep) \<and> k_open k' = insert f (k_open k) \<and> f \<in> k_epoll k' ep)"
proof -
  let ?ok = "lc_getaddrinfo c \<and> lc_bind c \<and> lc_listen c \<and> lc_getfl c \<and> lc_epoll_add c"
  have "n' = n \<and> k_ebadf k' = k_ebadf k \<and> ((r = None \<and> k_open k' = k_open k)
      \<or> (\<exists>f. lc_socket c = Some f \<and> r = Some (EpollSocket_new f ep) \<and> k_open k' = insert f (k_open k) \<and> f \<in> k_epoll k' ep))"
  proof (cases "lc_socket c")
    case None
    then show ?thesis using assms(1) by (auto simp: setupListenSocket_def Let_def split: if_splits)
  next
    case (Some f)
    have f: "0 \<le> f" "f \<notin> k_open k" using assms(2) Some by auto
    let ?x = "EpollSocket_new f ep"
    have d: "k_open (EpollSocket_destroy ?x (open_fd f k)) = k_open k" "k_ebadf (EpollSocket_destroy ?x (open_fd f k)) = k_ebadf k"
      using destroy_fds [of ?x "open_fd f k"] f by auto
    show ?thesis
    proof (cases ?ok)
      case True
      then show ?thesis using assms(1) Some
        by (auto simp: setupListenSocket_def Let_def EpollSocket_move_def EpollSocket_destroy_def EpollSocket_new_def open_fd_def)
    next
      case False
      then show ?thesis using assms(1) Some d by (auto simp: setupListenSocket_def Let_def split: if_splits)
    qed
  qed
  then show "n' = n" "k_ebadf k' = k_ebadf k" "(r = None \<and> k_open k' = k_open k)
      \<or> (\<exists>f. lc_socket c = Some f \<and> r = Some (EpollSocket_new f ep) \<and> k_open k' = insert f (k_open k) \<and> f \<in> k_epoll k' ep)"
    by blast+
qed

lemma register_occupies:
  assumes "server_inv s" and "inbound_map s f = None" and "f < FD_SLOTS"
  shows "\<exists>s'. register f (s\<lparr>epoll_in := insert f (epoll_in s)\<rparr>) = ok s' \<and> server_inv s' \<and> occupied s' = insert f (occupied s)"
proof -
  obtain s' where s': "register f (s\<lparr>epoll_in := insert f (epoll_in s)\<rparr>) = ok s'"
    using register_inv [OF _ assms(2,3)] assms(1) by (auto simp: server_inv_def)
  then have "registerConnections [\<lparr>acc_fd = f, acc_fcntl_ok = True, acc_epoll_ok = True\<rparr>] s = ok s'" by (simp add: epoll_ctrl_def)
  then have "server_inv s'" using register_keeps(1) [OF assms] by blast
  moreover have "occupied s' = insert f (occupied s)" using s' assms(3) by (auto simp: register_def occupied_def split: if_splits)
  ultimately show ?thesis using s' by blast
qed

text \<open>
  \<^verbatim>\<open>registerConnections\<close> returns; it does to the server what the descriptor-free model does, and the open
  descriptors it adds are those of the new connections.
\<close>

definition accepted_fds :: "Kernel \<Rightarrow> Server \<Rightarrow> Kernel \<Rightarrow> Server \<Rightarrow> bool" where
  "accepted_fds k s k' s' \<longleftrightarrow> k_open k' = k_open k \<union> conn_fds s' \<and> occupied s \<subseteq> occupied s'
     \<and> conn_fds s' \<inter> k_open k = conn_fds s \<and> k_ebadf k' = k_ebadf k"

lemma registerSockets_fds:
  assumes "server_inv s" and "accepts_fresh as (k_open k)" and "conn_fds s \<subseteq> k_open k" and "occupied s \<subseteq> {..<FD_SLOTS}"
  shows "\<exists>k' s'. registerSockets as ep k s = ok (k', s') \<and> registerConnections as s = ok s' \<and> server_inv s'
    \<and> occupied s' \<subseteq> {..<FD_SLOTS} \<and> accepted_fds k s k' s'"
  using assms
proof (induction as arbitrary: k s)
  case Nil
  then show ?case by (auto simp: accepted_fds_def)
next
  case (Cons a as)
  let ?f = "int (acc_fd a)"
  have f: "?f \<notin> k_open k" "inbound_map s (acc_fd a) = None" using Cons.prems(2,3) by (auto simp: image_subset_iff occupied_def)
  consider (closed) "\<not> acc_fcntl_ok a" | (refused) "acc_fcntl_ok a" "\<not> acc_epoll_ok a"
    | (good) "acc_fcntl_ok a" "acc_epoll_ok a" by blast
  then show ?case
  proof cases
    case closed
    have k: "k_open (close_fd ?f (open_fd ?f k)) = k_open k" "k_ebadf (close_fd ?f (open_fd ?f k)) = k_ebadf k" using f by auto
    have "accepts_fresh as (k_open (close_fd ?f (open_fd ?f k)))" using Cons.prems(2) closed k(1) by simp
    from Cons.IH [OF Cons.prems(1) this] Cons.prems(3,4) show ?thesis using closed by (simp add: k accepted_fds_def Let_def)
  next
    case refused
    have "k_open (EpollSocket_destroy (EpollSocket_new ?f ep) (open_fd ?f k)) = k_open k"
      "k_ebadf (EpollSocket_destroy (EpollSocket_new ?f ep) (open_fd ?f k)) = k_ebadf k"
      using destroy_fds [of "EpollSocket_new ?f ep" "open_fd ?f k"] f by auto
    then show ?thesis using refused Cons.prems by (auto simp: Let_def epoll_ctrl_def accepted_fds_def)
  next
    case good
    let ?k = "(open_fd ?f k)\<lparr>k_epoll := (k_epoll (open_fd ?f k))(ep := insert ?f (k_epoll (open_fd ?f k) ep))\<rparr>"
    have lt: "acc_fd a < FD_SLOTS" "accepts_fresh as (k_open ?k)" using Cons.prems(2) good by auto
    obtain s1 where s1: "register (acc_fd a) (s\<lparr>epoll_in := insert (acc_fd a) (epoll_in s)\<rparr>) = ok s1" "server_inv s1"
      "occupied s1 = insert (acc_fd a) (occupied s)" using register_occupies [OF Cons.prems(1) f(2) lt(1)] by blast
    have "conn_fds s1 \<subseteq> k_open ?k" "occupied s1 \<subseteq> {..<FD_SLOTS}" using s1(3) Cons.prems(3,4) lt(1) by auto
    from Cons.IH [OF s1(2) lt(2) this] obtain k' s' where r: "registerSockets as ep ?k s1 = ok (k', s')" "registerConnections as s1 = ok s'"
      "server_inv s'" "occupied s' \<subseteq> {..<FD_SLOTS}" "accepted_fds ?k s1 k' s'" by blast
    have "conn_fds s' \<inter> k_open k = conn_fds s"
    proof -
      have "conn_fds s' \<inter> insert ?f (k_open k) = insert ?f (conn_fds s)" using r(5) s1(3) by (simp add: accepted_fds_def)
      then show ?thesis using f(1) Cons.prems(3) by (intro set_eqI) (drule_tac x = x in eqset_imp_iff, auto)
    qed
    then have "accepted_fds k s k' s'" using r(5) s1(3) by (auto simp: accepted_fds_def)
    then show ?thesis using good r s1(1)
      by (auto simp: Let_def epoll_ctrl_def EpollSocket_move_def EpollSocket_destroy_def)
  qed
qed

section \<open>The invariant\<close>

definition apart :: "int set \<Rightarrow> int set \<Rightarrow> int set \<Rightarrow> int set \<Rightarrow> bool" where
  "apart B E L C \<longleftrightarrow> B \<inter> (E \<union> L \<union> C) = {} \<and> E \<inter> (L \<union> C) = {} \<and> L \<inter> C = {}"

text \<open>\<open>base\<close> are the descriptors of the process that are not the server's.\<close>

definition held_ok :: "int set \<Rightarrow> Sys \<Rightarrow> bool" where
  "held_ok base S \<longleftrightarrow>
     (if sys_phase S = Destructed then k_open (sys_kernel S) = base
      else k_open (sys_kernel S) = base \<union> epoll_fds S \<union> listen_fds S \<union> conn_fds (sys_server S)
        \<and> apart base (epoll_fds S) (listen_fds S) (conn_fds (sys_server S)))"

definition phase_ok :: "Sys \<Rightarrow> bool" where
  "phase_ok S \<longleftrightarrow>
     (sys_phase S \<in> {Constructed, Starting} \<longrightarrow> occupied (sys_server S) = {})
   \<and> (sys_phase S = Constructed \<longrightarrow> epoll_in_fd S = - 1 \<and> epoll_out_fd S = - 1)
   \<and> (epoll_in_fd S \<noteq> - 1 \<longrightarrow> epoll_out_fd S \<noteq> epoll_in_fd S)
   \<and> (if sys_phase S = Looping then \<exists>f \<ge> 0. sys_listen S = Some (EpollSocket_new f (epoll_in_fd S)) else sys_listen S = None)"

definition sys_inv :: "int set \<Rightarrow> Sys \<Rightarrow> bool" where
  "sys_inv base S \<longleftrightarrow> k_ebadf (sys_kernel S) = 0 \<and> sys_addrinfos S = 0 \<and> server_inv (sys_server S)
     \<and> occupied (sys_server S) \<subseteq> {..<FD_SLOTS} \<and> phase_ok S \<and> held_ok base S"

lemmas sys_defs = sys_inv_def phase_ok_def held_ok_def apart_def

lemma occupied_rings [simp]: "occupied (s\<lparr>stop_flag := b\<rparr>) = occupied s"
  by (simp add: occupied_def)

lemma sys_inv_new:
  "k_ebadf k = 0 \<Longrightarrow> sys_inv (k_open k) (Sys_new k (Server_new inr outr h))"
  using server_inv_new [of inr outr h]
  by (auto simp: sys_defs Sys_new_def epoll_fds_def listen_fds_def occupied_def Server_new_def)

lemma apart_grow: "apart B E L C \<Longrightarrow> C' \<inter> (B \<union> E \<union> L \<union> C) = C \<Longrightarrow> apart B E L C'"
  unfolding apart_def by blast

lemma apart_shrink:
  assumes "apart B E L C" and "x \<in> C"
  shows "apart B E L (C - {x})" and "(B \<union> E \<union> L \<union> C) - {x} = B \<union> E \<union> L \<union> (C - {x})"
  using assms unfolding apart_def by blast+

lemma fds_update [simp]:
  "epoll_fds (S\<lparr>sys_kernel := k\<rparr>) = epoll_fds S" "epoll_fds (S\<lparr>sys_server := s\<rparr>) = epoll_fds S"
  "listen_fds (S\<lparr>sys_kernel := k\<rparr>) = listen_fds S" "listen_fds (S\<lparr>sys_server := s\<rparr>) = listen_fds S"
  by (simp_all add: epoll_fds_def listen_fds_def)

lemma sys_inv_connections:
  assumes I: "sys_inv base S" and p: "sys_phase S \<in> {Looping, Ended}" and "server_inv s" "occupied s \<subseteq> {..<FD_SLOTS}"
    and "k_open k = base \<union> epoll_fds S \<union> listen_fds S \<union> conn_fds s" "apart base (epoll_fds S) (listen_fds S) (conn_fds s)"
    and "k_ebadf k = k_ebadf (sys_kernel S)"
  shows "sys_inv base (S\<lparr>sys_kernel := k, sys_server := s\<rparr>)"
proof -
  have "phase_ok S" using I by (simp add: sys_inv_def)
  then have "phase_ok (S\<lparr>sys_kernel := k, sys_server := s\<rparr>)" using p by (auto simp: phase_ok_def)
  then show ?thesis using assms by (auto simp: sys_inv_def held_ok_def)
qed

lemma sys_invI:
  assumes "sys_inv base S" and "k_ebadf (sys_kernel S') = k_ebadf (sys_kernel S)" and "sys_addrinfos S' = sys_addrinfos S"
    and "server_inv (sys_server S')" and "occupied (sys_server S') \<subseteq> {..<FD_SLOTS}" and "phase_ok S'" and "held_ok base S'"
  shows "sys_inv base S'"
  using assms by (simp add: sys_inv_def)

lemma sys_invD:
  assumes "sys_inv base S" and "sys_phase S \<noteq> Destructed"
  shows "k_open (sys_kernel S) = base \<union> epoll_fds S \<union> listen_fds S \<union> conn_fds (sys_server S)"
    and "apart base (epoll_fds S) (listen_fds S) (conn_fds (sys_server S))"
    and "server_inv (sys_server S)" and "occupied (sys_server S) \<subseteq> {..<FD_SLOTS}"
  using assms by (auto simp: sys_inv_def held_ok_def)

lemma run_sys_inv:
  assumes I: "sys_inv base S" and p: "sys_phase S = Constructed" and d: "set_option r_in \<inter> set_option r_out = {}"
    and f: "\<forall>f \<in> set_option r_in \<union> set_option r_out. 0 \<le> f \<and> f \<notin> k_open (sys_kernel S)"
  shows "sys_inv base (Server_run r_in r_out S)"
proof -
  let ?S = "Server_run r_in r_out S"
  have "phase_ok S" using I by (simp add: sys_inv_def)
  then have k: "sys_listen S = None" "occupied (sys_server S) = {}" "epoll_fds S = {}"
    unfolding phase_ok_def epoll_fds_def using p by simp_all
  have "sys_phase S \<noteq> Destructed" using p by simp
  from sys_invD(1) [OF I this] have b: "k_open (sys_kernel S) = base" using k by (simp add: listen_fds_def)
  let ?k = "opened r_out (opened r_in (sys_kernel S))"
  define ph where "ph = (if fd_or_error r_in = - 1 \<or> fd_or_error r_out = - 1 then Ended else Starting)"
  have S: "?S = S\<lparr>sys_kernel := ?k, epoll_in_fd := fd_or_error r_in, epoll_out_fd := fd_or_error r_out, sys_phase := ph\<rparr>"
    by (simp add: Server_run_def setupEpoll_def Let_def ph_def)
  have ph: "ph = Starting \<or> ph = Ended" by (simp add: ph_def)
  have e: "{fd_or_error r_in, fd_or_error r_out} - {- 1} = set_option r_in \<union> set_option r_out"
    "fd_or_error r_in \<noteq> - 1 \<longrightarrow> fd_or_error r_out \<noteq> fd_or_error r_in"
    using f d by (cases r_in; cases r_out; auto simp: fd_or_error_def)+
  have x: "k_open ?k = base \<union> (set_option r_in \<union> set_option r_out)" "k_ebadf ?k = k_ebadf (sys_kernel S)"
    using b by (auto simp: opened_def split: option.splits)
  have "phase_ok ?S" unfolding S phase_ok_def using ph e(2) k by auto
  moreover have "held_ok base ?S"
  proof -
    have "base \<inter> (set_option r_in \<union> set_option r_out) = {}" using f b by blast
    moreover have "epoll_fds ?S = set_option r_in \<union> set_option r_out" "listen_fds ?S = {}"
      using e(1) k(1) by (simp_all add: S epoll_fds_def listen_fds_def)
    moreover have "conn_fds (sys_server ?S) = {}" "k_open (sys_kernel ?S) = base \<union> (set_option r_in \<union> set_option r_out)"
      "sys_phase ?S \<noteq> Destructed" using x(1) k(2) ph by (auto simp: S)
    ultimately show ?thesis by (simp add: held_ok_def apart_def)
  qed
  moreover have "k_ebadf (sys_kernel ?S) = k_ebadf (sys_kernel S)" "sys_addrinfos ?S = sys_addrinfos S" "sys_server ?S = sys_server S"
    using x(2) by (simp_all add: S)
  ultimately show ?thesis using I by (simp add: sys_inv_def)
qed

lemma begin_sys_inv:
  assumes I: "sys_inv base S" and p: "sys_phase S = Starting"
    and f: "\<forall>f \<in> set_option (lc_socket c). 0 \<le> f \<and> f \<notin> k_open (sys_kernel S)"
  shows "sys_inv base (requests_begin c S)"
proof -
  have k: "sys_listen S = None" "occupied (sys_server S) = {}" "listen_fds S = {}" and ep: "epoll_in_fd S \<noteq> - 1 \<longrightarrow> epoll_out_fd S \<noteq> epoll_in_fd S"
    using I p by (auto simp: sys_inv_def phase_ok_def listen_fds_def)
  obtain r k' n where c: "setupListenSocket c (epoll_in_fd S) (sys_kernel S) (sys_addrinfos S) = (r, k', n)"
    by (metis prod_cases3)
  note cs = setupListenSocket_cases [OF c f] and D = sys_invD [OF I]
  show ?thesis
  proof (cases r)
    case None
    then have S: "requests_begin c S = S\<lparr>sys_kernel := k', sys_addrinfos := n, sys_phase := Ended,
        sys_server := (sys_server S)\<lparr>stop_flag := True\<rparr>\<rparr>" using c by (simp add: requests_begin_def)
    have "phase_ok (requests_begin c S)" unfolding S phase_ok_def using k ep by simp
    moreover have "held_ok base (requests_begin c S)"
      unfolding S held_ok_def using D(1,2) p cs(3) None k by (simp add: epoll_fds_def listen_fds_def)
    ultimately show ?thesis using sys_invI [OF I] D(3,4) p cs(1,2) unfolding S by (simp add: server_inv_rings)
  next
    case (Some x)
    then obtain f' where f': "lc_socket c = Some f'" "x = EpollSocket_new f' (epoll_in_fd S)" "k_open k' = insert f' (k_open (sys_kernel S))"
      using cs(3) by auto
    have "fst (EpollSocket_move x) = x" by (simp add: EpollSocket_move_def)
    then have S: "requests_begin c S = S\<lparr>sys_kernel := k', sys_addrinfos := n, sys_phase := Looping, sys_listen := Some x\<rparr>"
      using c Some by (simp add: requests_begin_def case_prod_beta)
    have n: "0 \<le> f'" "f' \<notin> k_open (sys_kernel S)" using f f'(1) by auto
    have "phase_ok (requests_begin c S)" unfolding S phase_ok_def using k(2) ep f'(2) n(1) by auto
    moreover have "held_ok base (requests_begin c S)"
      unfolding S held_ok_def using D(1,2) p f'(2,3) n(2) k by (auto simp: epoll_fds_def listen_fds_def apart_def)
    ultimately show ?thesis using sys_invI [OF I] D(3,4) p cs(1,2) unfolding S by simp
  qed
qed

lemma accept_sys_inv:
  assumes I: "sys_inv base S" and p: "sys_phase S = Looping" and fr: "accepts_fresh as (k_open (sys_kernel S))"
    and r: "registerSockets as (epoll_in_fd S) (sys_kernel S) (sys_server S) = ok (k, s)"
  shows "sys_inv base (S\<lparr>sys_kernel := k, sys_server := s\<rparr>)"
proof -
  note D = sys_invD [OF I]
  have s: "server_inv s" "occupied s \<subseteq> {..<FD_SLOTS}" "accepted_fds (sys_kernel S) (sys_server S) k s"
    using registerSockets_fds [of "sys_server S" as "sys_kernel S" "epoll_in_fd S"] D p fr r by auto
  have "apart base (epoll_fds S) (listen_fds S) (conn_fds s)"
    using apart_grow [OF D(2)] s(3) D(1) p by (simp add: accepted_fds_def)
  moreover have "k_open k = base \<union> epoll_fds S \<union> listen_fds S \<union> conn_fds s"
    using s(3) D(1) p by (auto simp: accepted_fds_def)
  moreover have "k_ebadf k = k_ebadf (sys_kernel S)" using s(3) by (simp add: accepted_fds_def)
  ultimately show ?thesis using sys_inv_connections [OF I _ s(1,2)] p by simp
qed

lemma disconnect_sys_inv:
  assumes I: "sys_inv base S" and p: "sys_phase S = Looping"
    and d: "disconnect_socket f (epoll_in_fd S) (sys_kernel S) (sys_server S) = (k, s)"
  shows "sys_inv base (S\<lparr>sys_kernel := k, sys_server := s\<rparr>)"
proof (cases "condemned_outbound (sys_server S) f \<and> inbound_map (sys_server S) f \<noteq> None")
  case False
  then have "k = sys_kernel S" "s = sys_server S" using d by (cases "condemned_outbound (sys_server S) f"; simp add: disconnect_socket_def)+
  then show ?thesis using I by simp
next
  case True
  have "sys_phase S \<noteq> Destructed" using p by simp
  note D = sys_invD [OF I this]
  obtain st where st: "inbound_map (sys_server S) f = Some st" using True by auto
  have fd: "is_fd st = f" using D(3) st unfolding server_inv_def close_inv_def slot_ok_def by blast
  let ?x = "EpollSocket_new (int f) (epoll_in_fd S)"
  have ks: "k = EpollSocket_destroy ?x (sys_kernel S)" "s = disconnect_inbound f (sys_server S)"
    using d True st fd by (simp_all add: disconnect_socket_def)
  have oc: "occupied s = occupied (sys_server S) - {f}" using True st ks(2) by (auto simp: occupied_def disconnect_inbound_def)
  have "f \<in> occupied (sys_server S)" using st by (simp add: occupied_def)
  then have f: "int f \<in> conn_fds (sys_server S)" by simp
  then have o: "int f \<in> k_open (sys_kernel S)" using D(1) by simp
  have c: "conn_fds s = conn_fds (sys_server S) - {int f}" by (simp add: oc image_set_diff)
  have "k_open k = base \<union> epoll_fds S \<union> listen_fds S \<union> conn_fds s" "apart base (epoll_fds S) (listen_fds S) (conn_fds s)"
    unfolding c ks(1) using destroy_fds [of ?x "sys_kernel S"] o apart_shrink [OF D(2) f] D(1) by simp_all
  moreover have "k_ebadf k = k_ebadf (sys_kernel S)" using destroy_fds [of ?x "sys_kernel S"] o ks(1) by simp
  moreover have "server_inv s" "occupied s \<subseteq> {..<FD_SLOTS}" using ks(2) disconnect_keeps(1) [OF D(3)] D(4) oc by auto
  ultimately show ?thesis using sys_inv_connections [OF I] p by simp
qed

lemma threads_sys_inv:
  assumes I: "sys_inv base S" and p: "sys_phase S \<in> {Looping, Ended}" and s: "server_step (sys_server S) s"
    and o: "occupied s = occupied (sys_server S)"
  shows "sys_inv base (S\<lparr>sys_kernel := (sys_kernel S)\<lparr>k_epoll := E\<rparr>, sys_server := s\<rparr>)"
proof -
  have "sys_phase S \<noteq> Destructed" using p by auto
  note D = sys_invD [OF I this]
  show ?thesis using sys_inv_connections [OF I p server_step_keeps [OF s D(3)]] D(1,2,4) o by simp
qed

lemma end_sys_inv:
  assumes I: "sys_inv base S" and p: "sys_phase S = Looping"
  shows "sys_inv base (requests_end S)"
proof -
  note D = sys_invD [OF I]
  obtain f where f: "0 \<le> f" "sys_listen S = Some (EpollSocket_new f (epoll_in_fd S))"
    using I p by (auto simp: sys_inv_def phase_ok_def)
  let ?x = "EpollSocket_new f (epoll_in_fd S)"
  have l: "listen_fds S = {f}" using f by (simp add: listen_fds_def)
  have S: "requests_end S = S\<lparr>sys_kernel := EpollSocket_destroy ?x (sys_kernel S), sys_listen := None, sys_phase := Ended,
      sys_server := (sys_server S)\<lparr>stop_flag := True\<rparr>\<rparr>"
    using f by (simp add: requests_end_def)
  have k: "k_open (EpollSocket_destroy ?x (sys_kernel S)) = k_open (sys_kernel S) - {f}"
    "k_ebadf (EpollSocket_destroy ?x (sys_kernel S)) = k_ebadf (sys_kernel S)"
    using destroy_fds [of ?x "sys_kernel S"] f(1) D(1) p l by auto
  have "k_open (sys_kernel S) - {f} = base \<union> epoll_fds S \<union> conn_fds (sys_server S)" "apart base (epoll_fds S) {} (conn_fds (sys_server S))"
    using D(1,2) p l by (auto simp: apart_def)
  then have "held_ok base (requests_end S)" unfolding S held_ok_def using k(1) by (simp add: listen_fds_def epoll_fds_def)
  moreover have "phase_ok (requests_end S)" using I p by (simp add: S phase_ok_def sys_inv_def)
  ultimately show ?thesis using I k(2) unfolding sys_inv_def by (simp add: S server_inv_rings)
qed

text \<open>The destructor closes whatever is left.\<close>

definition slot_fd :: "Server \<Rightarrow> fd \<Rightarrow> int" where
  "slot_fd s f = (case inbound_map s f of None \<Rightarrow> - 1 | Some st \<Rightarrow> int (is_fd st))"

interpretation slots: fd_owner "slot_fd s" "\<lambda>f. destroy_slot ep f s" for s ep
  by unfold_locales (auto simp: slot_fd_def destroy_slot_def destroy_fds split: option.splits)

definition close_if_open :: "int \<Rightarrow> Kernel \<Rightarrow> Kernel" where
  "close_if_open f k = (if f \<noteq> - 1 then close_fd f k else k)"

interpretation raw: fd_owner "\<lambda>f. f" close_if_open
  by unfold_locales (auto simp: close_if_open_def)

lemma slot_fds:
  assumes "server_inv s" and "distinct fs"
  shows "set (held_fds (slot_fd s) fs) = int ` (occupied s \<inter> set fs)" and "distinct (held_fds (slot_fd s) fs)"
proof -
  have f: "slot_fd s f = (if f \<in> occupied s then int f else - 1)" for f
    using assms(1) by (auto simp: slot_fd_def occupied_def server_inv_def close_inv_def slot_ok_def split: option.splits)
  have "held_fds (slot_fd s) fs = map int (filter (\<lambda>f. f \<in> occupied s) fs)"
    by (induction fs) (simp_all add: held_fds_def f)
  then show "set (held_fds (slot_fd s) fs) = int ` (occupied s \<inter> set fs)" "distinct (held_fds (slot_fd s) fs)"
    using assms(2) by (auto simp: distinct_map)
qed

lemma close_pair:
  assumes "{a, b} - {- 1} \<subseteq> k_open k" and "a \<noteq> - 1 \<longrightarrow> b \<noteq> a"
  shows "k_open (close_if_open b (close_if_open a k)) = k_open k - ({a, b} - {- 1})"
    and "k_ebadf (close_if_open b (close_if_open a k)) = k_ebadf k"
proof -
  have h: "set (held_fds (\<lambda>f. f) [a, b]) = {a, b} - {- 1}" "distinct (held_fds (\<lambda>f. f) [a, b])"
    using assms(2) by (auto simp: held_fds_def)
  show "k_open (close_if_open b (close_if_open a k)) = k_open k - ({a, b} - {- 1})"
    "k_ebadf (close_if_open b (close_if_open a k)) = k_ebadf k"
    using raw.destroy_all [OF h(2), of k] assms(1) unfolding h(1) by simp_all
qed

lemma destruct_sys_inv:
  assumes I: "sys_inv base S" and p: "sys_phase S \<in> {Constructed, Ended}"
  shows "sys_inv base (Server_destroy S)"
proof -
  have D: "k_open (sys_kernel S) = base \<union> epoll_fds S \<union> listen_fds S \<union> conn_fds (sys_server S)"
    "apart base (epoll_fds S) (listen_fds S) (conn_fds (sys_server S))" "server_inv (sys_server S)" "occupied (sys_server S) \<subseteq> {..<FD_SLOTS}"
    using sys_invD [OF I] p by auto
  have l: "listen_fds S = {}" and ne: "epoll_in_fd S \<noteq> - 1 \<longrightarrow> epoll_out_fd S \<noteq> epoll_in_fd S" and no: "sys_listen S = None"
    using I p by (auto simp: sys_inv_def phase_ok_def listen_fds_def)
  define k2 where "k2 = close_if_open (epoll_out_fd S) (close_if_open (epoll_in_fd S) (sys_kernel S))"
  have S: "Server_destroy S = S\<lparr>sys_kernel := fold (\<lambda>f. destroy_slot (epoll_in_fd S) f (sys_server S)) (rev [0..<FD_SLOTS]) k2,
      sys_phase := Destructed\<rparr>" by (simp add: Server_destroy_def k2_def close_if_open_def Let_def)
  have "epoll_fds S \<subseteq> k_open (sys_kernel S)" using D(1) by auto
  then have k2: "k_open k2 = k_open (sys_kernel S) - epoll_fds S" "k_ebadf k2 = k_ebadf (sys_kernel S)"
    using close_pair [of "epoll_in_fd S" "epoll_out_fd S" "sys_kernel S"] ne unfolding k2_def epoll_fds_def by simp_all
  have all: "occupied (sys_server S) \<inter> set (rev [0..<FD_SLOTS]) = occupied (sys_server S)" using D(4) by auto
  note h = slot_fds [OF D(3) distinct_rev [THEN iffD2, OF distinct_upt], of 0 FD_SLOTS]
  have "conn_fds (sys_server S) \<subseteq> k_open k2" using D(1,2) k2(1) by (auto simp: apart_def)
  then have k3: "k_open (sys_kernel (Server_destroy S)) = k_open k2 - conn_fds (sys_server S)"
    "k_ebadf (sys_kernel (Server_destroy S)) = k_ebadf k2"
    using slots.destroy_all [OF h(2), of k2 "epoll_in_fd S"] unfolding h(1) all by (simp_all add: S)
  have "k_open (sys_kernel (Server_destroy S)) = base" using k2(1) k3(1) D(1,2) l by (auto simp: apart_def)
  moreover have "phase_ok (Server_destroy S)" using ne no by (simp add: S phase_ok_def)
  ultimately show ?thesis using I k2(2) k3(2) unfolding sys_inv_def held_ok_def by (simp add: S)
qed

lemma sys_step_inv: "sys_step S S' \<Longrightarrow> sys_inv base S \<Longrightarrow> sys_inv base S'"
  by (induction rule: sys_step.induct)
    (auto intro: run_sys_inv begin_sys_inv accept_sys_inv disconnect_sys_inv threads_sys_inv end_sys_inv destruct_sys_inv)

interpretation sys_steps: step_invariant sys_step "sys_inv base" for base
  by unfold_locales (rule sys_step_inv)

section \<open>Properties\<close>

text \<open>
  Setting up the listening socket is all or nothing. Whatever call fails, \<^verbatim>\<open>setupListenSocket\<close> has freed the address list
  exactly once, and either returns the open socket, registered with the inbound epoll instance, or
  returns nothing and leaves the open descriptors as they were.
\<close>

theorem listen_setup_all_or_nothing:
  assumes "setupListenSocket c ep k n = (r, k', n')" and "\<forall>f \<in> set_option (lc_socket c). 0 \<le> f \<and> f \<notin> k_open k"
  shows "n' = n \<and> k_ebadf k' = k_ebadf k
    \<and> (r = None \<and> k_open k' = k_open k
       \<or> (\<exists>f. lc_socket c = Some f \<and> r = Some (EpollSocket_new f ep) \<and> k_open k' = insert f (k_open k) \<and> f \<in> k_epoll k' ep))"
  using setupListenSocket_cases [OF assms] by blast

theorem listen_setup_all_or_nothing_witness:
  "fst (setupListenSocket \<lparr>lc_getaddrinfo = True, lc_socket = Some 5, lc_bind = True, lc_listen = False, lc_getfl = True, lc_epoll_add = True\<rparr>
     3 (open_fd 3 Kernel_new) 0) = None
   \<and> k_open (fst (snd (setupListenSocket \<lparr>lc_getaddrinfo = True, lc_socket = Some 5, lc_bind = True, lc_listen = False,
       lc_getfl = True, lc_epoll_add = True\<rparr> 3 (open_fd 3 Kernel_new) 0))) = {3}"
proof -
  let ?c = "\<lparr>lc_getaddrinfo = True, lc_socket = Some 5, lc_bind = True, lc_listen = False, lc_getfl = True, lc_epoll_add = True\<rparr>"
  have n: "fst (setupListenSocket ?c 3 (open_fd 3 Kernel_new) 0) = None"
    by (simp add: setupListenSocket_def Let_def)
  have "k_open Kernel_new = {}" by (simp add: Kernel_new_def)
  then show ?thesis using n listen_setup_all_or_nothing [of ?c 3 "open_fd 3 Kernel_new" 0] by (simp add: prod_eq_iff)
qed


text \<open>A server that starts, accepts one connection and refuses another, returns from its loop and is destroyed.\<close>

definition listen_good :: listen_calls where
  "listen_good = \<lparr>lc_getaddrinfo = True, lc_socket = Some 5, lc_bind = True, lc_listen = True, lc_getfl = True, lc_epoll_add = True\<rparr>"

definition two_accepts :: "accept_result list" where
  "two_accepts = [\<lparr>acc_fd = 6, acc_fcntl_ok = True, acc_epoll_ok = True\<rparr>, \<lparr>acc_fd = 7, acc_fcntl_ok = True, acc_epoll_ok = False\<rparr>]"

definition std_fds :: Kernel where
  "std_fds = \<lparr>k_open = {0, 1, 2}, k_epoll = (\<lambda>_. {}), k_closes = [], k_ebadf = 0\<rparr>"

lemma looping_server:
  "\<exists>S. sys_run (Sys_new std_fds server0) S \<and> sys_phase S = Looping \<and> k_open (sys_kernel S) = {0, 1, 2, 3, 4, 5, 6} \<and> occupied (sys_server S) = {6}"
proof -
  let ?S0 = "Sys_new std_fds server0" and ?S1 = "Server_run (Some 3) (Some 4) (Sys_new std_fds server0)"
  let ?S2 = "requests_begin listen_good ?S1"
  have k1: "k_open (sys_kernel ?S1) = {0, 1, 2, 3, 4}" "sys_phase ?S1 = Starting"
    by (auto simp: Server_run_def setupEpoll_def Let_def opened_def fd_or_error_def Sys_new_def std_fds_def)
  have k2: "k_open (sys_kernel ?S2) = {0, 1, 2, 3, 4, 5}" "sys_phase ?S2 = Looping" "sys_server ?S2 = server0"
    using k1(1)
    by (auto simp: requests_begin_def setupListenSocket_def listen_good_def Let_def EpollSocket_move_def EpollSocket_destroy_def EpollSocket_new_def)
      (simp add: Server_run_def setupEpoll_def Let_def Sys_new_def)
  have r: "sys_run ?S0 ?S2"
    by (rule sys_run_step [OF sys_run_step [OF sys_run_start run] begin_requests])
      (use k1 in \<open>simp_all add: Sys_new_def std_fds_def listen_good_def\<close>)
  have inv: "sys_inv {0, 1, 2} ?S2"
    using sys_steps.run_inv [OF r] sys_inv_new [of std_fds] unfolding server0_def by (simp add: std_fds_def)
  have occ: "occupied server0 = {}" by (simp add: occupied_def server0_def Server_new_def)
  have fr: "accepts_fresh two_accepts (k_open (sys_kernel ?S2))" by (simp add: k2 two_accepts_def FD_SLOTS_def MAX_CLIENTS_def)
  obtain k s where ks: "registerSockets two_accepts (epoll_in_fd ?S2) (sys_kernel ?S2) server0 = ok (k, s)"
    "registerConnections two_accepts server0 = ok s" "accepted_fds (sys_kernel ?S2) server0 k s"
    using registerSockets_fds [of server0 two_accepts "sys_kernel ?S2" "epoll_in_fd ?S2"] fr occ inv by (auto simp: sys_inv_def k2)
  have s: "occupied s = {6}" using ks(2) occ
    by (auto simp: two_accepts_def epoll_ctrl_def register_def FD_SLOTS_def MAX_CLIENTS_def occupied_def split: if_splits)
  have "sys_run ?S0 (?S2\<lparr>sys_kernel := k, sys_server := s\<rparr>)" using sys_run_step [OF r accept [OF k2(2) fr]] ks(1) k2(3) by simp
  moreover have "k_open k = {0, 1, 2, 3, 4, 5, 6}" using ks(3) s k2(1) by (auto simp: accepted_fds_def)
  ultimately show ?thesis using k2(2) s by (intro exI [of _ "?S2\<lparr>sys_kernel := k, sys_server := s\<rparr>"]) simp
qed


end
