(* ===== verification/Exchange_App.thy ===== *)
theory Exchange_App
  imports Server_Setup
begin

text \<open>
  Start-up and shut-down of the exchange process: \<^verbatim>\<open>app/main.cpp\<close>, \<^verbatim>\<open>app/exchange.cpp\<close>, and the parts of \<^verbatim>\<open>server.cpp\<close>
  and \<^verbatim>\<open>engine.cpp\<close> that start threads and end their loops. The main thread, the signal handler
  and the three worker threads share the flag \<^verbatim>\<open>Exchange::stop_\<close>, on which the main thread waits.

  \<^verbatim>\<open>stop_.wait(false)\<close> compares the flag and, if it is false, blocks until a notification, or
  spuriously, and then compares again. Comparing and blocking are one step, as the library
  guarantees that a store followed by a notification is not missed in between. A round of a worker's loop is
  one step here: that it returns is shown in the theories of the loops.
\<close>

section \<open>State\<close>

datatype main_pc =
    M_Server    \<comment> \<open>at \<open>server_.run()\<close>\<close>
  | M_Engine    \<comment> \<open>at \<open>engine_.run()\<close>\<close>
  | M_Wait      \<comment> \<open>comparing in \<open>stop_.wait(false)\<close>\<close>
  | M_Blocked
  | M_Join      \<comment> \<open>destroying the exchange\<close>
  | M_Exit

datatype handler_pc = H_Idle | H_Stored

datatype worker = Not_Started | Setting_Up | In_Loop | Returned

record App =
  app_stop :: bool
  main_at :: main_pc
  handler_at :: handler_pc
  inbound_thread :: worker
  outbound_thread :: worker
  matching_thread :: worker
  signals :: nat

definition App_new :: App where
  "App_new = \<lparr>app_stop = False, main_at = M_Server, handler_at = H_Idle, inbound_thread = Not_Started,
     outbound_thread = Not_Started, matching_thread = Not_Started, signals = 0\<rparr>"

section \<open>The main thread\<close>

definition app_server_run :: "bool \<Rightarrow> App \<Rightarrow> App" where
  "app_server_run epoll_good a =
     (if \<not> epoll_good then a\<lparr>main_at := M_Engine\<rparr>
      else a\<lparr>inbound_thread := Setting_Up, outbound_thread := In_Loop, main_at := M_Engine\<rparr>)"

definition app_engine_run :: "App \<Rightarrow> App" where
  "app_engine_run a = a\<lparr>matching_thread := In_Loop, main_at := M_Wait\<rparr>"

definition app_wait :: "App \<Rightarrow> App" where
  "app_wait a = (if app_stop a then a\<lparr>main_at := M_Join\<rparr> else a\<lparr>main_at := M_Blocked\<rparr>)"

definition ended :: "worker \<Rightarrow> bool" where "ended w \<longleftrightarrow> w = Not_Started \<or> w = Returned"

text \<open>The destructors of the server and the engine join their threads.\<close>

definition app_join :: "App \<Rightarrow> App" where
  "app_join a =
     (if ended (inbound_thread a) \<and> ended (outbound_thread a) \<and> ended (matching_thread a) then a\<lparr>main_at := M_Exit\<rparr> else a)"

section \<open>The signal handler\<close>

definition stop_store :: "App \<Rightarrow> App" where
  "stop_store a = a\<lparr>app_stop := True, handler_at := H_Stored\<rparr>"

definition stop_notify :: "App \<Rightarrow> App" where
  "stop_notify a =
     (let b = a\<lparr>handler_at := H_Idle, signals := signals a + 1\<rparr>
      in if main_at a = M_Blocked then b\<lparr>main_at := M_Wait\<rparr> else b)"

section \<open>The worker threads\<close>

definition inbound_setup :: "EpollSocket option \<Rightarrow> App \<Rightarrow> App" where
  "inbound_setup socket_setup a =
     (case socket_setup of
        None \<Rightarrow> a\<lparr>app_stop := True, inbound_thread := Returned\<rparr>
      | Some listen_sock \<Rightarrow> a\<lparr>inbound_thread := In_Loop\<rparr>)"

text \<open>The loop tests; the argument says whether \<^verbatim>\<open>epoll_wait\<close> fails in this round.\<close>

definition inbound_round :: "bool \<Rightarrow> App \<Rightarrow> App" where
  "inbound_round wait_failed a =
     (if app_stop a then a\<lparr>inbound_thread := Returned\<rparr>
      else if wait_failed then a\<lparr>app_stop := True, inbound_thread := Returned\<rparr>
      else a)"

definition outbound_round :: "bool \<Rightarrow> App \<Rightarrow> App" where
  "outbound_round wait_failed a =
     (if app_stop a then a\<lparr>outbound_thread := Returned\<rparr>
      else if wait_failed then a\<lparr>outbound_thread := Returned\<rparr>
      else a)"

definition matching_round :: "App \<Rightarrow> App" where
  "matching_round a = (if app_stop a then a\<lparr>matching_thread := Returned\<rparr> else a)"

section \<open>Thread pinning\<close>

text \<open>
  \<^verbatim>\<open>pin_to_core\<close> (\<^verbatim>\<open>exchange/include/lib.hpp\<close>), called first by every worker: what it reports, for the return values of
  \<^verbatim>\<open>pthread_setaffinity_np\<close> and \<^verbatim>\<open>pthread_setschedparam\<close>. These return zero or a positive error number.
\<close>

definition pin_to_core :: "int \<Rightarrow> int \<Rightarrow> string list" where
  "pin_to_core rc_affinity rc_sched =
     (if rc_affinity = - 1 then [''pthread_setaffinity_np failed''] else [])
     @ (if rc_sched = - 1 then [''pthread_setschedparam failed''] else [])"

lemma pin_errors_unreported: "0 \<le> rc \<Longrightarrow> 0 \<le> rc' \<Longrightarrow> pin_to_core rc rc' = []"
  by (simp add: pin_to_core_def)

section \<open>Runs\<close>

text \<open>What the process does by itself. \<open>setupEpoll\<close> and \<open>setupListenSocket\<close> get whatever the kernel answers.\<close>

inductive app_step :: "App \<Rightarrow> App \<Rightarrow> bool" where
  main_server: "main_at a = M_Server \<Longrightarrow> app_step a (app_server_run (fst (setupEpoll r_in r_out k)) a)"
| main_engine: "main_at a = M_Engine \<Longrightarrow> app_step a (app_engine_run a)"
| main_wait: "main_at a = M_Wait \<Longrightarrow> app_step a (app_wait a)"
| main_join: "main_at a = M_Join \<Longrightarrow> app_step a (app_join a)"
| handler_notify: "handler_at a = H_Stored \<Longrightarrow> app_step a (stop_notify a)"
| in_setup: "inbound_thread a = Setting_Up \<Longrightarrow> app_step a (inbound_setup (fst (setupListenSocket c ep k n)) a)"
| in_round: "inbound_thread a = In_Loop \<Longrightarrow> app_step a (inbound_round b a)"
| out_round: "outbound_thread a = In_Loop \<Longrightarrow> app_step a (outbound_round b a)"
| match_round: "matching_thread a = In_Loop \<Longrightarrow> app_step a (matching_round a)"

text \<open>What happens to it: a signal, or a spurious wake-up.\<close>

inductive app_event :: "App \<Rightarrow> App \<Rightarrow> bool" where
  signal: "handler_at a = H_Idle \<Longrightarrow> app_event a (stop_store a)"
| spurious: "main_at a = M_Blocked \<Longrightarrow> app_event a (a\<lparr>main_at := M_Wait\<rparr>)"

abbreviation app_move :: "App \<Rightarrow> App \<Rightarrow> bool" where "app_move a b \<equiv> app_step a b \<or> app_event a b"

abbreviation app_run :: "App \<Rightarrow> App \<Rightarrow> bool" where "app_run \<equiv> app_move\<^sup>*\<^sup>*"

inductive app_steps :: "nat \<Rightarrow> App \<Rightarrow> App \<Rightarrow> bool" where
  none: "app_steps 0 a a"
| some: "app_step a a' \<Longrightarrow> a' \<noteq> a \<Longrightarrow> app_steps n a' a'' \<Longrightarrow> app_steps (Suc n) a a''"

lemma app_run_step: "app_run a0 a \<Longrightarrow> app_step a a' \<Longrightarrow> app_run a0 a'"
  and app_run_event: "app_run a0 a \<Longrightarrow> app_event a a' \<Longrightarrow> app_run a0 a'"
  using run_step [of app_move] by blast+

section \<open>Shut-down\<close>

text \<open>Once the handler has run, the flag is set and nobody sleeps on it.\<close>

definition signalled :: "App \<Rightarrow> bool" where
  "signalled a \<longleftrightarrow> app_stop a \<and> (handler_at a = H_Stored \<or> main_at a \<noteq> M_Blocked)"

definition app_inv :: "App \<Rightarrow> bool" where
  "app_inv a \<longleftrightarrow> (0 < signals a \<or> handler_at a = H_Stored \<longrightarrow> signalled a)
     \<and> outbound_thread a \<noteq> Setting_Up \<and> matching_thread a \<noteq> Setting_Up
     \<and> (main_at a = M_Exit \<longrightarrow> ended (inbound_thread a) \<and> ended (outbound_thread a) \<and> ended (matching_thread a))"

lemmas app_defs = app_server_run_def app_engine_run_def app_wait_def app_join_def stop_store_def stop_notify_def
  inbound_setup_def inbound_round_def outbound_round_def matching_round_def

lemma app_step_inv: "app_step a a' \<Longrightarrow> app_inv a \<Longrightarrow> app_inv a'"
  by (induction rule: app_step.induct) (auto simp: app_inv_def signalled_def app_defs ended_def Let_def split: option.splits)

lemma app_event_inv: "app_event a a' \<Longrightarrow> app_inv a \<Longrightarrow> app_inv a'"
  by (induction rule: app_event.induct) (auto simp: app_inv_def signalled_def app_defs)

interpretation app_moves: step_invariant app_move app_inv
  by unfold_locales (auto intro: app_step_inv app_event_inv)

lemma app_run_inv: "app_run App_new a \<Longrightarrow> app_inv a"
  using app_moves.run_inv by (force simp: app_inv_def App_new_def)

text \<open>The work left until the process has exited.\<close>

definition main_work :: "App \<Rightarrow> nat" where
  "main_work a = (case main_at a of M_Server \<Rightarrow> 10 | M_Engine \<Rightarrow> 6 | M_Wait \<Rightarrow> 3 | M_Blocked \<Rightarrow> 4 | M_Join \<Rightarrow> 2 | M_Exit \<Rightarrow> 0)"

definition worker_work :: "worker \<Rightarrow> nat" where
  "worker_work w = (case w of Setting_Up \<Rightarrow> 2 | In_Loop \<Rightarrow> 1 | _ \<Rightarrow> 0)"

definition app_work :: "App \<Rightarrow> nat" where
  "app_work a = main_work a + (if handler_at a = H_Stored then 1 else 0)
     + worker_work (inbound_thread a) + worker_work (outbound_thread a) + worker_work (matching_thread a)"

lemma app_step_work:
  assumes "app_step a a'" and "app_stop a" and "a' \<noteq> a"
  shows "app_work a' < app_work a" and "app_stop a'"
  using assms
  by (induction rule: app_step.induct)
    (auto simp: app_work_def main_work_def worker_work_def app_defs Let_def split: option.splits worker.splits if_splits)

lemma signalled_step: "app_step a a' \<Longrightarrow> signalled a \<Longrightarrow> signalled a'"
  by (induction rule: app_step.induct) (auto simp: signalled_def app_defs Let_def split: option.splits)

lemma app_steps_facts:
  "app_steps n a b \<Longrightarrow> signalled a \<Longrightarrow> app_inv a \<Longrightarrow> signalled b \<and> app_inv b \<and> app_work b + n \<le> app_work a"
proof (induction rule: app_steps.induct)
  case (some a a' n a'')
  have "app_work a' < app_work a" using app_step_work(1) [OF some(1) _ some(2)] some.prems(1) by (simp add: signalled_def)
  then show ?case using some.IH signalled_step [OF some(1)] app_step_inv [OF some(1)] some.prems by auto
qed simp

text \<open>Until it has exited, a signalled process has something to do.\<close>

lemma moves: "app_step a b \<Longrightarrow> f b \<noteq> f a \<Longrightarrow> \<exists>b. app_step a b \<and> b \<noteq> a"
  by blast

lemma worker_moves:
  assumes "signalled a" and "app_inv a"
    and "\<not> (ended (inbound_thread a) \<and> ended (outbound_thread a) \<and> ended (matching_thread a))"
  shows "\<exists>b. app_step a b \<and> b \<noteq> a"
proof -
  have s: "app_stop a" using assms(1) by (simp add: signalled_def)
  consider "inbound_thread a = Setting_Up" | "inbound_thread a = In_Loop" | "outbound_thread a = In_Loop" | "matching_thread a = In_Loop"
    using assms(2,3) by (cases "inbound_thread a"; cases "outbound_thread a"; cases "matching_thread a") (auto simp: ended_def app_inv_def)
  then show ?thesis
  proof cases
    case 1
    then show ?thesis using moves [OF in_setup, of a inbound_thread] by (auto simp: inbound_setup_def split: option.splits)
  next
    case 2
    then show ?thesis using s moves [OF in_round, of a inbound_thread] by (auto simp: inbound_round_def)
  next
    case 3
    then show ?thesis using s moves [OF out_round, of a outbound_thread] by (auto simp: outbound_round_def)
  next
    case 4
    then show ?thesis using s moves [OF match_round, of a matching_thread] by (auto simp: matching_round_def)
  qed
qed

lemma signalled_moves:
  assumes "signalled a" and "app_inv a" and "main_at a \<noteq> M_Exit"
  shows "\<exists>b. app_step a b \<and> b \<noteq> a"
proof (cases "main_at a")
  case M_Server
  then show ?thesis using moves [OF main_server, of a main_at] by (auto simp: app_server_run_def)
next
  case M_Engine
  then show ?thesis using moves [OF main_engine, of a main_at] by (auto simp: app_engine_run_def)
next
  case M_Wait
  then show ?thesis using moves [OF main_wait, of a main_at] by (auto simp: app_wait_def)
next
  case M_Blocked
  then have "handler_at a = H_Stored" using assms(1) by (simp add: signalled_def)
  then show ?thesis using moves [OF handler_notify, of a handler_at] by (auto simp: stop_notify_def Let_def)
next
  case M_Join
  then show ?thesis using worker_moves [OF assms(1,2)] moves [OF main_join, of a main_at]
    by (cases "ended (inbound_thread a) \<and> ended (outbound_thread a) \<and> ended (matching_thread a)") (auto simp: app_join_def)
qed (use assms(3) in simp)

lemma signalled_exits:
  "signalled a \<Longrightarrow> app_inv a \<Longrightarrow> \<exists>n b. app_steps n a b \<and> main_at b = M_Exit"
proof (induction "app_work a" arbitrary: a rule: less_induct)
  case less
  show ?case
  proof (cases "main_at a = M_Exit")
    case False
    then obtain b where b: "app_step a b" "b \<noteq> a" using signalled_moves less.prems by blast
    have "app_work b < app_work a" using app_step_work(1) [OF b(1) _ b(2)] less.prems(1) by (simp add: signalled_def)
    from less.hyps [OF this] obtain n c where "app_steps n b c" "main_at c = M_Exit"
      using signalled_step [OF b(1)] app_step_inv [OF b(1)] less.prems by blast
    then show ?thesis using app_steps.some [OF b] by blast
  qed (use app_steps.none in blast)
qed

text \<open>The flag is set, the main thread sleeps, and no handler is about to wake it.\<close>

definition stranded :: "App \<Rightarrow> bool" where
  "stranded a \<longleftrightarrow> app_stop a \<and> main_at a = M_Blocked \<and> handler_at a = H_Idle"

lemma stranded_step: "app_step a b \<Longrightarrow> stranded a \<Longrightarrow> stranded b"
  by (induction rule: app_step.induct) (auto simp: stranded_def app_defs split: option.splits)

lemma stranded_steps: "app_steps n a b \<Longrightarrow> stranded a \<Longrightarrow> stranded b"
  by (induction rule: app_steps.induct) (auto intro: stranded_step)

section \<open>Properties\<close>

text \<open>
  C16: a signal ends the exchange. Whenever it arrives, once the handler has stored and notified, the process needs only
  a bounded number of further steps, is never stuck before it has exited, and does exit, with all
  three worker threads joined.
\<close>

theorem signal_shuts_down:
  assumes "app_run App_new a" and "0 < signals a"
  shows "(\<forall>n b. app_steps n a b \<longrightarrow> n \<le> app_work a \<and> (main_at b \<noteq> M_Exit \<longrightarrow> (\<exists>c. app_step b c \<and> c \<noteq> b)))
    \<and> (\<exists>n b. app_steps n a b \<and> main_at b = M_Exit
         \<and> ended (inbound_thread b) \<and> ended (outbound_thread b) \<and> ended (matching_thread b))"
proof -
  have I: "app_inv a" using app_run_inv [OF assms(1)] .
  then have S: "signalled a" using assms(2) by (simp add: app_inv_def)
  have 1: "n \<le> app_work a \<and> (main_at b \<noteq> M_Exit \<longrightarrow> (\<exists>c. app_step b c \<and> c \<noteq> b))" if "app_steps n a b" for n b
    using app_steps_facts [OF that S I] signalled_moves [of b] by auto
  obtain n b where b: "app_steps n a b" "main_at b = M_Exit" using signalled_exits [OF S I] by blast
  then have "ended (inbound_thread b) \<and> ended (outbound_thread b) \<and> ended (matching_thread b)"
    using app_steps_facts [OF b(1) S I] by (simp add: app_inv_def)
  then show ?thesis using 1 b by blast
qed

text \<open>The exchange is up; then comes the signal.\<close>

definition app_up :: App where
  "app_up = \<lparr>app_stop = False, main_at = M_Blocked, handler_at = H_Idle, inbound_thread = Setting_Up,
     outbound_thread = In_Loop, matching_thread = In_Loop, signals = 0\<rparr>"

lemma app_up_reached: "app_run App_new app_up"
proof -
  have "app_run App_new (app_wait (app_engine_run (app_server_run (fst (setupEpoll (Some 3) (Some 4) Kernel_new)) App_new)))"
    by (rule app_run_step [OF app_run_step [OF app_run_step [OF run_start main_server] main_engine] main_wait])
      (simp_all add: App_new_def app_defs)
  then show ?thesis by (simp add: app_up_def App_new_def app_defs setupEpoll_def Let_def fd_or_error_def)
qed

theorem signal_shuts_down_witness:
  "app_run App_new (stop_notify (stop_store app_up)) \<and> (\<exists>n b. app_steps n (stop_notify (stop_store app_up)) b \<and> main_at b = M_Exit)"
proof -
  have r: "app_run App_new (stop_notify (stop_store app_up))"
    by (rule app_run_step [OF app_run_event [OF app_up_reached signal] handler_notify]) (simp_all add: app_up_def stop_store_def)
  have "0 < signals (stop_notify (stop_store app_up))" by (simp add: stop_notify_def stop_store_def app_up_def)
  then show ?thesis using r signal_shuts_down [OF r] by blast
qed

text \<open>
  C33: a failed set-up does not end the exchange. When \<^verbatim>\<open>handleRequests\<close> gives up because there is no listening
  socket, it stores the stop flag but does not notify: the main thread, waiting on the flag, sleeps
  on, whatever the process does by itself, until a signal arrives.
\<close>

theorem failed_setup_strands_main:
  assumes "main_at a = M_Blocked" and "handler_at a = H_Idle" and "app_steps n (inbound_setup None a) b"
  shows "app_stop b \<and> main_at b = M_Blocked"
  using stranded_steps [OF assms(3)] assms(1,2) by (simp add: stranded_def inbound_setup_def)

theorem failed_setup_strands_main_witness:
  "app_run App_new (inbound_setup None app_up)
   \<and> (\<exists>b. app_steps 2 (inbound_setup None app_up) b \<and> \<not> (\<exists>c. app_step b c) \<and> main_at b = M_Blocked)"
proof -
  let ?a = "inbound_setup None app_up"
  have r: "app_run App_new ?a"
    using app_run_step [OF app_up_reached in_setup [where c = "\<lparr>lc_getaddrinfo = False, lc_socket = None, lc_bind = False,
      lc_listen = False, lc_getfl = False, lc_epoll_add = False\<rparr>"]] by (simp add: app_up_def setupListenSocket_def)
  let ?b = "matching_round (outbound_round False ?a)"
  have "app_steps 2 ?a ?b"
    unfolding numeral_2_eq_2
    by (rule app_steps.some [OF out_round _ app_steps.some [OF match_round _ app_steps.none]])
      (simp_all add: app_up_def app_defs)
  moreover have "\<not> (\<exists>c. app_step ?b c)" by (auto elim!: app_step.cases simp: app_up_def app_defs)
  ultimately show ?thesis using r failed_setup_strands_main [of app_up 2 ?b] by (auto simp: app_up_def)
qed

end
