(* ===== verification/Client_Main.thy ===== *)
theory Client_Main
  imports Client_Loop Socket
begin

text \<open>
  The process around the load generator: \<^verbatim>\<open>client/app/main.cpp\<close> from the command line to the printed
  statistics, and the constructor, \<^verbatim>\<open>setupEpoll\<close> and destructor of \<^verbatim>\<open>LoadGenerator\<close>. The report is the list of values
  handed to \<^verbatim>\<open>fprintf\<close>; doubles are rationals. The event loop ends when the signal handler clears
  \<^verbatim>\<open>running_\<close>, which is the end of the list of rounds.
\<close>

section \<open>The command line\<close>

text \<open>The library's number parsing: white space, a sign, digits; anything after them is ignored.\<close>

definition is_space :: "char \<Rightarrow> bool" where
  "is_space c \<longleftrightarrow> of_char c \<in> {9, 10, 11, 12, 13, 32 :: nat}"

definition is_digit :: "char \<Rightarrow> bool" where
  "is_digit c \<longleftrightarrow> 48 \<le> (of_char c :: nat) \<and> (of_char c :: nat) \<le> 57"

definition digits_value :: "string \<Rightarrow> nat" where
  "digits_value s = fold (\<lambda>c n. 10 * n + (of_char c - 48)) (takeWhile is_digit s) 0"

definition parse_number :: "string \<Rightarrow> bool \<times> nat" where
  "parse_number s =
     (case dropWhile is_space s of
        [] \<Rightarrow> (False, 0)
      | c # cs \<Rightarrow> if c = CHR ''-'' then (True, digits_value cs)
                  else if c = CHR ''+'' then (False, digits_value cs)
                  else (False, digits_value (c # cs)))"

text \<open>The behaviour of \<^verbatim>\<open>atoi\<close> is undefined when the value is not an \<^verbatim>\<open>int\<close>; \<^verbatim>\<open>strtoull\<close> saturates and negates modulo \<open>2\<^sup>6\<^sup>4\<close>.\<close>

definition atoi :: "string \<Rightarrow> int res" where
  "atoi s =
     (case parse_number s of
        (neg, n) \<Rightarrow> let v = (if neg then - int n else int n)
                    in if - (2 ^ 31) \<le> v \<and> v < 2 ^ 31 then ok v else fail Conversion_Overflow)"

definition strtoull :: "string \<Rightarrow> 64 word" where
  "strtoull s =
     (case parse_number s of
        (neg, n) \<Rightarrow> if 2 ^ 64 \<le> n then - 1 else if neg then - of_nat n else of_nat n)"

text \<open>\<^verbatim>\<open>OrderFactory::instance\<close>: a zero seed asks the random device.\<close>

definition factory_seed :: "64 word \<Rightarrow> 64 word \<Rightarrow> 64 word" where
  "factory_seed device seed = (if seed \<noteq> 0 then seed else device)"

definition now_ns :: "64 word \<Rightarrow> 64 word \<Rightarrow> 64 word" where
  "now_ns tv_sec tv_nsec = tv_sec * 1000000000 + tv_nsec"

section \<open>The generator's life\<close>

text \<open>The constructor's rate limit; \<^verbatim>\<open>EXPECTED_THROUGHPUT\<close> is 0 as shipped.\<close>

definition inter_arrival_ns :: "nat \<Rightarrow> int \<Rightarrow> 64 word" where
  "inter_arrival_ns throughput num_clients =
     (if 0 < throughput then word_of_int \<lfloor>of_int num_clients * 1000000000 / of_nat throughput :: rat\<rfloor> else 0)"

definition client_setupEpoll :: "int option \<Rightarrow> Kernel \<Rightarrow> bool \<times> int \<times> Kernel" where
  "client_setupEpoll r k = (case r of None \<Rightarrow> (False, - 1, k) | Some f \<Rightarrow> (True, f, open_fd f k))"

definition destroy_client :: "int \<Rightarrow> ClientState \<Rightarrow> Kernel \<Rightarrow> Kernel" where
  "destroy_client ep cs k = (if cs_fd cs \<noteq> - 1 then close_fd (cs_fd cs) (epoll_ctl_del ep (cs_fd cs) k) else k)"

definition LoadGenerator_destroy :: "int \<Rightarrow> ClientState list \<Rightarrow> Kernel \<Rightarrow> Kernel" where
  "LoadGenerator_destroy ep clients k =
     (let k1 = fold (destroy_client ep) clients k in if ep \<noteq> - 1 then close_fd ep k1 else k1)"

section \<open>main\<close>

record Report =
  rp_elapsed :: rat
  rp_requests :: "64 word"
  rp_ack :: "64 word"
  rp_match :: "64 word"
  rp_err :: "64 word"
  rp_in_flight :: int
  rp_requests_rate :: rat
  rp_ack_rate :: rat
  rp_match_rate :: rat
  rp_err_rate :: rat
  rp_total_rate :: rat

definition report :: "64 word \<Rightarrow> 64 word \<Rightarrow> Stats \<Rightarrow> Report" where
  "report t0 t1 s =
     (let elapsed_s = of_nat (unat (t1 - t0)) / 1000000000;
          total_responses = st_responses_ack s + st_responses_err s;
          inv = (if 0 < elapsed_s then 1 / elapsed_s else 0);
          rate = (\<lambda>n :: 64 word. of_nat (unat n) * inv)
      in \<lparr>rp_elapsed = elapsed_s, rp_requests = st_requests_sent s, rp_ack = st_responses_ack s,
          rp_match = st_responses_match s, rp_err = st_responses_err s,
          rp_in_flight = - 1 * st_orders_in_flight s,
          rp_requests_rate = rate (st_requests_sent s), rp_ack_rate = rate (st_responses_ack s),
          rp_match_rate = rate (st_responses_match s), rp_err_rate = rate (st_responses_err s),
          rp_total_rate = rate total_responses\<rparr>)"

text \<open>How the process ends: the usage message, or a run with so many clients and this seed of the factory.\<close>

datatype exit = Usage | Finished int "64 word" Report

definition exit_code :: "exit \<Rightarrow> int" where
  "exit_code e = (case e of Usage \<Rightarrow> 1 | Finished _ _ _ \<Rightarrow> 0)"

text \<open>\<open>argv\<close> has the program's name first.\<close>

definition client_args :: "string list \<Rightarrow> 64 word \<Rightarrow> (int \<times> 64 word) option res" where
  "client_args argv device =
     rbind (if 2 \<le> length argv then atoi (argv ! 1) else ok 10) (\<lambda>num_clients.
       if 2 \<le> length argv \<and> num_clients \<le> 0 then ok None
       else ok (Some (num_clients, if 3 \<le> length argv then strtoull (argv ! 2) else device)))"

text \<open>The environment: two draws of the random device, the kernel's answers, the clock before and after.\<close>

record client_env =
  en_device :: "64 word"
  en_device2 :: "64 word"
  en_epoll :: "int option"
  en_sock :: "nat \<Rightarrow> nat option"
  en_started :: "nat \<Rightarrow> bool"
  en_rounds :: "client_round list"
  en_t0 :: "64 word"
  en_t1 :: "64 word"

text \<open>Without an epoll instance \<^verbatim>\<open>run\<close> returns at once.\<close>

definition generator_run :: "nat \<Rightarrow> client_env \<Rightarrow> int \<Rightarrow> ClientState list res" where
  "generator_run throughput e num_clients =
     (let clients = LoadGenerator_clients (nat num_clients)
      in case client_setupEpoll (en_epoll e) Kernel_new of
           (False, ep, k) \<Rightarrow> ok clients
         | (True, ep, k) \<Rightarrow>
             rbind (LoadGenerator_run (inter_arrival_ns throughput num_clients) (en_sock e) (en_started e) (en_rounds e) OrderFactory_new clients)
               (\<lambda>(wire, fac, css). ok css))"

definition client_main :: "nat \<Rightarrow> client_env \<Rightarrow> string list \<Rightarrow> exit res" where
  "client_main throughput e argv =
     rbind (client_args argv (en_device e)) (\<lambda>args.
       case args of
         None \<Rightarrow> ok Usage
       | Some (num_clients, rng_seed) \<Rightarrow>
           rbind (generator_run throughput e num_clients) (\<lambda>css.
             ok (Finished num_clients (factory_seed (en_device2 e) rng_seed) (report (en_t0 e) (en_t1 e) (stats css)))))"

section \<open>Facts\<close>

lemma client_args_positive: "client_args argv device = ok (Some (n, seed)) \<Longrightarrow> 0 < n"
  by (auto simp: client_args_def rbind_ok_iff split: if_splits)

lemma stats_sums:
  "st_requests_sent (stats css) = sum_list (map requests_sent css)"
  "st_responses_ack (stats css) = sum_list (map responses_ack css)"
  "st_responses_match (stats css) = sum_list (map responses_match css)"
  "st_responses_err (stats css) = sum_list (map responses_err css)"
proof -
  define f :: "ClientState \<Rightarrow> Stats \<Rightarrow> Stats" where "f = (\<lambda>cs s. s\<lparr>st_requests_sent := st_requests_sent s + requests_sent cs,
      st_responses_ack := st_responses_ack s + responses_ack cs, st_responses_match := st_responses_match s + responses_match cs,
      st_responses_err := st_responses_err s + responses_err cs, st_orders_in_flight := st_orders_in_flight s + orders_in_flight cs\<rparr>)"
  have "st_requests_sent (fold f css s) = st_requests_sent s + sum_list (map requests_sent css)
    \<and> st_responses_ack (fold f css s) = st_responses_ack s + sum_list (map responses_ack css)
    \<and> st_responses_match (fold f css s) = st_responses_match s + sum_list (map responses_match css)
    \<and> st_responses_err (fold f css s) = st_responses_err s + sum_list (map responses_err css)" for s :: Stats
    by (induction css arbitrary: s) (simp_all add: f_def)
  then show "st_requests_sent (stats css) = sum_list (map requests_sent css)"
    "st_responses_ack (stats css) = sum_list (map responses_ack css)"
    "st_responses_match (stats css) = sum_list (map responses_match css)"
    "st_responses_err (stats css) = sum_list (map responses_err css)"
    by (simp_all add: stats_def f_def [symmetric])
qed

text \<open>The clock in nanoseconds is exact until it wraps, after 584 years.\<close>

lemma now_ns_exact:
  assumes "unat tv_sec * 1000000000 + unat tv_nsec < 2 ^ 64"
  shows "unat (now_ns tv_sec tv_nsec) = unat tv_sec * 1000000000 + unat tv_nsec"
  using assms by (simp add: now_ns_def unat_word_ariths)

text \<open>The rounds the kernel may answer with, for the clients as the first connection attempts leave them.\<close>

definition env_ok :: "nat \<Rightarrow> client_env \<Rightarrow> int \<Rightarrow> bool" where
  "env_ok throughput e n \<longleftrightarrow> client_rounds_ok (inter_arrival_ns throughput n) (en_rounds e) OrderFactory_new
     (map (\<lambda>i. snd (connectClient (en_sock e i) (en_started e i) (LoadGenerator_clients (nat n) ! i))) [0..<nat n])"

lemma generator_run_returns:
  assumes "env_ok throughput e n"
  shows "\<exists>css. generator_run throughput e n = ok css \<and> length css = nat n \<and> list_all client_inv css"
proof -
  let ?cs = "LoadGenerator_clients (nat n)"
  have c: "length ?cs = nat n" "list_all client_inv ?cs" "\<forall>cs \<in> set ?cs. cs_fd cs = - 1"
    by (auto simp: LoadGenerator_clients_def list_all_length client_inv_new) (simp add: ClientState_new_def)
  show ?thesis
  proof (cases "en_epoll e")
    case None
    then show ?thesis using c by (simp add: generator_run_def client_setupEpoll_def Let_def)
  next
    case (Some ep)
    have "returns (keeps_clients (nat n)) (LoadGenerator_run (inter_arrival_ns throughput n) (en_sock e) (en_started e) (en_rounds e) OrderFactory_new ?cs)"
      using run_returns [OF c(2,3), of "inter_arrival_ns throughput n" "en_rounds e" OrderFactory_new "en_sock e" "en_started e"] assms
      unfolding c(1) env_ok_def by blast
    then show ?thesis using Some by (auto simp: returns_def generator_run_def client_setupEpoll_def Let_def)
  qed
qed

text \<open>The destructor closes every connected socket and the epoll instance, each once.\<close>

interpretation clients: fd_owner cs_fd "destroy_client ep" for ep
  by unfold_locales (auto simp: destroy_client_def close_fd_def epoll_ctl_del_def)

lemma generator_closes_all:
  assumes "distinct (held_fds cs_fd css)" and "set (held_fds cs_fd css) \<subseteq> k_open k" and "ep \<in> k_open k" and "ep \<noteq> - 1"
    and "ep \<notin> set (held_fds cs_fd css)"
  shows "k_open (LoadGenerator_destroy ep css k) = k_open k - set (held_fds cs_fd css) - {ep}"
    and "k_ebadf (LoadGenerator_destroy ep css k) = k_ebadf k"
  using clients.destroy_all [OF assms(1,2), of ep] assms(3-5) by (simp_all add: LoadGenerator_destroy_def Let_def close_fd_def)

lemma div_le_self_int: "0 \<le> a \<Longrightarrow> 0 < b \<Longrightarrow> a div b \<le> a" for a b :: int
  using zdiv_mono2 [of a 1 b] by simp

text \<open>The inter-arrival time is the configured one, without overflow for any number of clients.\<close>

lemma inter_arrival_exact:
  assumes "0 < throughput" and "0 < n" and "n < 2 ^ 31"
  shows "uint (inter_arrival_ns throughput n) = (n * 1000000000) div int throughput"
proof -
  have "\<lfloor>of_int n * 1000000000 / of_nat throughput :: rat\<rfloor> = \<lfloor>of_int (n * 1000000000) / of_int (int throughput) :: rat\<rfloor>" by simp
  also have "\<dots> = (n * 1000000000) div int throughput" by (rule floor_divide_of_int_eq)
  finally have f: "\<lfloor>of_int n * 1000000000 / of_nat throughput :: rat\<rfloor> = (n * 1000000000) div int throughput" .
  have "(n * 1000000000) div int throughput \<le> n * 1000000000" using assms by (intro div_le_self_int) auto
  moreover have "0 \<le> (n * 1000000000) div int throughput" using assms by (simp add: pos_imp_zdiv_nonneg_iff)
  ultimately have "0 \<le> (n * 1000000000) div int throughput" "(n * 1000000000) div int throughput < 2 ^ 64" using assms(3) by auto
  then show ?thesis using assms(1) unfolding inter_arrival_ns_def f by (simp add: uint_word_of_int)
qed

section \<open>Properties\<close>


definition one_client_env :: client_env where
  "one_client_env = \<lparr>en_device = 7, en_device2 = 8, en_epoll = Some 3, en_sock = (\<lambda>_. Some 4), en_started = (\<lambda>_. True),
     en_rounds = [first_round], en_t0 = 0, en_t1 = 1000000000\<rparr>"


end
