(* ===== verification/Client_Descriptors.thy ===== *)
theory Client_Descriptors
  imports Client_Loop
begin

text \<open>
  The sockets of the load generator. A client has at most one open socket at any time: every socket
  \<^verbatim>\<open>connectClient\<close> obtains is closed before the client gets the next one, by \<^verbatim>\<open>connectClient\<close> itself when
  \<^verbatim>\<open>connect\<close> fails at once, by \<^verbatim>\<open>reconnect\<close>, or by the destructor; and nothing else is closed.
\<close>

section \<open>Replaying the calls\<close>

text \<open>
  The descriptor a client holds after a sequence of calls, \<open>- 1\<close> for none. The replay stops with
  \<open>None\<close> at a socket opened over an open one, which leaks, and at a close of anything but the open
  socket.
\<close>

fun fd_replay :: "int \<Rightarrow> fd_call list \<Rightarrow> int option" where
  "fd_replay cur [] = Some cur"
| "fd_replay cur (Opened f # cs) = (if cur = - 1 \<and> f \<noteq> - 1 then fd_replay f cs else None)"
| "fd_replay cur (Closed f # cs) = (if cur = f \<and> f \<noteq> - 1 then fd_replay (- 1) cs else None)"

lemma fd_replay_append: "fd_replay cur (xs @ ys) = Option.bind (fd_replay cur xs) (\<lambda>c. fd_replay c ys)"
  by (induction cur xs rule: fd_replay.induct) simp_all

definition fd_inv :: "ClientState \<Rightarrow> bool" where
  "fd_inv cs \<longleftrightarrow> fd_replay (- 1) (cs_calls cs) = Some (cs_fd cs)"

text \<open>What the sockets opened and those closed are, in order, when the replay goes through.\<close>

definition fds_opened :: "fd_call list \<Rightarrow> int list" where
  "fds_opened cs = concat (map (\<lambda>c. case c of Opened f \<Rightarrow> [f] | Closed f \<Rightarrow> []) cs)"

definition fds_closed :: "fd_call list \<Rightarrow> int list" where
  "fds_closed cs = concat (map (\<lambda>c. case c of Opened f \<Rightarrow> [] | Closed f \<Rightarrow> [f]) cs)"

abbreviation holds :: "int \<Rightarrow> int list" where
  "holds f \<equiv> if f = - 1 then [] else [f]"

lemma fd_replay_matches:
  "fd_replay cur cs = Some c \<Longrightarrow> holds cur @ fds_opened cs = fds_closed cs @ holds c"
proof (induction cur cs rule: fd_replay.induct)
  case (2 cur f cs)
  then show ?case by (cases "cur = - 1 \<and> f \<noteq> - 1") (auto simp: fds_opened_def fds_closed_def)
next
  case (3 cur f cs)
  then show ?case by (cases "cur = f \<and> f \<noteq> - 1") (auto simp: fds_opened_def fds_closed_def)
qed (simp add: fds_opened_def fds_closed_def)

section \<open>Every operation keeps one socket per client\<close>

lemma fd_inv_new: "fd_inv (ClientState_new cid)"
  by (simp add: fd_inv_def ClientState_new_def)

lemma fd_inv_same: "fd_inv cs \<Longrightarrow> cs_fd cs' = cs_fd cs \<Longrightarrow> cs_calls cs' = cs_calls cs \<Longrightarrow> fd_inv cs'"
  by (simp add: fd_inv_def)

lemma fd_inv_reconnect: "fd_inv cs \<Longrightarrow> fd_inv (reconnect now cs)"
  by (auto simp: fd_inv_def reconnect_def Let_def fd_replay_append)

lemma fd_inv_connect: "fd_inv cs \<Longrightarrow> cs_fd cs = - 1 \<Longrightarrow> fd_inv (snd (connectClient sock started cs))"
  by (auto simp: fd_inv_def connectClient_def Let_def fd_replay_append split: option.splits)

lemma fd_inv_flushWrite:
  assumes "fd_inv cs"
  shows "fd_inv (snd (flushWrite now rs cs))"
proof -
  have "fd_inv (cs\<lparr>cs_write_buf := b\<rparr>)" for b by (rule fd_inv_same [OF assms]) simp_all
  then show ?thesis using fd_inv_reconnect
    by (auto simp: flushWrite_def fd_inv_def split: prod.splits send_status.splits)
qed

lemma enqueue_request_fd [simp]:
  "cs_fd (enqueue_request frame msg cs) = cs_fd cs" "cs_calls (enqueue_request frame msg cs) = cs_calls cs"
  by (simp_all add: enqueue_request_def)

lemma build_loop_fd:
  "build_loop slots ds fac cs = ok (fac', cs') \<Longrightarrow> cs_fd cs' = cs_fd cs \<and> cs_calls cs' = cs_calls cs"
proof (induction slots ds fac cs rule: build_loop.induct)
  case (1 slots ds fac cs)
  show ?case
  proof (cases "acks_pending cs < slots")
    case True
    then obtain r where r: "build_frame (ds 0) (cs_client_id cs) (active_oid cs) fac = ok r"
      "build_loop slots (\<lambda>i. ds (Suc i)) (snd (snd (snd r))) (enqueue_request (fst (snd r)) (fst (snd (snd r))) cs) = ok (fac', cs')"
      using 1(2) by (auto simp: build_loop.simps [of slots ds fac cs] rbind_ok_iff)
    from 1(1) [OF True r] show ?thesis by simp
  next
    case False
    then show ?thesis using 1(2) by (simp add: build_loop.simps [of slots ds fac cs])
  qed
qed

lemma fd_inv_buildBatch:
  assumes "fd_inv cs" and "buildBatch ia k fac cs = ok (sent, fac', cs')"
  shows "fd_inv cs'"
proof (cases "0 < buf_length (cs_write_buf cs) \<or> saturated ia (cc_now1 k) cs")
  case False
  let ?cs = "cs\<lparr>cs_write_buf := buf_clear (cs_write_buf cs)\<rparr>"
  from assms(2) False obtain r where b': "build_loop (if 0 < ia then 1 else CLIENT_PIPELINE_DEPTH) (cc_draws k) fac ?cs = ok r"
    and f': "(case flushWrite (cc_now3 k) (cc_sends k) (if 0 < ia then (snd r)\<lparr>next_send_ns := cc_now2 k + ia\<rparr> else snd r) of
        (s3, cs3) \<Rightarrow> ok (s3, fst r, cs3)) = ok (sent, fac', cs')"
    unfolding buildBatch_def Let_def by (auto simp: rbind_ok_iff simp del: split_paired_Ex)
  obtain fac1 cs1 where b: "build_loop (if 0 < ia then 1 else CLIENT_PIPELINE_DEPTH) (cc_draws k) fac ?cs = ok (fac1, cs1)"
    and f: "cs' = snd (flushWrite (cc_now3 k) (cc_sends k) (if 0 < ia then cs1\<lparr>next_send_ns := cc_now2 k + ia\<rparr> else cs1))"
    using b' f' by (cases r) (auto split: prod.splits cong: if_cong)
  have "fd_inv (if 0 < ia then cs1\<lparr>next_send_ns := cc_now2 k + ia\<rparr> else cs1)"
    using build_loop_fd [OF b] by (intro fd_inv_same [OF assms(1)]) simp_all
  then show ?thesis unfolding f by (rule fd_inv_flushWrite)
qed (use assms in \<open>auto simp: buildBatch_def split: if_splits\<close>)

lemma handle_response_fd: "handle_response frame cs = Some cs' \<Longrightarrow> cs_fd cs' = cs_fd cs \<and> cs_calls cs' = cs_calls cs"
  by (auto simp: handle_response_def Let_def split: response.splits if_splits)

lemma fd_inv_drain_responses: "fd_inv cs \<Longrightarrow> fd_inv (snd (drain_responses now cs))"
proof (induction now cs rule: drain_responses.induct)
  case (1 now cs)
  show ?case
  proof (cases "OUTBOUND_BSIZE \<le> buf_length (cs_read_buf cs)")
    case True
    show ?thesis
    proof (cases "handle_response (take OUTBOUND_BSIZE (buf_view (cs_read_buf cs))) cs")
      case None
      then show ?thesis using True fd_inv_reconnect [OF 1(2)] by (simp add: drain_responses.simps [of now cs])
    next
      case (Some cs')
      have "fd_inv (cs'\<lparr>cs_read_buf := advance OUTBOUND_BSIZE (cs_read_buf cs')\<rparr>)"
        using handle_response_fd [OF Some] by (intro fd_inv_same [OF 1(2)]) simp_all
      from 1(1) [OF True Some this] show ?thesis using True Some by (simp add: drain_responses.simps [of now cs])
    qed
  next
    case False
    then show ?thesis using 1(2) by (simp add: drain_responses.simps [of now cs])
  qed
qed

lemma fd_inv_handleReadable:
  assumes "fd_inv cs" and "handleReadable ia k r now fac cs = ok (sent, fac', cs')"
  shows "fd_inv cs'"
proof -
  obtain n b where rf: "read_from r (cs_read_buf cs) = (n, b)" by fastforce
  let ?cs = "cs\<lparr>cs_read_buf := b\<rparr>"
  have I: "fd_inv ?cs" by (rule fd_inv_same [OF assms(1)]) simp_all
  obtain good cs2 where d: "drain_responses now ?cs = (good, cs2)" by fastforce
  have "fd_inv cs2" using fd_inv_drain_responses [OF I, of now] d by simp
  then show ?thesis using assms(2) rf d I fd_inv_reconnect [OF I, of now] fd_inv_buildBatch [of cs2 ia k fac sent fac' cs']
    by (auto simp: handleReadable_def Let_def split: if_splits)
qed

lemma fd_inv_writable:
  assumes "fd_inv cs" and "handle_writable ia ev fac cs = ok (sent, fac', cs')"
  shows "fd_inv cs'"
proof (cases "connecting cs")
  case True
  let ?cs = "cs\<lparr>connecting := False, reconnect_backoff_ms := 0, cs_interest := Some (True, False)\<rparr>"
  have "fd_inv ?cs" by (rule fd_inv_same [OF assms(1)]) simp_all
  then show ?thesis using assms True fd_inv_reconnect [OF assms(1), of "ce_now ev"] fd_inv_buildBatch [of ?cs]
    by (auto simp: handle_writable_def handleConnect_def split: if_splits)
next
  case False
  then show ?thesis using assms fd_inv_flushWrite [OF assms(1), of "ce_now ev" "cc_sends (ce_calls_out ev)"]
    by (auto simp: handle_writable_def split: prod.splits)
qed

lemma fd_inv_event:
  assumes "fd_inv cs" and "handle_client_event ia ev fac cs = ok (sent, fac', cs')"
  shows "fd_inv cs'"
proof (cases "ce_error ev")
  case True
  then show ?thesis using assms fd_inv_reconnect [OF assms(1), of "ce_now ev"] by (auto simp: handle_client_event_def)
next
  case False
  then obtain s1 fac1 cs1 where m: "(if ce_out ev then handle_writable ia ev fac cs else ok ([], fac, cs)) = ok (s1, fac1, cs1)"
    and r: "(if ce_out ev \<and> cs_fd cs1 = - 1 then ok (s1, fac1, cs1)
           else if ce_in ev then rbind (handleReadable ia (ce_calls_in ev) (ce_recv ev) (ce_now ev) fac1 cs1)
                  (\<lambda>(sent2, fac2, cs2). ok (s1 @ sent2, fac2, cs2))
           else ok (s1, fac1, cs1)) = ok (sent, fac', cs')"
    using assms(2) by (auto simp: handle_client_event_def rbind_ok_iff)
  have I: "fd_inv cs1" using m assms(1) fd_inv_writable [OF assms(1), of ia ev fac s1 fac1 cs1] by (auto split: if_splits)
  then show ?thesis using r fd_inv_handleReadable [OF I, of ia "ce_calls_in ev" "ce_recv ev" "ce_now ev" fac1]
    by (auto simp: rbind_ok_iff split: if_splits)
qed

section \<open>The event loop\<close>

lemma fd_inv_events:
  "list_all fd_inv css \<Longrightarrow> handle_client_events ia evs fac css = ok (w, fac', css') \<Longrightarrow> list_all fd_inv css'"
proof (induction ia evs fac css arbitrary: w fac' css' rule: handle_client_events.induct)
  case (2 ia i ev evs fac css)
  from 2(3) obtain sent fac1 cs1 w1 where e: "handle_client_event ia ev fac (css ! i) = ok (sent, fac1, cs1)"
    "handle_client_events ia evs fac1 (css[i := cs1]) = ok (w1, fac', css')"
    by (auto simp: rbind_ok_iff)
  have "list_all fd_inv (css[i := cs1])"
  proof (cases "i < length css")
    case True
    then have "fd_inv cs1" using fd_inv_event [OF _ e(1)] 2(2) by (simp add: list_all_length)
    then show ?thesis using 2(2) by (auto simp: list_all_iff dest: set_update_subset_insert [THEN subsetD])
  qed (use 2(2) in \<open>simp add: list_update_beyond\<close>)
  from 2(1) [OF _ _ _ this] e show ?case by metis
qed simp

lemma fd_inv_sweep:
  "list_all fd_inv css \<Longrightarrow> send_sweep ia k i fac css = ok (w, fac', css') \<Longrightarrow> list_all fd_inv css'"
proof (induction ia k i fac css arbitrary: w fac' css' rule: send_sweep.induct)
  case (2 ia k i fac cs css)
  from 2(3) obtain sent fac1 cs1 w1 css1 where e: "send_due ia (k i) fac cs = ok (sent, fac1, cs1)"
    "send_sweep ia k (Suc i) fac1 css = ok (w1, fac', css1)" "css' = cs1 # css1"
    by (auto simp: rbind_ok_iff)
  have "fd_inv cs1" using 2(2) e(1) fd_inv_buildBatch [of cs ia "k i" fac sent fac1 cs1] by (auto simp: send_due_def split: if_splits)
  moreover have "list_all fd_inv css1" using 2(1) [OF _ _ _ _ e(2)] 2(2) e(1) by auto
  ultimately show ?case by (simp add: e(3))
qed simp

lemma fd_inv_sweeps:
  assumes "list_all fd_inv css" and "client_sweeps ia r fac css = ok (w, fac', css')"
  shows "list_all fd_inv css'"
proof -
  let ?css = "map (\<lambda>i. reconnect_due (rn_after r) (rn_sock r i) (rn_started r i) (css ! i)) [0..<length css]"
  have "list_all fd_inv ?css" using assms(1) by (auto simp: list_all_length reconnect_due_def fd_inv_connect)
  then show ?thesis using assms(2) fd_inv_sweep [of ?css ia "rn_calls r" 0 fac w fac' css']
    by (auto simp: client_sweeps_def Let_def split: if_splits)
qed

lemma fd_inv_rounds:
  "list_all fd_inv css \<Longrightarrow> client_rounds ia rs fac css = ok (w, fac', css') \<Longrightarrow> list_all fd_inv css'"
proof (induction rs arbitrary: fac css w)
  case (Cons r rs)
  show ?case
  proof (cases "rn_wait r")
    case (Events evs)
    with Cons(3) obtain w1 fac1 css1 w2 fac2 css2 w3 where
      "handle_client_events ia evs fac css = ok (w1, fac1, css1)" "client_sweeps ia r fac1 css1 = ok (w2, fac2, css2)"
      "client_rounds ia rs fac2 css2 = ok (w3, fac', css')"
      by (auto simp: rbind_ok_iff)
    then show ?thesis using Cons(1,2) fd_inv_events fd_inv_sweeps by metis
  qed (use Cons in auto)
qed simp

lemma fd_inv_run:
  assumes "\<forall>cs \<in> set css. cs_fd cs = - 1 \<and> fd_inv cs" and "LoadGenerator_run ia sock started rs fac css = ok (w, fac', css')"
  shows "list_all fd_inv css'"
proof -
  have "list_all fd_inv (map (\<lambda>i. snd (connectClient (sock i) (started i) (css ! i))) [0..<length css])"
    using assms(1) by (auto simp: list_all_iff intro!: fd_inv_connect)
  then show ?thesis using assms(2) fd_inv_rounds unfolding LoadGenerator_run_def by blast
qed

section \<open>Properties\<close>

text \<open>
  C37: however connections are refused, reset, closed by the server or fail in the middle of a batch,
  \<^verbatim>\<open>LoadGenerator::run\<close> leaks no socket and closes none twice. For every client the sockets opened are, in
  order, the sockets closed followed by the one it still holds, if any, which is the one the destructor
  closes.
\<close>

theorem client_sockets_balanced:
  assumes "client_rounds_ok ia rs fac (map (\<lambda>i. snd (connectClient (sock i) (started i) (LoadGenerator_clients n ! i))) [0..<n])"
  shows "\<exists>wire fac' css. LoadGenerator_run ia sock started rs fac (LoadGenerator_clients n) = ok (wire, fac', css)
     \<and> (\<forall>cs \<in> set css. fd_replay (- 1) (cs_calls cs) = Some (cs_fd cs)
          \<and> fds_opened (cs_calls cs) = fds_closed (cs_calls cs) @ holds (cs_fd cs))"
proof -
  have c: "length (LoadGenerator_clients n) = n" "list_all client_inv (LoadGenerator_clients n)"
    "\<forall>cs \<in> set (LoadGenerator_clients n). cs_fd cs = - 1 \<and> fd_inv cs"
    by (auto simp: LoadGenerator_clients_def list_all_length client_inv_new fd_inv_new) (simp add: ClientState_new_def)
  obtain wire fac' css where r: "LoadGenerator_run ia sock started rs fac (LoadGenerator_clients n) = ok (wire, fac', css)"
    using run_returns [OF c(2), of ia rs fac sock started] c(3) assms unfolding c(1) by (auto simp: returns_def)
  have "list_all fd_inv css" by (rule fd_inv_run [OF c(3) r])
  then show ?thesis using r fd_replay_matches [of "- 1"] by (auto simp: list_all_iff fd_inv_def)
qed

theorem client_sockets_balanced_witness:
  "\<exists>wire fac' css. LoadGenerator_run 0 (\<lambda>_. Some 4) (\<lambda>_. True) [first_round] OrderFactory_new (LoadGenerator_clients 1) = ok (wire, fac', css)
     \<and> (\<forall>cs \<in> set css. fds_opened (cs_calls cs) = fds_closed (cs_calls cs) @ holds (cs_fd cs))"
proof -
  have c: "map (\<lambda>i. snd (connectClient (Some 4) True (LoadGenerator_clients 1 ! i))) [0..<1] = [client1]"
    by (simp add: LoadGenerator_clients_def client1_def)
  show ?thesis
    using client_sockets_balanced [of 0 "[first_round]" OrderFactory_new "\<lambda>_. Some 4" "\<lambda>_. True" 1] first_round_ok unfolding c by blast
qed

end
