(* ===== verification/Ring_Concurrent.thy ===== *)
theory Ring_Concurrent
  imports Ring_Buffer
begin

text \<open>
  \<^verbatim>\<open>exchange/include/ring_buffer.hpp\<close> under concurrency: one producer thread inside \<^verbatim>\<open>push\<close> and one
  consumer thread inside \<^verbatim>\<open>pop\<close>, interleaved at every access to shared memory, with the memory orders
  of the code.

  The two indices are C++ atomics. \<open>mo_write\<close> and \<open>mo_read\<close> are their modification orders: all values
  stored so far, the initial one first. A relaxed load of the thread's own index returns the latest
  value. An acquire load of the other thread's index may return an old value, but never one older than
  the thread has already seen (\<open>seen_read\<close>, \<open>seen_write\<close>: positions in the modification orders). The cells
  are plain memory: \<open>hist\<close> are the items written so far, the \<open>q\<close>th one to cell \<open>q mod N\<close>. A read of a cell may
  return any write to it that is not older than the latest one the reader knows of, and acquiring the
  \<open>n\<close>th release store of \<^verbatim>\<open>write_idx_\<close> makes the first \<open>n\<close> writes known. That every read has exactly one
  candidate, and that no cell is written while it is read, is shown and not assumed.
\<close>

section \<open>The threads\<close>

datatype 'a prod_pc =
    P_Idle
  | P_Loaded 'a size_t            \<comment> \<open>\<open>item\<close>, \<open>write_idx\<close>\<close>
  | P_Checked 'a size_t size_t    \<comment> \<open>\<open>item\<close>, \<open>write_idx\<close>, \<open>next_write\<close>\<close>
  | P_Written 'a size_t           \<comment> \<open>\<open>item\<close>, \<open>next_write\<close>\<close>

datatype 'a cons_pc =
    C_Idle
  | C_Loaded size_t               \<comment> \<open>\<open>read_idx\<close>\<close>
  | C_Checked size_t              \<comment> \<open>\<open>read_idx\<close>\<close>
  | C_Read 'a size_t              \<comment> \<open>\<open>item\<close>, \<open>read_idx\<close>\<close>

record 'a spsc =
  sp_ring :: "'a RingBuffer"
  mo_write :: "size_t list"
  mo_read :: "size_t list"
  seen_read :: nat
  seen_write :: nat
  hist :: "'a list"
  producer :: "'a prod_pc"
  consumer :: "'a cons_pc"
  popped :: "'a list"

definition spsc_new :: "'a RingBuffer \<Rightarrow> 'a spsc" where
  "spsc_new r = \<lparr>sp_ring = r, mo_write = [write_idx r], mo_read = [read_idx r], seen_read = 0, seen_write = 0,
     hist = [], producer = P_Idle, consumer = C_Idle, popped = []\<rparr>"

section \<open>The accesses of push\<close>

definition push_load :: "'a \<Rightarrow> 'a spsc \<Rightarrow> 'a spsc" where
  "push_load x s = s\<lparr>producer := P_Loaded x (write_idx (sp_ring s))\<rparr>"

text \<open>\<open>m\<close> is the store of \<^verbatim>\<open>read_idx_\<close> the acquire load reads from.\<close>

definition push_check :: "nat \<Rightarrow> 'a spsc \<Rightarrow> 'a spsc" where
  "push_check m s =
     (case producer s of
        P_Loaded x w \<Rightarrow>
          let next_write = next_idx (sp_ring s) w
          in if next_write = mo_read s ! m then s\<lparr>seen_read := m, producer := P_Idle\<rparr>
             else s\<lparr>seen_read := m, producer := P_Checked x w next_write\<rparr>
      | _ \<Rightarrow> s)"

definition push_write :: "'a spsc \<Rightarrow> 'a spsc" where
  "push_write s =
     (case producer s of
        P_Checked x w next_write \<Rightarrow>
          s\<lparr>sp_ring := (sp_ring s)\<lparr>buffer := (buffer (sp_ring s))[unat w := x]\<rparr>, hist := hist s @ [x],
            producer := P_Written x next_write\<rparr>
      | _ \<Rightarrow> s)"

definition push_publish :: "'a spsc \<Rightarrow> 'a spsc" where
  "push_publish s =
     (case producer s of
        P_Written x next_write \<Rightarrow>
          s\<lparr>sp_ring := (sp_ring s)\<lparr>write_idx := next_write\<rparr>, mo_write := mo_write s @ [next_write], producer := P_Idle\<rparr>
      | _ \<Rightarrow> s)"

section \<open>The accesses of pop\<close>

definition pop_load :: "'a spsc \<Rightarrow> 'a spsc" where
  "pop_load s = s\<lparr>consumer := C_Loaded (read_idx (sp_ring s))\<rparr>"

definition pop_check :: "nat \<Rightarrow> 'a spsc \<Rightarrow> 'a spsc" where
  "pop_check n s =
     (case consumer s of
        C_Loaded i \<Rightarrow>
          if i = mo_write s ! n then s\<lparr>seen_write := n, consumer := C_Idle\<rparr>
          else s\<lparr>seen_write := n, consumer := C_Checked i\<rparr>
      | _ \<Rightarrow> s)"

text \<open>The writes to the cell at \<open>i\<close> that a read by the consumer may return.\<close>

definition candidate :: "'a spsc \<Rightarrow> size_t \<Rightarrow> nat \<Rightarrow> bool" where
  "candidate s i q \<longleftrightarrow> q < length (hist s) \<and> q mod length (buffer (sp_ring s)) = unat i
     \<and> (\<forall>q' < seen_write s. q' mod length (buffer (sp_ring s)) = unat i \<longrightarrow> q' \<le> q)"

definition pop_read :: "nat \<Rightarrow> 'a spsc \<Rightarrow> 'a spsc" where
  "pop_read q s =
     (case consumer s of C_Checked i \<Rightarrow> s\<lparr>consumer := C_Read (hist s ! q) i\<rparr> | _ \<Rightarrow> s)"

definition pop_publish :: "'a spsc \<Rightarrow> 'a spsc" where
  "pop_publish s =
     (case consumer s of
        C_Read x i \<Rightarrow>
          let next_read = next_idx (sp_ring s) i
          in s\<lparr>sp_ring := (sp_ring s)\<lparr>read_idx := next_read\<rparr>, mo_read := mo_read s @ [next_read],
               consumer := C_Idle, popped := popped s @ [x]\<rparr>
      | _ \<Rightarrow> s)"

section \<open>Interleavings\<close>

inductive spsc_step :: "'a spsc \<Rightarrow> 'a spsc \<Rightarrow> bool" where
  p_load: "producer s = P_Idle \<Longrightarrow> spsc_step s (push_load x s)"
| p_check: "producer s = P_Loaded x w \<Longrightarrow> seen_read s \<le> m \<Longrightarrow> m < length (mo_read s) \<Longrightarrow> spsc_step s (push_check m s)"
| p_write: "producer s = P_Checked x w nx \<Longrightarrow> spsc_step s (push_write s)"
| p_publish: "producer s = P_Written x nx \<Longrightarrow> spsc_step s (push_publish s)"
| c_load: "consumer s = C_Idle \<Longrightarrow> spsc_step s (pop_load s)"
| c_check: "consumer s = C_Loaded i \<Longrightarrow> seen_write s \<le> n \<Longrightarrow> n < length (mo_write s) \<Longrightarrow> spsc_step s (pop_check n s)"
| c_read: "consumer s = C_Checked i \<Longrightarrow> candidate s i q \<Longrightarrow> spsc_step s (pop_read q s)"
| c_publish: "consumer s = C_Read x i \<Longrightarrow> spsc_step s (pop_publish s)"

abbreviation spsc_run :: "'a spsc \<Rightarrow> 'a spsc \<Rightarrow> bool" where "spsc_run \<equiv> spsc_step\<^sup>*\<^sup>*"

lemmas spsc_run_start = run_start [where r = spsc_step]
lemmas spsc_run_step = run_step [where r = spsc_step]

text \<open>The numbers of pushes and pops that have returned true.\<close>

definition n_pushed :: "'a spsc \<Rightarrow> nat" where "n_pushed s = length (mo_write s) - 1"
definition n_popped :: "'a spsc \<Rightarrow> nat" where "n_popped s = length (mo_read s) - 1"

abbreviation n_cells :: "'a spsc \<Rightarrow> nat" where "n_cells s \<equiv> length (buffer (sp_ring s))"

text \<open>The items whose push has returned true.\<close>

definition accepted :: "'a spsc \<Rightarrow> 'a list" where "accepted s = take (n_pushed s) (hist s)"

section \<open>Invariant\<close>

text \<open>The indices count pushes and pops modulo the size; the counters bound each other.\<close>

definition index_inv :: "'a spsc \<Rightarrow> bool" where
  "index_inv s \<longleftrightarrow> ring_inv (sp_ring s) \<and> mo_write s \<noteq> [] \<and> mo_read s \<noteq> []
     \<and> write_idx (sp_ring s) = last (mo_write s) \<and> read_idx (sp_ring s) = last (mo_read s)
     \<and> (\<forall>n < length (mo_write s). unat (mo_write s ! n) = n mod n_cells s)
     \<and> (\<forall>m < length (mo_read s). unat (mo_read s ! m) = m mod n_cells s)
     \<and> seen_read s \<le> n_popped s \<and> n_popped s \<le> seen_write s \<and> seen_write s \<le> n_pushed s
     \<and> n_pushed s < seen_read s + n_cells s"

text \<open>Each cell holds the latest write to it; what was popped is what was written first.\<close>

definition data_inv :: "'a spsc \<Rightarrow> bool" where
  "data_inv s \<longleftrightarrow> length (hist s) = n_pushed s + (case producer s of P_Written _ _ \<Rightarrow> 1 | _ \<Rightarrow> 0)
     \<and> (\<forall>q < length (hist s). length (hist s) \<le> q + n_cells s \<longrightarrow> buffer (sp_ring s) ! (q mod n_cells s) = hist s ! q)
     \<and> popped s = take (n_popped s) (hist s)"

definition pc_inv :: "'a spsc \<Rightarrow> bool" where
  "pc_inv s \<longleftrightarrow>
     (case producer s of
        P_Idle \<Rightarrow> True
      | P_Loaded x w \<Rightarrow> w = write_idx (sp_ring s)
      | P_Checked x w nx \<Rightarrow> w = write_idx (sp_ring s) \<and> nx = next_idx (sp_ring s) w \<and> n_pushed s + 1 < seen_read s + n_cells s
      | P_Written x nx \<Rightarrow> nx = next_idx (sp_ring s) (write_idx (sp_ring s)) \<and> hist s ! n_pushed s = x
          \<and> n_pushed s + 1 < seen_read s + n_cells s)
   \<and> (case consumer s of
        C_Idle \<Rightarrow> True
      | C_Loaded i \<Rightarrow> i = read_idx (sp_ring s)
      | C_Checked i \<Rightarrow> i = read_idx (sp_ring s) \<and> n_popped s < seen_write s
      | C_Read x i \<Rightarrow> i = read_idx (sp_ring s) \<and> x = hist s ! n_popped s \<and> n_popped s < seen_write s)"

definition spsc_inv :: "'a spsc \<Rightarrow> bool" where
  "spsc_inv s \<longleftrightarrow> index_inv s \<and> data_inv s \<and> pc_inv s"

lemmas spsc_defs = spsc_inv_def index_inv_def data_inv_def pc_inv_def n_pushed_def n_popped_def

lemma mod_window: "a mod n = b mod n \<Longrightarrow> a \<le> b \<Longrightarrow> b < a + n \<Longrightarrow> a = b" for a b n :: nat
proof -
  assume "a mod n = b mod n" "a \<le> b" "b < a + n"
  then have "n dvd b - a" "b - a < n" using mod_eq_dvd_iff_nat [of a b n] by auto
  then have "b - a = 0" using dvd_imp_le by fastforce
  with \<open>a \<le> b\<close> show "a = b" by simp
qed

lemma mod_distance:
  fixes a b n :: nat
  assumes "a \<le> b" and "b < a + n"
  shows "(b mod n + n - a mod n) mod n = b - a"
proof -
  define r d where "r = a mod n" and "d = b - a"
  have d: "d < n" "r < n" "b mod n = (r + d) mod n"
    using assms mod_add_left_eq [of a n "b - a"] by (simp_all add: r_def d_def)
  have "((r + d) mod n + n - r) mod n = d"
  proof (cases "r + d < n")
    case True
    then have "(r + d) mod n + n - r = d + n" by simp
    then show ?thesis using d by (simp only: mod_add_self2 mod_less)
  next
    case False
    then have "(r + d) mod n = r + d - n" using d by (simp add: mod_if)
    then show ?thesis using d False by simp
  qed
  then show ?thesis by (simp add: d r_def [symmetric] d_def [symmetric])
qed

lemma spsc_inv_new:
  assumes "k < 32" and "RingBuffer_new z (2 ^ k) = Some r"
  shows "spsc_inv (spsc_new r)"
proof -
  have r: "r = \<lparr>write_idx = 0, read_idx = 0, buffer = replicate (2 ^ k) z, rb_mask = 2 ^ k - 1\<rparr>"
    using assms(2) unat_pow_32 [OF assms(1)] by (simp add: RingBuffer_new_def split: if_splits)
  have "ring_inv r" using ring_new_log [OF assms(1), of z] assms(2) by (auto simp: ring_inv_def)
  then show ?thesis by (simp add: spsc_defs spsc_new_def) (simp add: r)
qed

text \<open>The values the two indices have, as counters.\<close>

lemma index_values:
  assumes "index_inv s"
  shows "unat (write_idx (sp_ring s)) = n_pushed s mod n_cells s" "unat (read_idx (sp_ring s)) = n_popped s mod n_cells s"
    and "unat (next_idx (sp_ring s) i) = (unat i + 1) mod n_cells s"
proof -
  show "unat (write_idx (sp_ring s)) = n_pushed s mod n_cells s" "unat (read_idx (sp_ring s)) = n_popped s mod n_cells s"
    using assms by (auto simp: index_inv_def n_pushed_def n_popped_def last_conv_nth)
  obtain k where "ring_log (sp_ring s) k" using assms by (auto simp: index_inv_def ring_inv_def)
  then show "unat (next_idx (sp_ring s) i) = (unat i + 1) mod n_cells s"
    using unat_next_idx [of "sp_ring s" k i] by (simp add: ring_log_def)
qed

section \<open>Every access keeps the invariant\<close>

lemma push_check_inv:
  assumes I: "spsc_inv s" and p: "producer s = P_Loaded x w" and m: "seen_read s \<le> m" "m < length (mo_read s)"
  shows "spsc_inv (push_check m s)"
proof -
  have ix: "index_inv s" using I by (simp add: spsc_inv_def)
  have w: "unat (next_idx (sp_ring s) w) = (n_pushed s + 1) mod n_cells s"
    using I p index_values(1,3) [OF ix] by (simp add: spsc_inv_def pc_inv_def mod_Suc_eq)
  have mr: "unat (mo_read s ! m) = m mod n_cells s" using ix m(2) by (simp add: index_inv_def)
  have "n_pushed s + 1 < m + n_cells s" if "next_idx (sp_ring s) w \<noteq> mo_read s ! m"
  proof (rule ccontr)
    assume "\<not> n_pushed s + 1 < m + n_cells s"
    moreover have "n_pushed s < m + n_cells s" using ix m(1) by (auto simp: index_inv_def)
    ultimately have "n_pushed s + 1 = m + n_cells s" by simp
    then have "unat (next_idx (sp_ring s) w) = unat (mo_read s ! m)" by (simp only: w mr mod_add_self2)
    then show False using that by (simp add: word_unat_eq_iff)
  qed
  moreover have "m \<le> n_popped s" "n_pushed s < m + n_cells s" using m ix by (auto simp: index_inv_def n_popped_def)
  ultimately show ?thesis using I p
    by (auto simp: push_check_def spsc_inv_def index_inv_def data_inv_def pc_inv_def n_pushed_def n_popped_def Let_def
        split: cons_pc.splits)
qed

lemma push_write_inv:
  assumes I: "spsc_inv s" and p: "producer s = P_Checked x w nx"
  shows "spsc_inv (push_write s)" and "ring_contents (sp_ring (push_write s)) = ring_contents (sp_ring s)"
proof -
  let ?s = "push_write s" and ?W = "n_pushed s" and ?N = "n_cells s"
  have ix: "index_inv s" using I by (simp add: spsc_inv_def)
  have w: "unat w = ?W mod ?N" and room: "?W + 1 < seen_read s + ?N"
    using I p index_values(1) [OF ix] by (auto simp: spsc_inv_def pc_inv_def)
  have l: "length (hist s) = ?W" using I p by (simp add: spsc_inv_def data_inv_def)
  have s: "?s = s\<lparr>sp_ring := (sp_ring s)\<lparr>buffer := (buffer (sp_ring s))[unat w := x]\<rparr>, hist := hist s @ [x], producer := P_Written x nx\<rparr>"
    using p by (simp add: push_write_def)
  have lt: "seen_read s \<le> n_popped s" "n_popped s \<le> ?W" "?N > 0"
    using ix room by (auto simp: index_inv_def)
  have "index_inv ?s" using ix unfolding s
    by (auto simp: index_inv_def n_pushed_def n_popped_def ring_inv_def ring_log_def)
  moreover have "data_inv ?s"
  proof -
    have "(buffer (sp_ring s))[unat w := x] ! (q mod ?N) = (hist s @ [x]) ! q"
      if q: "q < ?W + 1" "?W + 1 \<le> q + ?N" for q
    proof (cases "q = ?W")
      case True
      then show ?thesis using w lt(3) l by (simp add: nth_append)
    next
      case False
      then have "q mod ?N \<noteq> ?W mod ?N" using mod_window [of q ?N ?W] q by auto
      moreover have "buffer (sp_ring s) ! (q mod ?N) = hist s ! q"
        using I q False l by (auto simp: spsc_inv_def data_inv_def)
      ultimately show ?thesis using w l q False by (simp add: nth_append)
    qed
    then show ?thesis using I l lt(2) unfolding s by (auto simp: spsc_inv_def data_inv_def n_pushed_def n_popped_def)
  qed
  moreover have "pc_inv ?s" using I p l lt unfolding s
    by (auto simp: spsc_inv_def pc_inv_def n_pushed_def n_popped_def next_idx_def nth_append index_inv_def split: cons_pc.splits)
  ultimately show "spsc_inv ?s" by (simp add: spsc_inv_def)
  have "ring_contents (sp_ring ?s) ! i = ring_contents (sp_ring s) ! i" if i: "i < ring_used (sp_ring s)" for i
  proof -
    obtain k where k: "ring_log (sp_ring s) k" using ix by (auto simp: index_inv_def ring_inv_def)
    have "(unat (read_idx (sp_ring s)) + i) mod ?N \<noteq> unat w"
      using ring_slot_eq_write [OF k, of i] i k I p by (auto simp: ring_log_def spsc_inv_def pc_inv_def)
    then show ?thesis using i unfolding s by (simp add: ring_contents_def ring_used_def)
  qed
  then show "ring_contents (sp_ring ?s) = ring_contents (sp_ring s)"
    unfolding s by (intro nth_equalityI) (simp_all add: ring_used_def)
qed

text \<open>The store that publishes a push is the atomic push, on the ring as it is at that moment.\<close>

lemma push_publish_inv:
  assumes I: "spsc_inv s" and p: "producer s = P_Written x nx"
  shows "spsc_inv (push_publish s)" and "ring_push (sp_ring s) x = (True, sp_ring (push_publish s))"
proof -
  let ?s = "push_publish s" and ?W = "n_pushed s" and ?N = "n_cells s"
  have ix: "index_inv s" using I by (simp add: spsc_inv_def)
  have nx: "nx = next_idx (sp_ring s) (write_idx (sp_ring s))" "unat nx = (?W + 1) mod ?N"
    using I p index_values(1,3) [OF ix] by (auto simp: spsc_inv_def pc_inv_def mod_Suc_eq)
  have f: "hist s ! ?W = x" "?W + 1 < seen_read s + ?N" "length (hist s) = ?W + 1" "seen_read s \<le> n_popped s" "n_popped s \<le> ?W"
    using I p by (auto simp: spsc_inv_def pc_inv_def data_inv_def index_inv_def)
  have s: "?s = s\<lparr>sp_ring := (sp_ring s)\<lparr>write_idx := nx\<rparr>, mo_write := mo_write s @ [nx], producer := P_Idle\<rparr>"
    using p by (simp add: push_publish_def)
  have W: "length (mo_write s) = ?W + 1" using ix by (cases "mo_write s") (auto simp: index_inv_def n_pushed_def)
  have ne: "nx \<noteq> read_idx (sp_ring s)"
  proof
    assume "nx = read_idx (sp_ring s)"
    then have "n_popped s mod ?N = (?W + 1) mod ?N" using nx(2) index_values(2) [OF ix] by simp
    then show False using mod_window [of "n_popped s" ?N "?W + 1"] f by simp
  qed
  have "index_inv ?s"
  proof -
    have "ring_inv (sp_ring ?s)"
      using ix nx(2) unfolding s by (auto simp: index_inv_def ring_inv_def ring_log_def)
    moreover have n: "n_pushed ?s = ?W + 1" "n_popped ?s = n_popped s" using W by (simp_all add: s n_pushed_def n_popped_def)
    moreover have "unat ((mo_write s @ [nx]) ! n) = n mod ?N" if "n < ?W + 2" for n
      using ix nx(2) W that by (cases "n = ?W + 1") (auto simp: index_inv_def nth_append)
    ultimately show ?thesis using ix f(2,4) W unfolding index_inv_def n by (simp add: s)
  qed
  moreover have "data_inv ?s"
  proof -
    have "n_pushed ?s = Suc ?W" "n_popped ?s = n_popped s" using W by (simp_all add: s n_pushed_def n_popped_def)
    then show ?thesis using I p f(3) unfolding spsc_inv_def data_inv_def by (simp add: s)
  qed
  moreover have "pc_inv ?s" using I p unfolding s
    by (auto simp: spsc_inv_def pc_inv_def n_pushed_def n_popped_def next_idx_def split: cons_pc.splits)
  ultimately show "spsc_inv ?s" by (simp add: spsc_inv_def)
  have "buffer (sp_ring s) ! (?W mod ?N) = x" using I f by (auto simp: spsc_inv_def data_inv_def)
  then have "(buffer (sp_ring s))[unat (write_idx (sp_ring s)) := x] = buffer (sp_ring s)"
    using index_values(1) [OF ix] by (metis list_update_id)
  then show "ring_push (sp_ring s) x = (True, sp_ring ?s)"
    using ne nx(1) unfolding s by (simp add: ring_push_def Let_def)
qed

lemma pop_check_inv:
  assumes I: "spsc_inv s" and c: "consumer s = C_Loaded i" and n: "seen_write s \<le> n" "n < length (mo_write s)"
  shows "spsc_inv (pop_check n s)"
proof -
  have ix: "index_inv s" using I by (simp add: spsc_inv_def)
  have i: "unat i = n_popped s mod n_cells s" using I c index_values(2) [OF ix] by (simp add: spsc_inv_def pc_inv_def)
  have mw: "unat (mo_write s ! n) = n mod n_cells s" using ix n(2) by (simp add: index_inv_def)
  have "n_popped s < n" if "i \<noteq> mo_write s ! n"
  proof -
    have "n_popped s \<noteq> n" using that i mw by (auto simp: word_unat_eq_iff)
    then show ?thesis using ix n(1) by (auto simp: index_inv_def)
  qed
  moreover have "n_popped s \<le> n" "n \<le> n_pushed s" using n ix by (auto simp: index_inv_def n_pushed_def)
  ultimately show ?thesis using I c
    by (auto simp: pop_check_def spsc_inv_def index_inv_def data_inv_def pc_inv_def n_pushed_def n_popped_def
        split: prod_pc.splits)
qed

text \<open>The read of a cell has exactly one candidate: the write of the push whose turn it is.\<close>

lemma candidate_unique:
  assumes I: "spsc_inv s" and c: "consumer s = C_Checked i"
  shows "candidate s i q \<longleftrightarrow> q = n_popped s"
proof -
  let ?R = "n_popped s" and ?N = "n_cells s"
  have ix: "index_inv s" using I by (simp add: spsc_inv_def)
  have i: "unat i = ?R mod ?N" "?R < seen_write s"
    using I c index_values(2) [OF ix] by (auto simp: spsc_inv_def pc_inv_def)
  have l: "length (hist s) \<le> ?R + ?N" "seen_write s \<le> length (hist s)" "seen_write s \<le> ?R + ?N"
    using I by (auto simp: spsc_inv_def data_inv_def pc_inv_def index_inv_def split: prod_pc.splits)
  show ?thesis
  proof
    assume q: "candidate s i q"
    then have "?R \<le> q" "q < ?R + ?N" "?R mod ?N = q mod ?N" using i l by (auto simp: candidate_def)
    then show "q = ?R" using mod_window by metis
  next
    assume "q = ?R"
    moreover have "q' \<le> ?R" if "q' < seen_write s" "q' mod ?N = ?R mod ?N" for q'
      using mod_window [of ?R ?N q'] that l(3) by (cases "?R \<le> q'") auto
    ultimately show "candidate s i q" using i l by (auto simp: candidate_def)
  qed
qed

lemma pop_read_inv:
  assumes I: "spsc_inv s" and c: "consumer s = C_Checked i" and q: "candidate s i q"
  shows "spsc_inv (pop_read q s)"
  using I c candidate_unique [OF I c, of q] q
  by (auto simp: pop_read_def spsc_inv_def index_inv_def data_inv_def pc_inv_def n_pushed_def n_popped_def split: prod_pc.splits)

text \<open>The store that publishes a pop is the atomic pop.\<close>

lemma pop_publish_inv:
  assumes I: "spsc_inv s" and c: "consumer s = C_Read x i"
  shows "spsc_inv (pop_publish s)" and "ring_pop (sp_ring s) = (Some x, sp_ring (pop_publish s))"
    and "popped (pop_publish s) = popped s @ [x]"
proof -
  let ?s = "pop_publish s" and ?R = "n_popped s" and ?N = "n_cells s"
  let ?nx = "next_idx (sp_ring s) i"
  have ix: "index_inv s" using I by (simp add: spsc_inv_def)
  have f: "i = read_idx (sp_ring s)" "x = hist s ! ?R" "?R < seen_write s" "seen_write s \<le> n_pushed s" "n_pushed s \<le> length (hist s)"
    using I c by (auto simp: spsc_inv_def pc_inv_def index_inv_def data_inv_def)
  have nx: "unat ?nx = (?R + 1) mod ?N" using f(1) index_values(2,3) [OF ix] by (simp add: mod_Suc_eq)
  have s: "?s = s\<lparr>sp_ring := (sp_ring s)\<lparr>read_idx := ?nx\<rparr>, mo_read := mo_read s @ [?nx], consumer := C_Idle, popped := popped s @ [x]\<rparr>"
    using c by (simp add: pop_publish_def Let_def)
  have R: "length (mo_read s) = ?R + 1" using ix by (cases "mo_read s") (auto simp: index_inv_def n_popped_def)
  have "index_inv ?s"
  proof -
    have "ring_inv (sp_ring ?s)" using ix nx unfolding s by (auto simp: index_inv_def ring_inv_def ring_log_def)
    moreover have n: "n_pushed ?s = n_pushed s" "n_popped ?s = ?R + 1" using R by (simp_all add: s n_pushed_def n_popped_def)
    moreover have "unat ((mo_read s @ [?nx]) ! m) = m mod ?N" if "m < ?R + 2" for m
      using ix nx R that by (cases "m = ?R + 1") (auto simp: index_inv_def nth_append)
    ultimately show ?thesis using ix f(3,4) R unfolding index_inv_def n by (simp add: s)
  qed
  moreover have "data_inv ?s"
  proof -
    have "n_pushed ?s = n_pushed s" "n_popped ?s = Suc ?R" using R by (simp_all add: s n_pushed_def n_popped_def)
    then show ?thesis using I f unfolding spsc_inv_def data_inv_def by (simp add: s take_Suc_conv_app_nth)
  qed
  moreover have "pc_inv ?s" using I c unfolding s
    by (auto simp: spsc_inv_def pc_inv_def n_pushed_def n_popped_def next_idx_def split: prod_pc.splits)
  ultimately show "spsc_inv ?s" by (simp add: spsc_inv_def)
  have "length (hist s) \<le> ?R + ?N" "?R < length (hist s)"
    using I f by (auto simp: spsc_inv_def data_inv_def pc_inv_def index_inv_def split: prod_pc.splits)
  then have b: "buffer (sp_ring s) ! (?R mod ?N) = x" using I f(2) by (auto simp: spsc_inv_def data_inv_def)
  have "read_idx (sp_ring s) \<noteq> write_idx (sp_ring s)"
  proof
    assume "read_idx (sp_ring s) = write_idx (sp_ring s)"
    then have "?R mod ?N = n_pushed s mod ?N" using index_values [OF ix] by simp
    then show False using mod_window [of ?R ?N "n_pushed s"] f ix by (auto simp: index_inv_def)
  qed
  then show "ring_pop (sp_ring s) = (Some x, sp_ring ?s)"
    using b f(1) index_values(2) [OF ix] unfolding s by (simp add: ring_pop_def Let_def)
  show "popped ?s = popped s @ [x]" by (simp add: s)
qed

lemma loads_inv: "spsc_inv s \<Longrightarrow> spsc_inv (push_load x s)" if "producer s = P_Idle"
  using that by (auto simp: push_load_def spsc_defs split: cons_pc.splits)

lemma pop_load_inv: "spsc_inv s \<Longrightarrow> spsc_inv (pop_load s)" if "consumer s = C_Idle"
  using that by (auto simp: pop_load_def spsc_defs split: prod_pc.splits)

lemma spsc_step_inv: "spsc_step s s' \<Longrightarrow> spsc_inv s \<Longrightarrow> spsc_inv s'"
  by (induction rule: spsc_step.induct)
    (simp_all add: loads_inv push_check_inv push_write_inv push_publish_inv pop_load_inv pop_check_inv pop_read_inv pop_publish_inv)

interpretation spsc_steps: step_invariant spsc_step spsc_inv
  by unfold_locales (rule spsc_step_inv)

section \<open>Atomicity\<close>

text \<open>What is in the ring is what was accepted and not yet delivered.\<close>

lemma spsc_fifo:
  assumes I: "spsc_inv s"
  shows "popped s @ ring_contents (sp_ring s) = accepted s"
proof -
  let ?R = "n_popped s" and ?W = "n_pushed s" and ?N = "n_cells s"
  have ix: "index_inv s" using I by (simp add: spsc_inv_def)
  have b: "?R \<le> ?W" "?W < ?R + ?N" "?W \<le> length (hist s)" "popped s = take ?R (hist s)"
    using I by (auto simp: spsc_inv_def index_inv_def data_inv_def)
  have u: "ring_used (sp_ring s) = ?W - ?R" using mod_distance [OF b(1,2)] index_values(1,2) [OF ix] by (simp add: ring_used_def)
  have "ring_contents (sp_ring s) = drop ?R (take ?W (hist s))"
  proof (rule nth_equalityI)
    show "length (ring_contents (sp_ring s)) = length (drop ?R (take ?W (hist s)))" using b u by (simp add: ring_contents_def)
    fix i assume "i < length (ring_contents (sp_ring s))"
    then have i: "i < ?W - ?R" using u by (simp add: ring_contents_def)
    have "length (hist s) \<le> ?R + i + ?N" using I by (auto simp: spsc_inv_def data_inv_def pc_inv_def index_inv_def split: prod_pc.splits)
    then have "buffer (sp_ring s) ! ((?R + i) mod ?N) = hist s ! (?R + i)" using I i b(3) by (auto simp: spsc_inv_def data_inv_def)
    then show "ring_contents (sp_ring s) ! i = drop ?R (take ?W (hist s)) ! i"
      using i b u index_values(2) [OF ix] by (simp add: ring_contents_def mod_add_left_eq)
  qed
  then show ?thesis using b by (metis accepted_def append_take_drop_id min.absorb1 take_take)
qed

lemma push_publish_accepts:
  assumes "spsc_inv s" and "producer s = P_Written x nx"
  shows "accepted (push_publish s) = accepted s @ [x]" and "popped (push_publish s) = popped s"
proof -
  have "hist s ! n_pushed s = x" "length (hist s) = Suc (n_pushed s)" "mo_write s \<noteq> []"
    using assms by (auto simp: spsc_inv_def pc_inv_def data_inv_def index_inv_def)
  moreover have "n_pushed (push_publish s) = Suc (n_pushed s)" "hist (push_publish s) = hist s"
    using assms(2) \<open>mo_write s \<noteq> []\<close> by (cases "mo_write s"; simp add: push_publish_def n_pushed_def)+
  ultimately show "accepted (push_publish s) = accepted s @ [x]" 
    by (metis accepted_def lessI take_Suc_conv_app_nth)
  show "popped (push_publish s) = popped s" using assms(2) by (simp add: push_publish_def)
qed

text \<open>The accesses that touch neither the cells nor the indices.\<close>

lemma spsc_quiet:
  "sp_ring (push_load x s) = sp_ring s" "popped (push_load x s) = popped s" "accepted (push_load x s) = accepted s"
  "sp_ring (push_check m s) = sp_ring s" "popped (push_check m s) = popped s" "accepted (push_check m s) = accepted s"
  "sp_ring (pop_load s) = sp_ring s" "popped (pop_load s) = popped s" "accepted (pop_load s) = accepted s"
  "sp_ring (pop_check n s) = sp_ring s" "popped (pop_check n s) = popped s" "accepted (pop_check n s) = accepted s"
  "sp_ring (pop_read q s) = sp_ring s" "popped (pop_read q s) = popped s" "accepted (pop_read q s) = accepted s"
  by (simp_all add: push_load_def push_check_def pop_load_def pop_check_def pop_read_def accepted_def n_pushed_def Let_def
      split: prod_pc.splits cons_pc.splits)

section \<open>No data race\<close>

text \<open>
  The reads of cells that pops have made or are about to make, and the writes pushes have made or are
  about to make: the \<open>q\<close>th of either accesses cell \<open>q mod N\<close>.
\<close>

definition reads_begun :: "'a spsc \<Rightarrow> nat" where
  "reads_begun s = n_popped s + (case consumer s of C_Checked _ \<Rightarrow> 1 | C_Read _ _ \<Rightarrow> 1 | _ \<Rightarrow> 0)"

definition writes_begun :: "'a spsc \<Rightarrow> nat" where
  "writes_begun s = length (hist s) + (case producer s of P_Checked _ _ _ \<Rightarrow> 1 | _ \<Rightarrow> 0)"

lemma reads_known:
  assumes I: "spsc_inv s" and p: "producer s = P_Checked x w nx" and q: "q < reads_begun s" "q mod n_cells s = unat w"
  shows "q < seen_read s"
proof (rule ccontr)
  assume "\<not> q < seen_read s"
  have ix: "index_inv s" using I by (simp add: spsc_inv_def)
  have "q < n_pushed s" "n_pushed s + 1 < seen_read s + n_cells s"
    using I p q(1) by (auto simp: spsc_inv_def pc_inv_def index_inv_def reads_begun_def split: cons_pc.splits)
  moreover have "q mod n_cells s = n_pushed s mod n_cells s"
    using I p q(2) index_values(1) [OF ix] by (simp add: spsc_inv_def pc_inv_def)
  ultimately show False using \<open>\<not> q < seen_read s\<close> mod_window [of q "n_cells s" "n_pushed s"] by simp
qed

lemma writes_known:
  assumes I: "spsc_inv s" and c: "consumer s = C_Checked i" and q: "q < writes_begun s" "q mod n_cells s = unat i"
  shows "q < seen_write s"
proof (rule ccontr)
  assume "\<not> q < seen_write s"
  have ix: "index_inv s" using I by (simp add: spsc_inv_def)
  have "n_popped s < seen_write s" "q < n_popped s + n_cells s"
    using I c q(1) by (auto simp: spsc_inv_def pc_inv_def index_inv_def data_inv_def writes_begun_def split: prod_pc.splits)
  moreover have "n_popped s mod n_cells s = q mod n_cells s"
    using I c q(2) index_values(2) [OF ix] by (simp add: spsc_inv_def pc_inv_def)
  ultimately show False using \<open>\<not> q < seen_write s\<close> mod_window [of "n_popped s" "n_cells s" q] by simp
qed

section \<open>Properties\<close>

text \<open>
  C13: for any interleaving of a pushing and a popping thread, with stale index reads, each access either leaves
  the ring's contents and the delivered items as they are, or is one atomic push (\<^verbatim>\<open>ring_push\<close>, returning
  true) or one atomic pop (\<^verbatim>\<open>ring_pop\<close>, delivering its item); and what has been delivered followed by what is
  in the ring is what has been accepted, in that order.
\<close>

theorem spsc_steps_atomic:
  assumes "k < 32" and "RingBuffer_new z (2 ^ k) = Some r" and "spsc_run (spsc_new r) s" and "spsc_step s s'"
  shows "popped s' @ ring_contents (sp_ring s') = accepted s' \<and>
     ((ring_contents (sp_ring s') = ring_contents (sp_ring s) \<and> popped s' = popped s \<and> accepted s' = accepted s)
      \<or> (\<exists>x. ring_push (sp_ring s) x = (True, sp_ring s') \<and> accepted s' = accepted s @ [x] \<and> popped s' = popped s)
      \<or> (\<exists>x. ring_pop (sp_ring s) = (Some x, sp_ring s') \<and> popped s' = popped s @ [x] \<and> accepted s' = accepted s))"
proof -
  have I: "spsc_inv s" using spsc_steps.run_inv [OF assms(3) spsc_inv_new [OF assms(1,2)]] .
  have "(ring_contents (sp_ring s') = ring_contents (sp_ring s) \<and> popped s' = popped s \<and> accepted s' = accepted s)
     \<or> (\<exists>x. ring_push (sp_ring s) x = (True, sp_ring s') \<and> accepted s' = accepted s @ [x] \<and> popped s' = popped s)
     \<or> (\<exists>x. ring_pop (sp_ring s) = (Some x, sp_ring s') \<and> popped s' = popped s @ [x] \<and> accepted s' = accepted s)"
    using assms(4) I
  proof cases
    case (p_write x w nx)
    then have "accepted s' = accepted s" using I by (simp add: push_write_def accepted_def spsc_inv_def data_inv_def n_pushed_def)
    moreover have "popped s' = popped s" using p_write by (simp add: push_write_def)
    ultimately show ?thesis using push_write_inv(2) [OF I] p_write by blast
  next
    case (p_publish x nx)
    then have "accepted s' = accepted s @ [x]" "popped s' = popped s" using I push_publish_accepts by auto
    then show ?thesis using push_publish_inv(2) [OF I] p_publish by blast
  next
    case (c_publish x i)
    then have "accepted s' = accepted s" by (simp add: pop_publish_def accepted_def n_pushed_def Let_def)
    then show ?thesis using pop_publish_inv(2,3) [OF I] c_publish by blast
  qed (auto simp: spsc_quiet)
  then show ?thesis using spsc_fifo [OF spsc_step_inv [OF assms(4) I]] by blast
qed

text \<open>
  C15: pushing and popping threads do not race on a cell: when \<^verbatim>\<open>push\<close> is about to write a cell, it has acquired
  the store of every pop that read or is about to read it, and when \<^verbatim>\<open>pop\<close> is about to read a cell, it has
  acquired the store of every push that wrote or is about to write it, and has one value to read.
\<close>

theorem spsc_race_free:
  assumes "k < 32" and "RingBuffer_new z (2 ^ k) = Some r" and "spsc_run (spsc_new r) s"
  shows "(\<forall>x w nx q. producer s = P_Checked x w nx \<and> q < reads_begun s \<and> q mod n_cells s = unat w \<longrightarrow> q < seen_read s)
    \<and> (\<forall>i q. consumer s = C_Checked i \<and> q < writes_begun s \<and> q mod n_cells s = unat i \<longrightarrow> q < seen_write s)
    \<and> (\<forall>i. consumer s = C_Checked i \<longrightarrow> (\<exists>!q. candidate s i q))"
proof -
  have I: "spsc_inv s" using spsc_steps.run_inv [OF assms(3) spsc_inv_new [OF assms(1,2)]] .
  then show ?thesis using reads_known [OF I] writes_known [OF I] candidate_unique [OF I] by simp
qed

section \<open>Witnesses\<close>

text \<open>
  A ring of four cells: \<open>5\<close> is pushed, \<open>pop\<close> has seen it and is about to read it, and \<open>push 6\<close> is about to write
  the next cell.
\<close>

definition ring4 :: "nat RingBuffer" where
  "ring4 = \<lparr>write_idx = 0, read_idx = 0, buffer = [0, 0, 0, 0], rb_mask = 3\<rparr>"

definition mid_run :: "nat spsc" where
  "mid_run = push_check 0 (push_load 6 (pop_check 1 (pop_load (push_publish (push_write (push_check 0 (push_load 5
     (spsc_new ring4))))))))"

lemma ring4_new: "RingBuffer_new 0 (2 ^ 2) = Some ring4"
  by code_simp

lemma mid_run_value:
  "mid_run = \<lparr>sp_ring = \<lparr>write_idx = 1, read_idx = 0, buffer = [5, 0, 0, 0], rb_mask = 3\<rparr>, mo_write = [0, 1], mo_read = [0],
     seen_read = 0, seen_write = 1, hist = [5], producer = P_Checked 6 1 2, consumer = C_Checked 0, popped = []\<rparr>"
  by code_simp

lemma mid_run_reached: "spsc_run (spsc_new ring4) mid_run"
  unfolding mid_run_def
  by (rule spsc_run_step [OF spsc_run_step [OF spsc_run_step [OF spsc_run_step [OF spsc_run_step [OF spsc_run_step
        [OF spsc_run_step [OF spsc_run_step [OF spsc_run_start p_load] p_check [where x = 5 and w = 0]]
          p_write [where x = 5 and w = 0 and nx = 1]] p_publish [where x = 5 and nx = 1]] c_load] c_check [where i = 0]] p_load]
            p_check [where x = 6 and w = 1]])
    code_simp+

theorem spsc_steps_atomic_witness:
  "\<exists>s'. spsc_step mid_run s' \<and> popped s' @ ring_contents (sp_ring s') = accepted s'"
proof -
  have "spsc_step mid_run (push_write mid_run)" by (rule p_write [of _ 6 1 2]) (simp add: mid_run_value)
  then show ?thesis using spsc_steps_atomic [OF _ ring4_new mid_run_reached] by fastforce
qed

theorem spsc_race_free_witness:
  "producer mid_run = P_Checked 6 1 2 \<and> consumer mid_run = C_Checked 0 \<and> (\<exists>!q. candidate mid_run 0 q)"
  using spsc_race_free [OF _ ring4_new mid_run_reached] by (simp add: mid_run_value)

end
