(* ===== verification/Trade_Log.thy ===== *)
theory Trade_Log
  imports Orderbook_Rep
begin

text \<open>
  \<^verbatim>\<open>trade.hpp\<close> and what \<^verbatim>\<open>LOGGING\<close> adds to matching: every fill is also pushed, as a \<^verbatim>\<open>Trade\<close>, onto \<^verbatim>\<open>trades_ring_\<close>, which
  the expose thread of the engine drains to the console. The logging build of the matching functions is
  modelled beside the shipped one and shown to do the same to the book.
\<close>

section \<open>Trades\<close>

record TradeInfo =
  ti_client_id :: ClientId
  ti_order_id :: OrderId
  ti_price :: Price
  ti_quantity :: Quantity

record Trade =
  bid_info :: TradeInfo
  ask_info :: TradeInfo

definition order_info :: "Order \<Rightarrow> Quantity \<Rightarrow> TradeInfo" where
  "order_info o' q = \<lparr>ti_client_id = o_client_id o', ti_order_id = o_id o', ti_price = o_price o', ti_quantity = q\<rparr>"

definition limit_trade :: "Order \<Rightarrow> Order \<Rightarrow> Quantity \<Rightarrow> Trade" where
  "limit_trade bid ask q = \<lparr>bid_info = order_info bid q, ask_info = order_info ask q\<rparr>"

text \<open>A market order has no price of its own: the best price of the other side is recorded.\<close>

definition market_trade :: "book_side \<Rightarrow> OrderRequest \<Rightarrow> Price \<Rightarrow> Order \<Rightarrow> Quantity \<Rightarrow> Trade" where
  "market_trade s req p o' q =
     (let taker = \<lparr>ti_client_id = req_client_id req, ti_order_id = req_order_id req, ti_price = p, ti_quantity = q\<rparr>
      in case s of Asks \<Rightarrow> \<lparr>bid_info = taker, ask_info = order_info o' q\<rparr>
                 | Bids \<Rightarrow> \<lparr>bid_info = order_info o' q, ask_info = taker\<rparr>)"

definition log_trade :: "Trade \<Rightarrow> Trade RingBuffer \<Rightarrow> Trade RingBuffer" where
  "log_trade t tr = snd (ring_push tr t)"

section \<open>Matching with the log\<close>

partial_function (option) match_level_log ::
  "Orderbook \<Rightarrow> Trade RingBuffer \<Rightarrow> Price \<Rightarrow> Price \<Rightarrow> bool \<Rightarrow> bool \<Rightarrow> (Orderbook \<times> Trade RingBuffer \<times> bool \<times> bool) res" where
  [code]: "match_level_log b tr pb pa lm af =
     rbind (level_get (bids b) pb) (\<lambda>highest_bids.
     rbind (level_get (asks b) pa) (\<lambda>lowest_asks.
     if \<not> plq_empty highest_bids \<and> \<not> plq_empty lowest_asks
     then case plq_front highest_bids of None \<Rightarrow> fail Null_Pointer | Some bid \<Rightarrow>
          (case plq_front lowest_asks of None \<Rightarrow> fail Null_Pointer | Some ask \<Rightarrow>
           if best_bid_price b < best_ask_price b then ok (b, tr, lm, af)
           else let fill_quantity = min (o_remaining_quantity (deref b bid)) (o_remaining_quantity (deref b ask));
                    trade = limit_trade (deref b bid) (deref b ask) fill_quantity
                in rbind (match_fronts b pb pa bid ask) (\<lambda>r.
                   if snd r then ok (fst r, log_trade trade tr, True, True)
                   else match_level_log (fst r) (log_trade trade tr) pb pa True True))
     else ok (b, tr, lm, af)))"

partial_function (option) match_loop_log ::
  "Orderbook \<Rightarrow> Trade RingBuffer \<Rightarrow> bool \<Rightarrow> (Orderbook \<times> Trade RingBuffer \<times> bool) res" where
  [code]: "match_loop_log b tr any_filled =
     (if 0 < non_empty_bid_levels b \<and> 0 < non_empty_ask_levels b
      then rbind (match_level_log b tr (best_bid_price b) (best_ask_price b) False any_filled) (\<lambda>r.
           if fst (snd (snd r)) then match_loop_log (fst r) (fst (snd r)) (snd (snd (snd r)))
           else ok (fst r, fst (snd r), snd (snd (snd r))))
      else ok (b, tr, any_filled))"

definition matchOrders_log :: "Orderbook \<Rightarrow> Trade RingBuffer \<Rightarrow> (Orderbook \<times> Trade RingBuffer \<times> bool) res" where
  "matchOrders_log b tr = match_loop_log b tr False"

partial_function (option) market_loop_log ::
  "book_side \<Rightarrow> OrderRequest \<Rightarrow> Orderbook \<Rightarrow> Trade RingBuffer \<Rightarrow> Quantity \<Rightarrow> (Orderbook \<times> Trade RingBuffer \<times> bool) res" where
  [code]: "market_loop_log s req b tr remaining =
     (if 0 < non_empty b s \<and> 0 < remaining
      then rbind (level_get (levels b s) (best b s)) (\<lambda>level.
           if plq_empty level then ok (b, tr, False)
           else case plq_front level of None \<Rightarrow> fail Null_Pointer | Some x \<Rightarrow>
             (let p = best b s;
                  fill_quantity = min remaining (o_remaining_quantity (deref b x));
                  order_msg = match_msg (deref b x)
              in rbind (fill_order b x fill_quantity) (\<lambda>b1.
                 let match_trade = market_trade s req p (deref b1 x) fill_quantity
                 in rbind (retire_filled (push_out order_msg (push_out (market_msg req) b1)) s p x) (\<lambda>b2.
                    rbind (level_get (levels b2 s) p) (\<lambda>level'.
                    rbind (if plq_empty level' then level_done s b2 else ok b2) (\<lambda>b3.
                    market_loop_log s req b3 (log_trade match_trade tr) (remaining - fill_quantity)))))))
      else ok (b, tr, remaining = 0))"

definition matchMarket_log :: "Orderbook \<Rightarrow> Trade RingBuffer \<Rightarrow> OrderRequest \<Rightarrow> (Orderbook \<times> Trade RingBuffer \<times> bool) res" where
  "matchMarket_log b tr req =
     (if req_side req = BID then market_loop_log Asks req b tr (req_quantity req)
      else if req_side req = ASK then market_loop_log Bids req b tr (req_quantity req)
      else ok (b, tr, req_quantity req = 0))"

section \<open>Requests with the log\<close>

definition addOrder_log :: "Orderbook \<Rightarrow> Trade RingBuffer \<Rightarrow> OrderRequest \<Rightarrow> (Orderbook \<times> Trade RingBuffer \<times> bool) res" where
  "addOrder_log b tr req =
     (if req_type req = MARKET then matchMarket_log b tr req
      else if orders b (req_order_id req) \<noteq> None then ok (b, tr, False)
      else case allocate (pool b) (req_order_id req) req of
             (None, pool') \<Rightarrow> ok (b\<lparr>pool := pool'\<rparr>, tr, False)
           | (Some x, pool') \<Rightarrow>
              (let b1 = b\<lparr>pool := pool', orders := (orders b)(req_order_id req \<mapsto> x)\<rparr>;
                   s = side_of (o_side (deref b1 x));
                   p = o_price (deref b1 x)
               in rbind (level_get (levels b1 s) p) (\<lambda>level.
                  let b2 = (if plq_empty level then set_non_empty s (non_empty b1 s + 1) b1 else b1)
                  in rbind (level_push b2 s p x) (\<lambda>b3.
                     matchOrders_log (if better s p (best b3 s) then set_best s p b3 else b3) tr))))"

definition modifyOrder_log :: "Orderbook \<Rightarrow> Trade RingBuffer \<Rightarrow> OrderRequest \<Rightarrow> (Orderbook \<times> Trade RingBuffer \<times> bool) res" where
  "modifyOrder_log b tr req =
     (case orders b (req_order_id req) of None \<Rightarrow> fail Map_At_Missing
      | Some x \<Rightarrow>
         if req_price req \<noteq> o_price (deref b x) \<or> req_quantity req \<noteq> o_initial_quantity (deref b x)
         then rbind (cancelOrder b (req_order_id req)) (\<lambda>b1. addOrder_log b1 tr req)
         else (let b1 = set_arena ((arena (pool b))(x := (deref b x)\<lparr>o_recv_tsc := req_recv_tsc req\<rparr>)) b
               in if req_type req = MARKET then matchMarket_log b1 tr req else matchOrders_log b1 tr))"

definition process_log :: "Orderbook \<Rightarrow> Trade RingBuffer \<Rightarrow> OrderRequest \<Rightarrow> (Orderbook \<times> Trade RingBuffer \<times> ProcessResult) res" where
  "process_log b tr req =
     (if req_message_type req = NEW
      then rbind (addOrder_log b tr req) (\<lambda>(b', tr', filled). ok (b', tr', \<lparr>status = SUCCESS, suppress_ack = filled\<rparr>))
      else if req_message_type req = CANCEL
      then (case orders b (req_order_id req) of
              None \<Rightarrow> ok (b, tr, \<lparr>status = FAILURE, suppress_ack = False\<rparr>)
            | Some x \<Rightarrow>
               if o_client_id (deref b x) \<noteq> req_client_id req
               then ok (b, tr, \<lparr>status = FAILURE, suppress_ack = False\<rparr>)
               else rbind (cancelOrder b (req_order_id req)) (\<lambda>b1.
                      ok (b1, tr, \<lparr>status = SUCCESS, suppress_ack = False\<rparr>)))
      else if req_message_type req = MODIFY
      then (case orders b (req_order_id req) of
              None \<Rightarrow> ok (b, tr, \<lparr>status = FAILURE, suppress_ack = False\<rparr>)
            | Some x \<Rightarrow>
               if o_client_id (deref b x) \<noteq> req_client_id req \<or> o_side (deref b x) \<noteq> req_side req
               then ok (b, tr, \<lparr>status = FAILURE, suppress_ack = False\<rparr>)
               else rbind (modifyOrder_log b tr req) (\<lambda>(b', tr', filled).
                      ok (b', tr', \<lparr>status = SUCCESS, suppress_ack = filled\<rparr>)))
      else ok (b, tr, \<lparr>status = FAILURE, suppress_ack = False\<rparr>))"

definition pop_trade :: "Trade RingBuffer \<Rightarrow> Trade option \<times> Trade RingBuffer" where
  "pop_trade tr = ring_pop tr"

section \<open>The expose thread\<close>

text \<open>The inner loop of \<^verbatim>\<open>exposeTrades\<close>; the trades it writes, in order.\<close>

partial_function (option) drain_trades :: "Trade RingBuffer \<Rightarrow> (Trade list \<times> Trade RingBuffer) option" where
  [code]: "drain_trades tr =
     (case pop_trade tr of
        (None, r) \<Rightarrow> Some ([], r)
      | (Some t, r) \<Rightarrow> Option.bind (drain_trades r) (\<lambda>(ts, r'). Some (t # ts, r')))"

text \<open>
  The outer loop: a list of rounds, each with what the flag reads at its head and what the matching
  thread has pushed since; the list ends when the process does.
\<close>

fun exposeTrades :: "(bool \<times> Trade list) list \<Rightarrow> Trade RingBuffer \<Rightarrow> (Trade list \<times> Trade RingBuffer) option" where
  "exposeTrades [] tr = Some ([], tr)"
| "exposeTrades ((stop, arrived) # rs) tr =
     (if stop then Some ([], tr)
      else Option.bind (drain_trades (fold log_trade arrived tr)) (\<lambda>(ts, tr1).
           Option.bind (exposeTrades rs tr1) (\<lambda>(ts', tr2). Some (ts @ ts', tr2))))"

definition info_text :: "TradeInfo \<Rightarrow> string" where
  "info_text i = ''client_id: '' @ decimal (unat (ti_client_id i)) @ '' order_id: '' @ decimal (unat (ti_order_id i))
     @ '' price: '' @ decimal (unat (ti_price i)) @ '' quantity: '' @ decimal (unat (ti_quantity i)) @ [char_of (10 :: nat)]"

definition write_to_console :: "Trade \<Rightarrow> string" where
  "write_to_console t = ''bid -> '' @ info_text (bid_info t) @ ''ask -> '' @ info_text (ask_info t) @ [char_of (10 :: nat)]"

section \<open>Logging changes nothing\<close>

text \<open>\<open>forget\<close> drops the log from a result.\<close>

definition forget :: "('b \<times> 't \<times> 'a) res \<Rightarrow> ('b \<times> 'a) res" where
  "forget m = rbind m (\<lambda>(b, tr, x). ok (b, x))"

lemma forget_simps [simp]: "forget (ok (b, tr, x)) = ok (b, x)" "forget (fail e) = fail e" "forget None = None"
  "forget m = None \<longleftrightarrow> m = None"
  by (auto simp: forget_def rbind_def split: option.splits sum.splits)

lemma forget_bind: "forget (rbind m f) = rbind m (\<lambda>x. forget (f x))"
  by (auto simp: forget_def rbind_def split: option.splits sum.splits)

lemma level_log_sound:
  assumes "match_level_log b tr pb pa lm af = Some y"
  shows "match_level b pb pa lm af = forget (Some y)"
proof (rule match_level_log.raw_induct [where P = "\<lambda>b tr pb pa lm af y. match_level b pb pa lm af = forget (Some y)", OF _ assms], goal_cases)
  case (1 f b tr pb pa lm af y)
  note IH = 1(1)
  from 1(2) show ?case
    by (subst match_level.simps) (auto simp: rbind_def Let_def IH split: if_splits option.splits sum.splits)
qed

lemma level_log_complete:
  assumes "match_level b pb pa lm af = Some y"
  shows "match_level_log b tr pb pa lm af \<noteq> None"
proof -
  have "\<forall>tr. match_level_log b tr pb pa lm af \<noteq> None"
  proof (rule match_level.raw_induct [where P = "\<lambda>b pb pa lm af y. \<forall>tr. match_level_log b tr pb pa lm af \<noteq> None", OF _ assms], goal_cases)
    case (1 f b pb pa lm af y)
    have IH: "f b pb pa lm af = Some y \<Longrightarrow> \<exists>z. match_level_log b tr pb pa lm af = Some z" for b tr pb pa lm af y using 1(1) by blast
    from 1(2) show ?case
      by (subst match_level_log.simps) (auto simp: rbind_def Let_def intro: IH split: if_splits option.splits sum.splits)
  qed
  then show ?thesis ..
qed

lemma level_log: "forget (match_level_log b tr pb pa lm af) = match_level b pb pa lm af"
  using level_log_sound [of b tr pb pa lm af] level_log_complete [of b pb pa lm af _ tr]
  by (cases "match_level_log b tr pb pa lm af"; cases "match_level b pb pa lm af") auto

text \<open>The outer loop, over the inner one.\<close>

lemma forget_cases:
  assumes "forget m = n"
  obtains "m = None" "n = None" | e where "m = fail e" "n = fail e" | b tr x where "m = ok (b, tr, x)" "n = ok (b, x)"
  using assms by (cases m) (auto simp: forget_def rbind_def split: sum.splits)

lemma loop_log_sound:
  assumes "match_loop_log b tr af = Some y"
  shows "match_loop b af = forget (Some y)"
proof (rule match_loop_log.raw_induct [where P = "\<lambda>b tr af y. match_loop b af = forget (Some y)", OF _ assms], goal_cases)
  case (1 f b tr af y)
  note IH = 1(1)
  show ?case
    by (rule forget_cases [OF level_log [of b tr "best_bid_price b" "best_ask_price b" False af]])
      (use 1(2) in \<open>subst match_loop.simps; auto simp: IH split: if_splits\<close>)+
qed

lemma loop_log_complete:
  assumes "match_loop b af = Some y"
  shows "match_loop_log b tr af \<noteq> None"
proof -
  have "\<forall>tr. match_loop_log b tr af \<noteq> None"
  proof (rule match_loop.raw_induct [where P = "\<lambda>b af y. \<forall>tr. match_loop_log b tr af \<noteq> None", OF _ assms], goal_cases)
    case (1 f b af y)
    have IH: "f b af = Some y \<Longrightarrow> \<exists>z. match_loop_log b tr af = Some z" for b tr af y using 1(1) by blast
    show ?case
    proof
      fix tr
      show "match_loop_log b tr af \<noteq> None"
        by (rule forget_cases [OF level_log [of b tr "best_bid_price b" "best_ask_price b" False af]])
          (use 1(2) in \<open>subst match_loop_log.simps; auto intro: IH split: if_splits\<close>)+
    qed
  qed
  then show ?thesis ..
qed

lemma rbind_forgetI:
  "rbind m f = Some y \<Longrightarrow> (\<And>x. m = ok x \<Longrightarrow> f x = Some y \<Longrightarrow> g x = forget (Some y)) \<Longrightarrow> rbind m g = forget (Some y)"
  by (auto simp: rbind_def split: option.splits sum.splits)

lemma market_log_sound:
  assumes "market_loop_log s req b tr rem = Some y"
  shows "market_loop s req b rem = forget (Some y)"
proof (rule market_loop_log.raw_induct [where P = "\<lambda>s req b tr rem y. market_loop s req b rem = forget (Some y)", OF _ assms], goal_cases)
  case (1 f s req b tr rem y)
  note IH = 1(1)
  show ?case
  proof (cases "0 < non_empty b s \<and> 0 < rem")
    case True
    show ?thesis using 1(2) unfolding market_loop.simps [of s req b rem] if_P [OF True] Let_def
      by (rule rbind_forgetI) (auto elim!: rbind_forgetI simp: IH split: if_split_asm option.split_asm)
  qed (use 1(2) in \<open>subst market_loop.simps, auto\<close>)
qed

lemma market_log_complete:
  assumes "market_loop s req b rem = Some y"
  shows "market_loop_log s req b tr rem \<noteq> None"
proof -
  have "\<forall>tr. market_loop_log s req b tr rem \<noteq> None"
  proof (rule market_loop.raw_induct [where P = "\<lambda>s req b rem y. \<forall>tr. market_loop_log s req b tr rem \<noteq> None", OF _ assms], goal_cases)
    case (1 f s req b rem y)
    have IH: "f s req b rem = Some y \<Longrightarrow> \<exists>z. market_loop_log s req b tr rem = Some z" for s req b tr rem y using 1(1) by blast
    from 1(2) show ?case
      by (subst market_loop_log.simps) (auto simp: rbind_def Let_def intro: IH split: if_splits option.splits sum.splits)
  qed
  then show ?thesis ..
qed

lemma loop_log: "forget (match_loop_log b tr af) = match_loop b af"
  using loop_log_sound [of b tr af] loop_log_complete [of b af _ tr]
  by (cases "match_loop_log b tr af"; cases "match_loop b af") auto

lemma market_log: "forget (market_loop_log s req b tr rem) = market_loop s req b rem"
  using market_log_sound [of s req b tr rem] market_log_complete [of s req b rem _ tr]
  by (cases "market_loop_log s req b tr rem"; cases "market_loop s req b rem") auto

text \<open>The expose thread writes every trade once, in order, and returns.\<close>

lemma drain_trades_all:
  assumes "ring_inv tr"
  shows "\<exists>r. drain_trades tr = Some (ring_contents tr, r) \<and> ring_inv r \<and> ring_contents r = [] \<and> ring_cap r = ring_cap tr"
  using assms
proof (induction "ring_contents tr" arbitrary: tr)
  case Nil
  then have "ring_pop tr = (None, tr)" using ring.pop_empty by metis
  then show ?case using Nil by (subst drain_trades.simps) (simp add: pop_trade_def)
next
  case (Cons t ts)
  obtain r where r: "ring_pop tr = (Some t, r)" "ring_inv r" "ring_contents r = ts" "ring_cap r = ring_cap tr"
    using ring.pop_front [OF Cons.prems Cons.hyps(2) [symmetric]] ring.inv_pop [OF Cons.prems] by (metis prod.collapse)
  obtain r' where "drain_trades r = Some (ts, r')" "ring_inv r'" "ring_contents r' = []" "ring_cap r' = ring_cap tr"
    using Cons.hyps(1) [OF r(3) [symmetric] r(2)] r(3,4) by auto
  then show ?case using r(1) Cons.hyps(2) by (subst drain_trades.simps) (auto simp: pop_trade_def)
qed

text \<open>As long as the ring does not overflow, the thread writes all the trades that arrive before it stops.\<close>

lemma log_trades_ring:
  assumes "ring_inv tr"
  shows "ring_inv (fold log_trade ts tr)" "ring_contents (fold log_trade ts tr) = take (ring_cap tr) (ring_contents tr @ ts)"
    and "ring_cap (fold log_trade ts tr) = ring_cap tr"
proof -
  have "log_trade = (\<lambda>m r. snd (ring_push r m))" by (simp add: fun_eq_iff log_trade_def)
  then show "ring_inv (fold log_trade ts tr)" "ring_contents (fold log_trade ts tr) = take (ring_cap tr) (ring_contents tr @ ts)"
    "ring_cap (fold log_trade ts tr) = ring_cap tr"
    using ring.inv_push_all [OF assms, of ts] ring.contents_push_all [OF assms, of ts] by simp_all
qed

lemma exposeTrades_all:
  assumes "ring_inv tr" and "ring_contents tr = []" and "\<forall>(stop, arrived) \<in> set rs. \<not> stop \<and> length arrived \<le> ring_cap tr"
  shows "\<exists>tr'. exposeTrades rs tr = Some (concat (map snd rs), tr')"
  using assms
proof (induction rs arbitrary: tr)
  case (Cons r rs)
  obtain stop arrived where r: "r = (stop, arrived)" by (cases r)
  note l = log_trades_ring [OF Cons.prems(1), of arrived]
  have c: "ring_contents (fold log_trade arrived tr) = arrived" using l(2) Cons.prems(2,3) r by simp
  obtain tr1 where d: "drain_trades (fold log_trade arrived tr) = Some (arrived, tr1)" "ring_inv tr1" "ring_contents tr1 = []"
    "ring_cap tr1 = ring_cap tr"
    using drain_trades_all [OF l(1)] c l(3) by auto
  obtain tr2 where "exposeTrades rs tr1 = Some (concat (map snd rs), tr2)"
    using Cons.IH [OF d(2,3)] Cons.prems(3) d(4) by auto
  then show ?case using d(1) Cons.prems(3) r by simp
qed simp

text \<open>Both sides of a trade name the same quantity; a market order trades at the price of the resting order's level.\<close>

definition balanced :: "Trade \<Rightarrow> bool" where
  "balanced t \<longleftrightarrow> ti_quantity (bid_info t) = ti_quantity (ask_info t)"

lemma trades_balanced: "balanced (limit_trade bid ask q)" "balanced (market_trade s req p o' q)"
  by (simp_all add: balanced_def limit_trade_def market_trade_def order_info_def Let_def split: book_side.split)

lemma orders_log: "forget (matchOrders_log b tr) = matchOrders b"
  and markets_log: "forget (matchMarket_log b tr req) = matchMarket b req"
  by (simp_all add: matchOrders_log_def matchOrders_def matchMarket_log_def matchMarket_def loop_log market_log)

lemma add_log: "forget (addOrder_log b tr req) = addOrder b req"
  by (auto simp: addOrder_log_def addOrder_def forget_bind orders_log markets_log Let_def split: option.splits prod.splits)

lemma modify_log: "forget (modifyOrder_log b tr req) = modifyOrder b req"
  by (auto simp: modifyOrder_log_def modifyOrder_def forget_bind add_log orders_log markets_log Let_def split: option.splits)

lemma forget_result:
  "forget (rbind m (\<lambda>(b, tr, x). ok (b, tr, g x))) = rbind (forget m) (\<lambda>r. ok (fst r, g (snd r)))"
  by (auto simp: forget_def rbind_def split: option.splits sum.splits)

lemma forget_const: "forget (rbind m (\<lambda>b. ok (b, tr, c))) = rbind m (\<lambda>b. ok (b, c))"
  by (simp add: forget_bind)

section \<open>The log and the reports\<close>

text \<open>
  A log and the MATCH messages sent agree when the messages come in pairs, one pair per trade, that
  name the trade's two orders and their clients.
\<close>

abbreviation party :: "OutboundMessage \<Rightarrow> OrderId \<times> ClientId" where
  "party m \<equiv> (om_order_id m, om_client_id m)"

abbreviation side_party :: "TradeInfo \<Rightarrow> OrderId \<times> ClientId" where
  "side_party i \<equiv> (ti_order_id i, ti_client_id i)"

fun reported :: "Trade list \<Rightarrow> OutboundMessage list \<Rightarrow> bool" where
  "reported [] [] \<longleftrightarrow> True"
| "reported (t # ts) (m # m' # ms) \<longleftrightarrow> om_message_type m = MATCH \<and> om_message_type m' = MATCH \<and> balanced t
     \<and> (party m = side_party (bid_info t) \<and> party m' = side_party (ask_info t)
          \<or> party m = side_party (ask_info t) \<and> party m' = side_party (bid_info t))
     \<and> reported ts ms"
| "reported _ _ \<longleftrightarrow> False"

lemma reported_append: "reported ts ms \<Longrightarrow> reported ts' ms' \<Longrightarrow> reported (ts @ ts') (ms @ ms')"
  by (induction ts ms rule: reported.induct) auto

definition logs :: "Orderbook \<Rightarrow> Trade RingBuffer \<Rightarrow> Orderbook \<Rightarrow> Trade RingBuffer \<Rightarrow> bool" where
  "logs b tr b' tr' \<longleftrightarrow> (\<exists>ts ms. reported ts ms \<and> tr' = fold log_trade ts tr \<and> out_ring b' = ring_push_all (out_ring b) ms)"

lemma logs_silent: "out_ring b' = out_ring b \<Longrightarrow> logs b tr b' tr"
  by (auto simp: logs_def intro!: exI [of _ "[]"])

lemma logs_trans: "logs b tr b1 tr1 \<Longrightarrow> logs b1 tr1 b2 tr2 \<Longrightarrow> logs b tr b2 tr2"
  unfolding logs_def by (metis fold_append comp_apply reported_append ring_push_all_simps(3))

lemma logs_trade:
  assumes "reported [t] [m, m']" and "out_ring b' = ring_push_all (out_ring b) [m, m']"
  shows "logs b tr b' (log_trade t tr)"
  using assms unfolding logs_def by (intro exI [of _ "[t]"] exI [of _ "[m, m']"]) simp

text \<open>Nothing but the two pushes touches the outbound ring.\<close>

lemma update_best_silent: "update_best s b = ok b' \<Longrightarrow> out_ring b' = out_ring b"
  by (cases s) (auto simp: update_best_bid_def update_best_ask_def rbind_ok_iff)

lemma silent_steps:
  "fill_order b x q = ok b' \<Longrightarrow> out_ring b' = out_ring b"
  "retire_filled b s p x = ok b' \<Longrightarrow> out_ring b' = out_ring b"
  "level_done s b = ok b' \<Longrightarrow> out_ring b' = out_ring b"
  "level_push b s p x = ok b' \<Longrightarrow> out_ring b' = out_ring b"
proof -
  show "fill_order b x q = ok b' \<Longrightarrow> out_ring b' = out_ring b" by (auto simp: fill_order_def rbind_ok_iff)
  have p: "level_pop b s p = ok b' \<Longrightarrow> out_ring b' = out_ring b" "level_remove b s p x = ok b' \<Longrightarrow> out_ring b' = out_ring b" for b b' s
    by (auto simp: level_pop_def level_remove_def rbind_ok_iff case_prod_beta Let_def)
  show "retire_filled b s p x = ok b' \<Longrightarrow> out_ring b' = out_ring b"
    by (auto simp: retire_filled_def rbind_ok_iff dest!: p split: if_splits)
  show "level_done s b = ok b' \<Longrightarrow> out_ring b' = out_ring b"
    by (auto simp: level_done_def Let_def dest: update_best_silent split: if_splits)
  show "level_push b s p x = ok b' \<Longrightarrow> out_ring b' = out_ring b"
    by (auto simp: level_push_def rbind_ok_iff case_prod_beta)
qed

lemma cancel_silent:
  assumes "cancelOrder b oid = ok b'"
  shows "out_ring b' = out_ring b"
proof -
  from assms obtain x where x: "orders b oid = Some x" by (auto simp: cancelOrder_def split: option.splits)
  let ?s = "side_of (o_side (deref b x))" and ?p = "o_price (deref b x)"
  from assms x obtain b1 b3 q where r: "level_remove b ?s ?p x = ok b1" "b' = erase_order oid x b3"
    and d: "(if plq_empty q then (let b2 = set_non_empty ?s (non_empty b1 ?s - 1) b1
                          in if non_empty b2 ?s = 0 then ok (set_best ?s (worst ?s) b2)
                             else if ?p = best b2 ?s then update_best ?s b2 else ok b2)
             else ok b1) = ok b3"
    unfolding cancelOrder_def by (auto simp: rbind_ok_iff Let_def simp del: set_non_empty.simps)
  have "out_ring b1 = out_ring b" using r(1) by (auto simp: level_remove_def rbind_ok_iff case_prod_beta)
  moreover have "out_ring b3 = out_ring b1" using d by (auto simp: Let_def dest: update_best_silent split: if_splits)
  ultimately show ?thesis using r(2) by simp
qed

lemma match_fronts_ring:
  assumes "match_fronts b pb pa bid ask = ok (b', d)"
  shows "out_ring b' = ring_push_all (out_ring b) [match_msg (deref b bid), match_msg (deref b ask)]"
proof -
  let ?q = "min (o_remaining_quantity (deref b bid)) (o_remaining_quantity (deref b ask))"
  from assms obtain b1 b2 b3 b4 b5 qb qa where s: "fill_order b bid ?q = ok b1" "fill_order b1 ask ?q = ok b2"
    "retire_filled (push_out (match_msg (deref b ask)) (push_out (match_msg (deref b bid)) b2)) Bids pb bid = ok b3"
    "retire_filled b3 Asks pa ask = ok b4"
    and d: "(if plq_empty qb then level_done Bids b4 else ok b4) = ok b5"
      "(if plq_empty qa then level_done Asks b5 else ok b5) = ok b'"
    unfolding match_fronts_def Let_def rbind_ok_iff by blast
  have "out_ring b5 = out_ring b4" "out_ring b' = out_ring b5" using d silent_steps(3) by (auto split: if_splits)
  with silent_steps(1) [OF s(1)] silent_steps(1) [OF s(2)] silent_steps(2) [OF s(3)] silent_steps(2) [OF s(4)]
  show ?thesis by simp
qed

lemma limit_reported: "reported [limit_trade x y q] [match_msg x, match_msg y]"
  by (simp add: limit_trade_def order_info_def match_msg_def balanced_def)

lemma market_reported:
  "o_id x' = o_id x \<Longrightarrow> o_client_id x' = o_client_id x \<Longrightarrow> reported [market_trade s req p x' q] [market_msg req, match_msg x]"
  by (cases s) (simp_all add: market_trade_def order_info_def match_msg_def market_msg_def balanced_def Let_def)

lemma level_logs:
  assumes "match_level_log b tr pb pa lm af = ok (b', tr', x)"
  shows "logs b tr b' tr'"
proof -
  have "\<forall>b' tr' x. y = Inr (b', tr', x) \<longrightarrow> logs b tr b' tr'" if "match_level_log b tr pb pa lm af = Some y" for y
  proof (rule match_level_log.raw_induct [where P = "\<lambda>b tr pb pa lm af y. \<forall>b' tr' x. y = Inr (b', tr', x) \<longrightarrow> logs b tr b' tr'", OF _ that], goal_cases)
    case (1 f b tr pb pa lm af y)
    have IH: "f b tr pb pa lm af = ok (b', tr', x) \<Longrightarrow> logs b tr b' tr'" for b tr pb pa lm af b' tr' x using 1(1) by blast
    have step: "match_fronts b pb pa bid ask = ok (b1, d) \<Longrightarrow>
        logs b tr b1 (log_trade (limit_trade (deref b bid) (deref b ask) q) tr)" for bid ask b1 d q
      by (rule logs_trade [OF limit_reported]) (rule match_fronts_ring)
    show ?case using 1(2)
      by (auto simp: rbind_ok_iff Let_def logs_silent intro: step logs_trans [OF step] dest!: IH split: if_splits option.splits)
  qed
  then show ?thesis using assms by blast
qed

lemma loop_logs:
  assumes "match_loop_log b tr af = ok (b', tr', x)"
  shows "logs b tr b' tr'"
proof -
  have "\<forall>b' tr' x. y = Inr (b', tr', x) \<longrightarrow> logs b tr b' tr'" if "match_loop_log b tr af = Some y" for y
  proof (rule match_loop_log.raw_induct [where P = "\<lambda>b tr af y. \<forall>b' tr' x. y = Inr (b', tr', x) \<longrightarrow> logs b tr b' tr'", OF _ that], goal_cases)
    case (1 f b tr af y)
    have IH: "f b tr af = ok (b', tr', x) \<Longrightarrow> logs b tr b' tr'" for b tr af b' tr' x using 1(1) by blast
    show ?case using 1(2)
      by (auto simp: rbind_ok_iff logs_silent intro: logs_trans dest!: IH level_logs split: if_splits)
  qed
  then show ?thesis using assms by blast
qed

text \<open>One trade of a market order: the fill changes neither id nor client of the resting order.\<close>

lemma market_step_logs:
  assumes "fill_order b x q = ok b1"
    and "retire_filled (push_out (match_msg (deref b x)) (push_out (market_msg req) b1)) s p x = ok b2"
    and "b3 = b2 \<or> level_done s b2 = ok b3"
  shows "logs b tr b3 (log_trade (market_trade s req p (deref b1 x) q) tr)"
proof (rule logs_trade [OF market_reported])
  show "o_id (deref b1 x) = o_id (deref b x)" "o_client_id (deref b1 x) = o_client_id (deref b x)"
    using assms(1) by (auto simp: fill_order_def fill_def rbind_ok_iff set_arena_def deref_def split: if_splits)
  have "out_ring b3 = out_ring b2" using assms(3) silent_steps(3) by auto
  then show "out_ring b3 = ring_push_all (out_ring b) [market_msg req, match_msg (deref b x)]"
    using silent_steps(1) [OF assms(1)] silent_steps(2) [OF assms(2)] by simp
qed

lemmas market_continues =
  logs_trans [OF market_step_logs [OF _ _ disjI1 [OF refl]]] logs_trans [OF market_step_logs [OF _ _ disjI2]]

lemma market_logs:
  assumes "market_loop_log s req b tr rem = ok (b', tr', x)"
  shows "logs b tr b' tr'"
proof -
  have "\<forall>b' tr' x. y = Inr (b', tr', x) \<longrightarrow> logs b tr b' tr'" if "market_loop_log s req b tr rem = Some y" for y
  proof (rule market_loop_log.raw_induct [where P = "\<lambda>s req b tr rem y. \<forall>b' tr' x. y = Inr (b', tr', x) \<longrightarrow> logs b tr b' tr'", OF _ that], goal_cases)
    case (1 f s req b tr rem y)
    have IH: "f s req b tr rem = ok (b', tr', x) \<Longrightarrow> logs b tr b' tr'" for s req b tr rem b' tr' x using 1(1) by blast
    show ?case
    proof (cases "0 < non_empty b s \<and> 0 < rem")
      case True
      show ?thesis using 1(2) unfolding if_P [OF True] Let_def
        by (auto simp: rbind_ok_iff logs_silent dest!: IH intro: market_continues split: if_split_asm option.split_asm)
    qed (use 1(2) in \<open>auto simp: logs_silent\<close>)
  qed
  then show ?thesis using assms by blast
qed

lemma matching_logs:
  "matchOrders_log b tr = ok (b', tr', x) \<Longrightarrow> logs b tr b' tr'"
  "matchMarket_log b tr req = ok (b', tr', x) \<Longrightarrow> logs b tr b' tr'"
  by (auto simp: matchOrders_log_def matchMarket_log_def logs_silent dest: loop_logs market_logs split: if_splits)

lemma add_logs: "addOrder_log b tr req = ok (b', tr', x) \<Longrightarrow> logs b tr b' tr'"
proof (cases "req_type req = MARKET \<or> orders b (req_order_id req) \<noteq> None")
  case False
  assume a: "addOrder_log b tr req = ok (b', tr', x)"
  obtain r pool' where p: "allocate (pool b) (req_order_id req) req = (r, pool')" by fastforce
  show ?thesis
  proof (cases r)
    case None
    then show ?thesis using a p False by (auto simp: addOrder_log_def intro!: logs_silent)
  next
    case (Some y)
    define b1 where "b1 = b\<lparr>pool := pool', orders := (orders b)(req_order_id req \<mapsto> y)\<rparr>"
    define s p where "s = side_of (o_side (deref b1 y))" and "p = o_price (deref b1 y)"
    have "ok (b', tr', x) = rbind (level_get (levels b1 s) p) (\<lambda>level.
        rbind (level_push (if plq_empty level then set_non_empty s (non_empty b1 s + 1) b1 else b1) s p y) (\<lambda>b3.
          matchOrders_log (if better s p (best b3 s) then set_best s p b3 else b3) tr))"
      unfolding a [symmetric] using p False Some by (simp add: addOrder_log_def Let_def b1_def s_def p_def cong: if_cong)
    then obtain level b3 where l: "level_push (if plq_empty level then set_non_empty s (non_empty b1 s + 1) b1 else b1) s p y = ok b3"
      and m: "matchOrders_log (if better s p (best b3 s) then set_best s p b3 else b3) tr = ok (b', tr', x)"
      unfolding eq_commute [of "ok _"] rbind_ok_iff by metis
    have "out_ring b1 = out_ring b" by (simp add: b1_def)
    then have "out_ring (if better s p (best b3 s) then set_best s p b3 else b3) = out_ring b"
      using silent_steps(4) [OF l] by auto
    from logs_trans [OF logs_silent [OF this] matching_logs(1) [OF m]] show ?thesis .
  qed
qed (auto simp: addOrder_log_def logs_silent dest: matching_logs split: if_splits)

lemma modify_logs:
  assumes "modifyOrder_log b tr req = ok (b', tr', x)"
  shows "logs b tr b' tr'"
proof -
  from assms obtain y where y: "orders b (req_order_id req) = Some y" by (auto simp: modifyOrder_log_def split: option.splits)
  let ?b1 = "set_arena ((arena (pool b))(y := (deref b y)\<lparr>o_recv_tsc := req_recv_tsc req\<rparr>)) b"
  have "logs ?b1 tr c tr' \<Longrightarrow> logs b tr c tr'" for c
    using logs_trans [OF logs_silent [of ?b1 b tr]] by simp
  then show ?thesis using assms y
    by (auto simp: modifyOrder_log_def rbind_ok_iff Let_def logs_silent
        intro: logs_trans [OF logs_silent [OF cancel_silent] add_logs] dest!: matching_logs split: if_splits)
qed

lemma process_logs: "process_log b tr req = ok (b', tr', r) \<Longrightarrow> logs b tr b' tr'"
  by (auto simp: process_log_def rbind_ok_iff logs_silent intro: add_logs modify_logs logs_silent cancel_silent
      split: if_splits option.splits)

section \<open>Properties\<close>

text \<open>
  C35: logging does not change trading. Built with \<^verbatim>\<open>LOGGING\<close>, \<^verbatim>\<open>process\<close> returns, faults or loops exactly when the
  shipped one does, and leaves the same book, the same messages and the same result, whatever the state
  of the trade ring.
\<close>

theorem logging_is_transparent: "forget (process_log b tr req) = process b req"
  by (auto simp: process_log_def process_def forget_result forget_const add_log modify_log split: option.splits)

text \<open>
  C36: the trade log tells what was traded. For one request, the trades that reach the ring are, one for one
  and in order, those whose two parties the engine tells with a pair of MATCH messages; each names the
  same quantity on both sides; and the expose thread then writes what the ring held before and these, as
  far as the ring has room.
\<close>

theorem trades_logged_as_reported:
  assumes "ring_inv tr" and "process_log b tr req = ok (b', tr', r)"
  shows "\<exists>ts ms tr''. reported ts ms \<and> out_ring b' = ring_push_all (out_ring b) ms
     \<and> drain_trades tr' = Some (take (ring_cap tr) (ring_contents tr @ ts), tr'')"
proof -
  obtain ts ms where l: "reported ts ms" "tr' = fold log_trade ts tr" "out_ring b' = ring_push_all (out_ring b) ms"
    using process_logs [OF assms(2)] by (auto simp: logs_def)
  have "ring_inv tr'" "ring_contents tr' = take (ring_cap tr) (ring_contents tr @ ts)"
    using log_trades_ring [OF assms(1), of ts] l(2) by simp_all
  then show ?thesis using l drain_trades_all [of tr'] by metis
qed

text \<open>An order to sell 6 at 5 rests; an order to buy 6 at 5 comes in.\<close>

definition blank_ring :: "'a \<Rightarrow> 'a RingBuffer" where
  "blank_ring z = \<lparr>write_idx = 0, read_idx = 0, buffer = replicate 4 z, rb_mask = 3\<rparr>"

definition order65 :: "Side \<Rightarrow> OrderId \<Rightarrow> OrderRequest" where
  "order65 s oid = \<lparr>req_message_type = NEW, req_order_id = oid, req_client_id = 7 + ucast oid, req_side = s, req_type = LIMIT,
     req_price = 5, req_quantity = 6, req_recv_tsc = 0, req_server_push_tsc = 0, req_engine_pop_tsc = 0\<rparr>"

definition info65 :: "OrderId \<Rightarrow> TradeInfo" where
  "info65 oid = \<lparr>ti_client_id = 7 + ucast oid, ti_order_id = oid, ti_price = 5, ti_quantity = 6\<rparr>"

definition trades4 :: "Trade RingBuffer" where
  "trades4 = blank_ring \<lparr>bid_info = info65 0, ask_info = info65 0\<rparr>"

definition selling :: Orderbook where
  "selling = (case process (Orderbook_new 4 (blank_ring OutboundMessage_zero)) (order65 ASK 1) of
     Some (Inr (b, r)) \<Rightarrow> b | _ \<Rightarrow> Orderbook_new 4 (blank_ring OutboundMessage_zero))"

lemma trades4_ring: "ring_inv trades4" "ring_contents trades4 = []" "ring_cap trades4 = 3"
proof -
  have "ring_log trades4 2" by (simp add: ring_log_def trades4_def blank_ring_def mask_eq_pow)
  then show "ring_inv trades4" by (auto simp: ring_inv_def)
  show "ring_contents trades4 = []" "ring_cap trades4 = 3"
    by (simp_all add: ring_contents_def ring_used_def ring_cap_def trades4_def blank_ring_def)
qed

lemma buys65:
  "(case process_log selling trades4 (order65 BID 2) of Some (Inr (b, tr, r)) \<Rightarrow> map_option fst (drain_trades tr) | _ \<Rightarrow> None)
   = Some [\<lparr>bid_info = info65 2, ask_info = info65 1\<rparr>]"
  by code_simp

theorem trades_logged_as_reported_witness:
  "\<exists>b' tr' r ts ms tr''. process_log selling trades4 (order65 BID 2) = ok (b', tr', r) \<and> reported ts ms
     \<and> out_ring b' = ring_push_all (out_ring selling) ms \<and> drain_trades tr' = Some (ts, tr'')
     \<and> ts = [\<lparr>bid_info = info65 2, ask_info = info65 1\<rparr>]"
proof -
  obtain b' tr' r where p: "process_log selling trades4 (order65 BID 2) = ok (b', tr', r)"
    and d: "map_option fst (drain_trades tr') = Some [\<lparr>bid_info = info65 2, ask_info = info65 1\<rparr>]"
    using buys65 by (auto split: option.splits sum.splits)
  obtain ts ms tr'' where w: "reported ts ms" "out_ring b' = ring_push_all (out_ring selling) ms"
    "drain_trades tr' = Some (take 3 ts, tr'')"
    using trades_logged_as_reported [OF trades4_ring(1) p] trades4_ring(2,3) by auto
  then have t: "take 3 ts = [\<lparr>bid_info = info65 2, ask_info = info65 1\<rparr>]" using d by simp
  then have "length ts = 1" by (cases "length ts \<le> 3") (auto dest: arg_cong [of _ _ length])
  then have "take 3 ts = ts" by simp
  with p w t show ?thesis by metis
qed

end
