(* ===== verification/Latency_Report.thy ===== *)
theory Latency_Report
  imports Latency
begin

text \<open>
  The two ends of \<^verbatim>\<open>LatencyHandler\<close>: the constructor's calibration of the tick rate, and the
  destructor, which turns the samples into printed percentiles, with and without
  \<^verbatim>\<open>DIAGNOSTICS\<close>. A double is a rational number. The HdrHistogram library is a parameter: a record
  of the three functions the code calls. What the text on \<^verbatim>\<open>stdout\<close> looks like is a string.
\<close>

section \<open>Calibration\<close>

text \<open>
  The two readings of the time-stamp counter and of the steady clock (in nanoseconds) around the
  sleep of 100 ms.
\<close>

definition calibrate :: "Timestamp \<Rightarrow> int \<Rightarrow> Timestamp \<Rightarrow> int \<Rightarrow> rat" where
  "calibrate tsc1 wall1 tsc2 wall2 = of_nat (unat (tsc2 - tsc1)) / of_int (wall2 - wall1)"

definition LatencyHandler_init :: "Timestamp \<Rightarrow> int \<Rightarrow> Timestamp \<Rightarrow> int \<Rightarrow> LatencyHandler" where
  "LatencyHandler_init tsc1 wall1 tsc2 wall2 = LatencyHandler_new (calibrate tsc1 wall1 tsc2 wall2)"

section \<open>The histogram library\<close>

text \<open>
  \<^verbatim>\<open>hdr_init\<close> fails without setting its pointer when there is no memory, which the code does not
  check: the pointer is then uninitialised and every use of it is a fault. The code ignores the
  result of \<^verbatim>\<open>hdr_record_value\<close> too, so only the histogram after the call matters.
\<close>

record 'h hdr_lib =
  hdr_init :: "int \<Rightarrow> int \<Rightarrow> int \<Rightarrow> 'h option"
  hdr_record_value :: "'h \<Rightarrow> int \<Rightarrow> 'h"
  hdr_value_at_percentile :: "'h \<Rightarrow> rat \<Rightarrow> int"

definition deref_hdr :: "'h option \<Rightarrow> 'h res" where
  "deref_hdr p = (case p of None \<Rightarrow> fail Null_Pointer | Some h \<Rightarrow> ok h)"

section \<open>Printing\<close>

abbreviation line_end :: string where
  "line_end \<equiv> [CHR 0x0A]"

text \<open>The conversion \<^verbatim>\<open>%6lld\<close>: decimal, right-aligned in six columns, wider when it has to be.\<close>

definition printf_6lld :: "int \<Rightarrow> string" where
  "printf_6lld v =
     (let s = (if v < 0 then CHR ''-'' # decimal (nat (- v)) else decimal (nat v))
      in replicate (6 - length s) CHR '' '' @ s)"

definition pcts :: "rat list" where
  "pcts = [50, 90, 99, 999 / 10, 9999 / 100, 100]"

definition labels :: "string list" where
  "labels = [''p50   '', ''p90   '', ''p99   '', ''p99.9 '', ''p99.99'', ''max   '']"

definition print_hist :: "'h hdr_lib \<Rightarrow> 'h \<Rightarrow> string \<Rightarrow> string" where
  "print_hist L h title =
     line_end @ title @ line_end @
     concat (map (\<lambda>i. ''  '' @ labels ! i @ ''  '' @ printf_6lld (hdr_value_at_percentile L h (pcts ! i)) @ '' ns'' @ line_end)
       [0..<6])"

section \<open>The report\<close>

text \<open>A histogram of the report: its title and the two time stamps it measures between.\<close>

type_synonym stage = "string \<times> (LatencySample \<Rightarrow> Timestamp) \<times> (LatencySample \<Rightarrow> Timestamp)"

definition END_TO_END :: stage where
  "END_TO_END = (''begin read -> end write   (end-to-end)'', ls_t0, ls_t7)"

definition STAGES :: "stage list" where
  "STAGES =
     [(''begin read -> end read    (recv syscall)'', ls_t0, ls_t1),
      (''end read -> push inbound  (inbound thread)'', ls_t1, ls_t2),
      (''push inbound -> engine pop (ring transit)'', ls_t2, ls_t3),
      (''engine pop -> engine push (engine processing)'', ls_t3, ls_t4),
      (''engine push -> server pop (ring transit)'', ls_t4, ls_t5),
      (''pop outbound -> begin write (outbound thread)'', ls_t5, ls_t6),
      (''begin write -> end write  (send syscall)'', ls_t6, ls_t7)]"

definition histograms :: "bool \<Rightarrow> stage list" where
  "histograms diagnostics = END_TO_END # (if diagnostics then STAGES else [])"

text \<open>The body of the loop over the samples: one value into every histogram.\<close>

fun record_stages :: "'h hdr_lib \<Rightarrow> LatencyHandler \<Rightarrow> LatencySample \<Rightarrow> stage list \<Rightarrow> 'h option list \<Rightarrow> 'h option list res" where
  "record_stages L h s ((title, a, b) # stages) (p # ps) =
     rbind (calc_latency h (a s) (b s)) (\<lambda>v.
     rbind (deref_hdr p) (\<lambda>q.
     rbind (record_stages L h s stages ps) (\<lambda>ps'.
       ok (Some (hdr_record_value L q v) # ps'))))"
| "record_stages L h s _ _ = ok []"

fun record_samples :: "'h hdr_lib \<Rightarrow> LatencyHandler \<Rightarrow> stage list \<Rightarrow> LatencySample list \<Rightarrow> 'h option list \<Rightarrow> 'h option list res" where
  "record_samples L h stages [] ps = ok ps"
| "record_samples L h stages (s # ss) ps =
     rbind (record_stages L h s stages ps) (record_samples L h stages ss)"

fun print_stages :: "'h hdr_lib \<Rightarrow> stage list \<Rightarrow> 'h option list \<Rightarrow> string res" where
  "print_stages L ((title, a, b) # stages) (p # ps) =
     rbind (deref_hdr p) (\<lambda>q. rbind (print_stages L stages ps) (\<lambda>out. ok (print_hist L q title @ out)))"
| "print_stages L _ _ = ok []"

definition LatencyHandler_destroy :: "bool \<Rightarrow> 'h hdr_lib \<Rightarrow> LatencyHandler \<Rightarrow> string res" where
  "LatencyHandler_destroy diagnostics L h =
     (if sample_count h = 0 then ok (''LatencyHandler: no samples collected'' @ line_end)
      else let stages = histograms diagnostics;
               ps = map (\<lambda>_. hdr_init L 1 1000000000 5) stages
           in rbind (record_samples L h stages (drop LATENCY_SAMPLE_DROP (take (sample_count h) (samples h))) ps)
                (print_stages L stages))"

section \<open>Facts\<close>

text \<open>The value one sample contributes to a histogram.\<close>

definition stage_ns :: "rat \<Rightarrow> stage \<Rightarrow> LatencySample \<Rightarrow> int" where
  "stage_ns ticks st s = sint (snd (snd st) s - fst (snd st) s) sdiv \<lfloor>ticks\<rfloor>"

lemma calc_latency_ok: "1 \<le> ticks_per_ns h \<Longrightarrow> calc_latency h a b = ok (sint (b - a) sdiv \<lfloor>ticks_per_ns h\<rfloor>)"
  by (auto simp: calc_latency_def Let_def) linarith

lemma record_stages_ok:
  assumes "1 \<le> ticks_per_ns h" and "length hs = length stages"
  shows "record_stages L h s stages (map Some hs) =
     ok (map2 (\<lambda>st q. Some (hdr_record_value L q (stage_ns (ticks_per_ns h) st s))) stages hs)"
  using assms(2)
proof (induction stages arbitrary: hs)
  case (Cons st stages)
  obtain title a b where st: "st = (title, a, b)" by (metis prod.exhaust)
  from Cons.prems obtain q qs where "hs = q # qs" "length qs = length stages" by (cases hs) auto
  then show ?case using Cons.IH [of qs] calc_latency_ok [OF assms(1), of "a s" "b s"]
    by (simp add: st deref_hdr_def stage_ns_def)
qed simp

lemma record_samples_ok:
  assumes "1 \<le> ticks_per_ns h" and "length hs = length stages"
  shows "record_samples L h stages ss (map Some hs) =
     ok (map2 (\<lambda>st q. Some (foldl (hdr_record_value L) q (map (stage_ns (ticks_per_ns h) st) ss))) stages hs)"
  using assms(2)
proof (induction ss arbitrary: hs)
  case Nil
  then show ?case by (simp add: list_eq_iff_nth_eq)
next
  case (Cons s ss)
  let ?hs = "map2 (\<lambda>st q. hdr_record_value L q (stage_ns (ticks_per_ns h) st s)) stages hs"
  have "record_stages L h s stages (map Some hs) = ok (map Some ?hs)"
    using record_stages_ok [OF assms(1) Cons.prems] by (simp add: split_def o_def)
  moreover have "map2 (\<lambda>st q. Some (foldl (hdr_record_value L) q (map (stage_ns (ticks_per_ns h) st) ss))) stages ?hs
      = map2 (\<lambda>st q. Some (foldl (hdr_record_value L) q (map (stage_ns (ticks_per_ns h) st) (s # ss)))) stages hs"
    using Cons.prems by (simp add: list_eq_iff_nth_eq)
  ultimately show ?case using Cons.IH [of ?hs] Cons.prems by simp
qed

lemma print_stages_ok:
  "length qs = length stages \<Longrightarrow>
   print_stages L stages (map Some qs) = ok (concat (map2 (\<lambda>st q. print_hist L q (fst st)) stages qs))"
proof (induction stages arbitrary: qs)
  case (Cons st stages)
  obtain title a b where st: "st = (title, a, b)" by (metis prod.exhaust)
  from Cons.prems obtain q qs' where "qs = q # qs'" "length qs' = length stages" by (cases qs) auto
  then show ?case using Cons.IH [of qs'] by (simp add: st deref_hdr_def)
qed simp

lemma LatencyHandler_destroy_ok:
  assumes "1 \<le> ticks_per_ns h" and "sample_count h \<noteq> 0" and i: "hdr_init L 1 1000000000 5 = Some h0"
  shows "LatencyHandler_destroy diagnostics L h =
     ok (concat (map (\<lambda>st. print_hist L (foldl (hdr_record_value L) h0
         (map (stage_ns (ticks_per_ns h) st) (drop LATENCY_SAMPLE_DROP (taken h)))) (fst st)) (histograms diagnostics)))"
proof -
  let ?st = "histograms diagnostics" and ?ss = "drop LATENCY_SAMPLE_DROP (taken h)"
  let ?f = "\<lambda>st. foldl (hdr_record_value L) h0 (map (stage_ns (ticks_per_ns h) st) ?ss)"
  have "map2 (\<lambda>st q. Some (foldl (hdr_record_value L) q (map (stage_ns (ticks_per_ns h) st) ?ss))) ?st
      (map (\<lambda>_. h0) ?st) = map Some (map ?f ?st)"
    by (simp add: list_eq_iff_nth_eq)
  then have "record_samples L h ?st ?ss (map (\<lambda>_. Some h0) ?st) = ok (map Some (map ?f ?st))"
    using record_samples_ok [OF assms(1), of "map (\<lambda>_. h0) ?st" ?st L ?ss] by (simp add: o_def)
  moreover have "map2 (\<lambda>st q. print_hist L q (fst st)) ?st (map ?f ?st) = map (\<lambda>st. print_hist L (?f st) (fst st)) ?st"
    by (simp add: list_eq_iff_nth_eq)
  ultimately show ?thesis using assms(2) print_stages_ok [of "map ?f ?st" ?st L]
    by (simp add: LatencyHandler_destroy_def i Let_def taken_def)
qed

text \<open>Rounding down piece by piece loses less than one per piece.\<close>

lemma sum_of_divs:
  fixes ns :: "int list"
  assumes "0 < k"
  shows "sum_list (map (\<lambda>n. n div k) ns) \<le> sum_list ns div k
    \<and> sum_list ns div k \<le> sum_list (map (\<lambda>n. n div k) ns) + (int (length ns) - 1) + (if ns = [] then 1 else 0)"
proof (induction ns)
  case (Cons n ns)
  let ?S = "sum_list ns"
  have "(n + ?S) div k = n div k + ?S div k + (n mod k + ?S mod k) div k" by (rule div_add1_eq)
  moreover have "0 \<le> (n mod k + ?S mod k) div k" using assms by (simp add: pos_imp_zdiv_nonneg_iff)
  moreover have "(n mod k + ?S mod k) div k \<le> 1"
  proof -
    have "n mod k + ?S mod k < 2 * k" using pos_mod_bound [OF assms, of n] pos_mod_bound [OF assms, of ?S] by linarith
    then have "k * ((n mod k + ?S mod k) div k) < k * 2"
      using mult_div_mod_eq [of k "n mod k + ?S mod k"] pos_mod_sign [OF assms, of "n mod k + ?S mod k"] by linarith
    then show ?thesis using assms by simp
  qed
  moreover have "ns = [] \<Longrightarrow> (n mod k + ?S mod k) div k = 0" using assms by simp
  ultimately show ?case using Cons.IH by (cases "ns = []") auto
qed simp

lemma sdiv_nonneg: "0 \<le> (n :: int) \<Longrightarrow> 0 < k \<Longrightarrow> n sdiv k = n div k"
  by (cases "n = 0") (simp_all add: signed_divide_int_def sgn_if)

lemma sint_diff:
  assumes "uint a \<le> uint b" and "uint b - uint a < 2 ^ 63"
  shows "sint (b - a :: Timestamp) = uint b - uint a"
proof -
  have "uint (b - a) = uint b - uint a" using assms(1) uint_minus_simple_alt [of a b] by (simp add: word_le_def)
  then show ?thesis using assms by (simp add: sint_uint signed_take_bit_int_eq_self)
qed

text \<open>The stamps of a sample in the order of the pipeline.\<close>

definition stamps :: "LatencySample \<Rightarrow> Timestamp list" where
  "stamps s = [ls_t0 s, ls_t1 s, ls_t2 s, ls_t3 s, ls_t4 s, ls_t5 s, ls_t6 s, ls_t7 s]"

definition in_order :: "LatencySample \<Rightarrow> bool" where
  "in_order s \<longleftrightarrow> sorted (map uint (stamps s))"

lemma stage_diffs:
  assumes "in_order s" and "uint (ls_t7 s) - uint (ls_t0 s) < 2 ^ 63"
  shows "map (\<lambda>st. sint (snd (snd st) s - fst (snd st) s)) STAGES =
      map (\<lambda>(a, b). uint b - uint a) (zip (stamps s) (tl (stamps s)))"
    and "sint (ls_t7 s - ls_t0 s) = uint (ls_t7 s) - uint (ls_t0 s)"
  using assms by (simp_all add: STAGES_def stamps_def in_order_def sint_diff)

lemma stage_sums:
  assumes "in_order s" and "uint (ls_t7 s) - uint (ls_t0 s) < 2 ^ 63" and "1 \<le> ticks"
  shows "(\<forall>st \<in> set (histograms True). 0 \<le> stage_ns ticks st s)
     \<and> (\<Sum>st \<leftarrow> STAGES. stage_ns ticks st s) \<le> stage_ns ticks END_TO_END s
     \<and> stage_ns ticks END_TO_END s \<le> (\<Sum>st \<leftarrow> STAGES. stage_ns ticks st s) + 6"
proof -
  define k where "k = \<lfloor>ticks\<rfloor>"
  have k: "0 < k" using assms(3) by (simp add: k_def)
  define ds where "ds = map (\<lambda>st. sint (snd (snd st) s - fst (snd st) s)) STAGES"
  have ds: "ds = map (\<lambda>(a, b). uint b - uint a) (zip (stamps s) (tl (stamps s)))"
    unfolding ds_def by (rule stage_diffs(1) [OF assms(1,2)])
  have e: "sint (ls_t7 s - ls_t0 s) = sum_list ds"
    using stage_diffs(2) [OF assms(1,2)] by (simp add: ds stamps_def)
  have pos: "\<forall>d \<in> set ds. 0 \<le> d" using assms(1) by (auto simp: ds stamps_def in_order_def)
  have stage: "stage_ns ticks st s = sint (snd (snd st) s - fst (snd st) s) div k"
    if "0 \<le> sint (snd (snd st) s - fst (snd st) s)" for st
    using that k by (simp add: stage_ns_def k_def sdiv_nonneg)
  have E: "stage_ns ticks END_TO_END s = sum_list ds div k"
    using stage [of END_TO_END] e sum_list_nonneg [of ds] pos by (simp add: END_TO_END_def)
  have S: "map (\<lambda>st. stage_ns ticks st s) STAGES = map (\<lambda>d. d div k) ds"
    using stage pos by (auto simp: ds_def)
  have "\<forall>v \<in> set (map (\<lambda>st. stage_ns ticks st s) (histograms True)). 0 \<le> v"
    using E S pos k sum_list_nonneg [of ds] by (auto simp: histograms_def pos_imp_zdiv_nonneg_iff)
  then show ?thesis using E S sum_of_divs [OF k, of ds] by (simp add: ds STAGES_def stamps_def)
qed

section \<open>Properties\<close>

text \<open>
  The destructor prints, for each histogram of the build, the six percentiles of exactly the
  values of the first \<^verbatim>\<open>LATENCY_SAMPLE_COUNT\<close> pushed samples without the first
  \<^verbatim>\<open>LATENCY_SAMPLE_DROP\<close> of them, in the order they were pushed.
\<close>

theorem latency_report_correct:
  assumes "1 \<le> calibrate tsc1 wall1 tsc2 wall2" and "ss \<noteq> []" and "hdr_init L 1 1000000000 5 = Some h0"
  shows "LatencyHandler_destroy diagnostics L (fold push_sample ss (LatencyHandler_init tsc1 wall1 tsc2 wall2)) =
     ok (concat (map (\<lambda>st. print_hist L (foldl (hdr_record_value L) h0
         (map (stage_ns (calibrate tsc1 wall1 tsc2 wall2) st)
            (drop LATENCY_SAMPLE_DROP (take LATENCY_SAMPLE_COUNT ss)))) (fst st)) (histograms diagnostics)))"
proof -
  let ?n = "LatencyHandler_init tsc1 wall1 tsc2 wall2"
  let ?h = "fold push_sample ss ?n"
  have n: "lat_inv ?n" "length (samples ?n) = LATENCY_SAMPLE_COUNT" "taken ?n = []" "ticks_per_ns ?n = calibrate tsc1 wall1 tsc2 wall2"
    by (simp_all add: LatencyHandler_init_def LatencyHandler_new_def lat_inv_def taken_def)
  have t: "taken ?h = take LATENCY_SAMPLE_COUNT ss" "ticks_per_ns ?h = calibrate tsc1 wall1 tsc2 wall2"
    using push_samples_taken [OF n(1), of ss] n by simp_all
  have "taken ?h \<noteq> []" using assms(2) unfolding t(1) by (simp add: LATENCY_SAMPLE_COUNT_def)
  then have "sample_count ?h \<noteq> 0" by (auto simp: taken_def)
  then show ?thesis using LatencyHandler_destroy_ok [of ?h L h0 diagnostics] assms(1,3) t by simp
qed

text \<open>A histogram library for the examples: the values in order, with the exact percentile of rank one.\<close>

definition list_hdr :: "int list hdr_lib" where
  "list_hdr = \<lparr>hdr_init = \<lambda>lo hi digits. Some [], hdr_record_value = \<lambda>h v. h @ [v],
     hdr_value_at_percentile = \<lambda>h p. if h = [] then 0 else hd h\<rparr>"

theorem latency_report_correct_witness:
  "LatencyHandler_destroy False list_hdr
     (fold push_sample (replicate 100001 (sample_at 0 12345)) (LatencyHandler_init 0 0 300000000 100000000)) =
   ok (print_hist list_hdr [4115] ''begin read -> end write   (end-to-end)'')"
proof -
  have "calibrate 0 0 300000000 100000000 = 3" by (simp add: calibrate_def)
  then show ?thesis
    using latency_report_correct [of 0 0 300000000 100000000 "replicate 100001 (sample_at 0 12345)" list_hdr "[]" False]
    by (simp add: list_hdr_def histograms_def END_TO_END_def stage_ns_def LATENCY_SAMPLE_DROP_def LATENCY_SAMPLE_COUNT_def
        sample_at_def LatencySample_zero_def)
qed

text \<open>
  The conversion to nanoseconds divides by the truncated tick rate. A clock below one tick per
  nanosecond makes the destructor divide by zero at the first sample past the warm-up, even before
  it touches a histogram.
\<close>

lemma slow_clock_divides_by_zero:
  assumes "0 < ticks_per_ns h" and "ticks_per_ns h < 1" and "lat_inv h" and "LATENCY_SAMPLE_DROP < sample_count h"
  shows "LatencyHandler_destroy diagnostics L h = fail Division_By_Zero"
proof -
  have z: "\<lfloor>ticks_per_ns h\<rfloor> = 0" using assms(1,2) by linarith
  obtain s ss where "drop LATENCY_SAMPLE_DROP (take (sample_count h) (samples h)) = s # ss"
    using assms(3,4) by (cases "drop LATENCY_SAMPLE_DROP (take (sample_count h) (samples h))") (auto simp: lat_inv_def)
  then show ?thesis using assms(4) z
    by (simp add: LatencyHandler_destroy_def histograms_def END_TO_END_def calc_latency_def)
qed

text \<open>With no more samples than the warm-up drops, the report is that of empty histograms.\<close>

lemma short_run_reports_nothing:
  assumes "1 \<le> ticks_per_ns h" and "sample_count h \<noteq> 0" and "sample_count h \<le> LATENCY_SAMPLE_DROP"
    and "hdr_init L 1 1000000000 5 = Some h0"
  shows "LatencyHandler_destroy diagnostics L h =
     ok (concat (map (\<lambda>st. print_hist L h0 (fst st)) (histograms diagnostics)))"
  using LatencyHandler_destroy_ok [OF assms(1,2,4), of diagnostics] assms(3) by (simp add: taken_def)

text \<open>
  The reported number of nanoseconds against the real quotient of ticks and tick rate. The two
  truncations make it at most one too small, and too large by at most the fraction the tick rate
  loses, so never twice the real latency.
\<close>

theorem latency_error_bounded:
  assumes "1 \<le> ticks_per_ns h" and "0 \<le> sint (t2 - t1)"
  shows "\<exists>v. calc_latency h t1 t2 = ok v
     \<and> of_int (sint (t2 - t1)) / ticks_per_ns h - 1 < of_int v
     \<and> of_int v \<le> of_int (sint (t2 - t1)) / ticks_per_ns h * (ticks_per_ns h / of_int \<lfloor>ticks_per_ns h\<rfloor>)
     \<and> ticks_per_ns h / of_int \<lfloor>ticks_per_ns h\<rfloor> < 2"
proof -
  define n k r where "n = sint (t2 - t1)" and "k = \<lfloor>ticks_per_ns h\<rfloor>" and "r = ticks_per_ns h"
  have k: "1 \<le> k" "of_int k \<le> r" "r < of_int k + 1"
    using assms(1) floor_correct [of r] by (simp_all add: k_def r_def)
  have n: "0 \<le> n" using assms(2) by (simp add: n_def)
  have v: "n sdiv k = n div k" using n k(1) by (simp add: sdiv_nonneg)
  have 1: "of_int n / r - 1 < (of_int (n div k) :: rat)"
  proof -
    have "of_int n / r \<le> (of_int n / of_int k :: rat)" using n k by (intro divide_left_mono) auto
    then show ?thesis using floor_divide_of_int_eq [of n k, where 'a = rat] by linarith
  qed
  have 2: "(of_int (n div k) :: rat) \<le> of_int n / r * (r / of_int k)"
    using k floor_divide_of_int_eq [of n k, where 'a = rat] by simp linarith
  have 3: "r / of_int k < 2" using k by (simp add: divide_less_eq)
  show ?thesis using 1 2 3 calc_latency_ok [OF assms(1), of t1 t2] v unfolding n_def k_def r_def by auto
qed

theorem latency_error_bounded_witness:
  "\<exists>v. calc_latency (handler2 (39 / 10)) 100 4100 = ok v \<and> 4000 / (39 / 10 :: rat) - 1 < of_int v
     \<and> of_int v \<le> 4000 / (39 / 10 :: rat) * (39 / 10 / 3) \<and> (39 / 10 / 3 :: rat) < 2"
proof -
  have "\<lfloor>39 / 10 :: rat\<rfloor> = 3" by (simp add: floor_eq_iff)
  then show ?thesis using latency_error_bounded [of "handler2 (39 / 10)" 4100 100] by (simp add: handler2_def)
qed

definition sample8 :: "Timestamp list \<Rightarrow> LatencySample" where
  "sample8 ts = \<lparr>ls_t0 = ts ! 0, ls_t1 = ts ! 1, ls_t2 = ts ! 2, ls_t3 = ts ! 3, ls_t4 = ts ! 4, ls_t5 = ts ! 5,
     ls_t6 = ts ! 6, ls_t7 = ts ! 7\<rparr>"

text \<open>
  C40: the breakdown of a \<^verbatim>\<open>DIAGNOSTICS\<close> report. For a sample whose stamps follow each other, each of
  the seven stages has a latency that is not negative, and together they account for the end-to-end
  latency up to six nanoseconds of rounding.
\<close>

theorem stages_account_for_latency:
  assumes "in_order s" and "uint (ls_t7 s) - uint (ls_t0 s) < 2 ^ 63" and "1 \<le> ticks_per_ns h"
  shows "\<exists>total vs. calc_latency h (ls_t0 s) (ls_t7 s) = ok total
     \<and> list_all2 (\<lambda>(title, a, b) v. calc_latency h (a s) (b s) = ok v \<and> 0 \<le> v) STAGES vs
     \<and> sum_list vs \<le> total \<and> total \<le> sum_list vs + 6"
proof -
  let ?v = "\<lambda>st. stage_ns (ticks_per_ns h) st s"
  note k = stage_sums [OF assms]
  have v: "calc_latency h (a s) (b s) = ok (?v (title, a, b))" for title a b
    using calc_latency_ok [OF assms(3)] by (simp add: stage_ns_def)
  have "list_all2 (\<lambda>(title, a, b) v. calc_latency h (a s) (b s) = ok v \<and> 0 \<le> v) STAGES (map ?v STAGES)"
    using k v by (auto simp: list_all2_conv_all_nth histograms_def split: prod.splits) (metis nth_mem)
  moreover have "calc_latency h (ls_t0 s) (ls_t7 s) = ok (?v END_TO_END)" using v by (simp add: END_TO_END_def)
  ultimately show ?thesis using k by blast
qed

theorem stages_account_for_latency_witness:
  "\<exists>total vs. calc_latency (handler2 3) 100 135 = ok total \<and> length vs = 7
     \<and> sum_list vs \<le> total \<and> total \<le> sum_list vs + 6"
proof -
  have "in_order (sample8 [100, 105, 110, 115, 120, 125, 130, 135])" by (simp add: sample8_def in_order_def stamps_def)
  from stages_account_for_latency [OF this, of "handler2 3"]
  obtain total vs where "calc_latency (handler2 3) 100 135 = ok total" "length STAGES = length vs"
    "sum_list vs \<le> total" "total \<le> sum_list vs + 6"
    by (auto simp: sample8_def handler2_def dest: list_all2_lengthD)
  then show ?thesis by (intro exI [of _ total] exI [of _ vs]) (simp add: STAGES_def)
qed

end
