(* ===== verification/Diagnostics.thy ===== *)
theory Diagnostics
  imports Server_Threads Engine Latency_Report
begin

text \<open>
  The \<^verbatim>\<open>DIAGNOSTICS\<close> build: the functions of \<^verbatim>\<open>server.cpp\<close> and \<^verbatim>\<open>engine.cpp\<close> that read the time-stamp
  counter under \<^verbatim>\<open>#if DIAGNOSTICS\<close>, with these lines compiled in. Every reading of the counter is an
  argument: a loop reads it through \<open>clock\<close>, by the number of the iteration. Of \<^verbatim>\<open>executeRequest\<close> the
  request and the acknowledgement it builds are here; the rest of it is not conditional.

  Two things are shown of this build. Without the extra stamps its threads do exactly what the
  shipped ones do. With a counter that never runs backwards, the eight stamps of every recorded
  sample are in the order of the pipeline, which is what the report's stage breakdown relies on.
\<close>

section \<open>The inbound thread\<close>

definition process_frame_diag :: "Timestamp \<Rightarrow> Timestamp \<Rightarrow> InboundState \<Rightarrow> Server \<Rightarrow> InboundState \<times> Server" where
  "process_frame_diag t1 t2 st s =
     (let data = buf_view (read_buf st);
          st1 = st\<lparr>read_buf := advance INBOUND_BSIZE (read_buf st)\<rparr>
      in if take (length HEADER) data \<noteq> HEADER then (st1, push_error (is_fd st) MALFORMED_REQUEST s)
         else let msg = (decode_message (take 56 (drop (length HEADER) data)))
                          \<lparr>im_read_begin_tsc := is_read_begin_tsc st, im_recv_tsc := t1\<rparr>
              in if \<not> validate_message msg then (st1, push_error (is_fd st) INVALID_ORDER s)
                 else let msg' = msg\<lparr>im_server_push := t2\<rparr>
                      in (st1\<lparr>inbound := msg'\<rparr>,
                          s\<lparr>client_map := (client_map s)(im_client_id msg' \<mapsto> int (is_fd st)),
                            sv_in_ring := snd (ring_push (sv_in_ring s) msg')\<rparr>))"

lemma read_buf_process_frame_diag:
  "read_buf (fst (process_frame_diag t1 t2 st s)) = advance INBOUND_BSIZE (read_buf st)"
  "is_read_begin_tsc (fst (process_frame_diag t1 t2 st s)) = is_read_begin_tsc st"
  by (simp_all add: process_frame_diag_def Let_def)

text \<open>The readings for the frame number \<open>i\<close>: \<^verbatim>\<open>t1\<close> on entry to the loop's body, \<^verbatim>\<open>t2\<close> after validation.\<close>

function processRequest_diag :: "(nat \<Rightarrow> Timestamp) \<Rightarrow> nat \<Rightarrow> InboundState \<Rightarrow> Server \<Rightarrow> InboundState \<times> Server" where
  "processRequest_diag clock i st s =
     (if INBOUND_BSIZE \<le> buf_length (read_buf st)
      then (case process_frame_diag (clock (2 * i)) (clock (2 * i + 1)) st s of
              (st', s') \<Rightarrow> processRequest_diag clock (i + 1) st' s')
      else (st, s))"
  by pat_completeness auto
termination
proof (relation "measure (\<lambda>(clock, i, st, s). buf_length (read_buf st))", goal_cases)
  case (2 clock i st s st' s')
  then have "read_buf st' = advance INBOUND_BSIZE (read_buf st)" by (metis fst_conv read_buf_process_frame_diag(1))
  then show ?case using 2(1) buf_length_advance [of INBOUND_BSIZE "read_buf st"] by (simp add: INBOUND_BSIZE_def)
qed simp

declare processRequest_diag.simps [simp del]

section \<open>The engine\<close>

definition request_of_diag :: "Timestamp \<Rightarrow> OrderId \<Rightarrow> InboundMessage \<Rightarrow> OrderRequest" where
  "request_of_diag t3 oid msg =
     \<lparr>req_message_type = im_message_type msg, req_order_id = oid, req_client_id = im_client_id msg,
      req_side = im_side msg, req_type = im_order_type msg, req_price = im_price msg,
      req_quantity = im_quantity msg, req_recv_tsc = im_recv_tsc msg, req_server_push_tsc = im_server_push msg,
      req_engine_pop_tsc = t3\<rparr>"

definition ack_of_diag :: "Timestamp \<Rightarrow> Timestamp \<Rightarrow> OrderId \<Rightarrow> InboundMessage \<Rightarrow> Status \<Rightarrow> OutboundMessage" where
  "ack_of_diag t3 t4 oid msg st = OutboundMessage_zero
     \<lparr>om_read_begin_tsc := im_read_begin_tsc msg, om_recv_tsc := im_recv_tsc msg,
      om_server_push_tsc := im_server_push msg, om_engine_pop_tsc := t3, om_engine_push_tsc := t4,
      om_order_id := oid, om_client_id := im_client_id msg, om_message_type := im_message_type msg,
      om_status := st\<rparr>"

section \<open>The outbound thread\<close>

definition appendResponse_diag :: "Timestamp \<Rightarrow> OutboundState \<Rightarrow> OutboundState" where
  "appendResponse_diag t5 out =
     (case pop_outbound out of
        (msg, out1) \<Rightarrow>
          let out2 = out1\<lparr>write_buf := snd (buf_append (response_frame msg) (write_buf out1))\<rparr>;
              rec = (om_server_error msg = NONE \<and> om_message_type msg \<noteq> MATCH);
              e = \<lparr>pl_read_begin_tsc = om_read_begin_tsc msg, pl_recv_tsc = om_recv_tsc msg,
                   pl_server_push_tsc = om_server_push_tsc msg, pl_engine_pop_tsc = om_engine_pop_tsc msg,
                   pl_engine_push_tsc = om_engine_push_tsc msg, pl_server_pop = t5, pl_record = rec\<rparr>
          in push_latency e out2)"

text \<open>The two builds treat the write buffer and the staging ring alike, and so decide alike how far to go.\<close>

lemma appendResponse_diag_buffers:
  "write_buf (appendResponse_diag t5 out) = write_buf (appendResponse out)"
  "staging (appendResponse_diag t5 out) = staging (appendResponse out)"
  by (auto simp: appendResponse_diag_def appendResponse_def Let_def push_latency_def split: prod.splits)

function append_responses_diag :: "(nat \<Rightarrow> Timestamp) \<Rightarrow> nat \<Rightarrow> OutboundState \<Rightarrow> OutboundState" where
  "append_responses_diag clock i out =
     (if has_pending_outbound out \<and> has_room OUTBOUND_BSIZE (write_buf out)
      then append_responses_diag clock (i + 1) (appendResponse_diag (clock i) out) else out)"
  by pat_completeness auto
termination
proof (relation "measure (\<lambda>(clock, i, out). remaining_capacity (write_buf out))", goal_cases)
  case (2 clock i out)
  obtain msg out1 where p: "pop_outbound out = (msg, out1)" by fastforce
  then have w: "write_buf out1 = write_buf out" by (auto simp: pop_outbound_def split: option.splits prod.splits)
  have l: "buf_len (write_buf out) + length (response_frame msg) \<le> capacity (write_buf out)"
    using 2 by (simp add: has_room_def)
  show ?case using 2 p w overwrite_simps(1) [OF l]
    by (auto simp: appendResponse_diag_def Let_def push_latency_def remaining_capacity_def buf_append_def has_room_def OUTBOUND_BSIZE_def)
qed simp

declare append_responses_diag.simps [simp del]

definition sample_of :: "Timestamp \<Rightarrow> Timestamp \<Rightarrow> PendingLatency \<Rightarrow> LatencySample" where
  "sample_of t6 t7 e =
     \<lparr>ls_t0 = pl_read_begin_tsc e, ls_t1 = pl_recv_tsc e, ls_t2 = pl_server_push_tsc e, ls_t3 = pl_engine_pop_tsc e,
      ls_t4 = pl_engine_push_tsc e, ls_t5 = pl_server_pop e, ls_t6 = t6, ls_t7 = t7\<rparr>"

definition finishBatch_diag :: "Timestamp \<Rightarrow> Timestamp \<Rightarrow> OutboundState \<Rightarrow> LatencyHandler \<Rightarrow> OutboundState \<times> LatencyHandler" where
  "finishBatch_diag t6 t7 out h =
     (let recorded = filter pl_record (take (latency_count out) (latency_batch out));
          out1 = clear_latency_batch out
      in (out1\<lparr>write_buf := try_reset (write_buf out1)\<rparr>, fold push_sample (map (sample_of t6 t7) recorded) h))"

definition sendResponse_diag :: "Timestamp \<Rightarrow> send_calls \<Rightarrow> fd \<Rightarrow> OutboundState \<Rightarrow> Server \<Rightarrow> bool \<times> byte list \<times> OutboundState \<times> Server" where
  "sendResponse_diag t6 k f out s =
     (case send_loop (sc_errno k) (sc_sends k) (write_buf out) of
        (Send_Fatal, sent, b) \<Rightarrow> (False, sent, out\<lparr>write_buf := b\<rparr>, s)
      | (Send_Blocked, sent, b) \<Rightarrow>
          (True, sent, out\<lparr>write_buf := b\<rparr>,
           if \<not> epollout_armed s f
           then (case epoll_ctrl (sc_epoll_ok k) (epoll_out s) f EPOLL_CTL_ADD of
                   (rc, E) \<Rightarrow> s\<lparr>epoll_out := E, epollout_armed := (epollout_armed s)(f := (rc = 0))\<rparr>)
           else s)
      | (Send_Done, sent, b) \<Rightarrow>
          (case finishBatch_diag t6 (sc_tsc k) (out\<lparr>write_buf := b\<rparr>) (latency_handler s) of
             (out', h) \<Rightarrow> (True, sent, out', s\<lparr>latency_handler := h\<rparr>)))"

section \<open>Erasing the stamps\<close>

definition unstamp :: "InboundMessage \<Rightarrow> InboundMessage" where
  "unstamp m = m\<lparr>im_recv_tsc := 0, im_server_push := 0\<rparr>"

definition unstamp_out :: "OutboundMessage \<Rightarrow> OutboundMessage" where
  "unstamp_out m = m\<lparr>om_recv_tsc := 0, om_server_push_tsc := 0, om_engine_pop_tsc := 0, om_engine_push_tsc := 0\<rparr>"

definition unstamp_ring :: "InboundMessage RingBuffer \<Rightarrow> InboundMessage RingBuffer" where
  "unstamp_ring r = r\<lparr>buffer := map unstamp (buffer r)\<rparr>"

fun unstamp_inbound :: "InboundState \<times> Server \<Rightarrow> InboundState \<times> Server" where
  "unstamp_inbound (st, s) = (st\<lparr>inbound := unstamp (inbound st)\<rparr>, s\<lparr>sv_in_ring := unstamp_ring (sv_in_ring s)\<rparr>)"

definition erase_pending :: "PendingLatency \<Rightarrow> PendingLatency" where
  "erase_pending e = PendingLatency_zero\<lparr>pl_read_begin_tsc := pl_read_begin_tsc e, pl_record := pl_record e\<rparr>"

definition erase_out :: "OutboundState \<Rightarrow> OutboundState" where
  "erase_out out = out\<lparr>latency_batch := map erase_pending (latency_batch out)\<rparr>"

definition erase_sample :: "LatencySample \<Rightarrow> LatencySample" where
  "erase_sample s = LatencySample_zero\<lparr>ls_t0 := ls_t0 s, ls_t7 := ls_t7 s\<rparr>"

definition erase_handler :: "LatencyHandler \<Rightarrow> LatencyHandler" where
  "erase_handler h = h\<lparr>samples := map erase_sample (samples h)\<rparr>"

definition erase_server :: "Server \<Rightarrow> Server" where
  "erase_server s = s\<lparr>latency_handler := erase_handler (latency_handler s)\<rparr>"

lemma unstamp_push: "unstamp_ring (snd (ring_push r m)) = snd (ring_push (unstamp_ring r) (unstamp m))"
  by (simp add: unstamp_ring_def ring_push_def next_idx_def Let_def map_update)

lemma unstamp_selects [simp]:
  "im_read_begin_tsc (unstamp m) = im_read_begin_tsc m" "im_client_id (unstamp m) = im_client_id m"
  "im_message_type (unstamp m) = im_message_type m" "im_order_type (unstamp m) = im_order_type m"
  "im_side (unstamp m) = im_side m" "im_price (unstamp m) = im_price m" "im_quantity (unstamp m) = im_quantity m"
  "im_order_id (unstamp m) = im_order_id m"
  by (simp_all add: unstamp_def)

lemma validate_unstamp:
  "validate_message (m\<lparr>im_read_begin_tsc := t0, im_recv_tsc := t1\<rparr>) = validate_message (m\<lparr>im_read_begin_tsc := t0\<rparr>)"
  by (simp add: validate_message_def validate_new_def validate_cancel_def validate_modify_def)

text \<open>One frame: the two builds agree once the stamps are erased, on states that agree already.\<close>

lemma unstamp_process_frame:
  assumes "unstamp_inbound (st, s) = unstamp_inbound (st', s')"
  shows "unstamp_inbound (process_frame_diag t1 t2 st s) = unstamp_inbound (process_frame st' s')"
proof -
  have st: "st' = st\<lparr>inbound := inbound st'\<rparr>" and m: "unstamp (inbound st') = unstamp (inbound st)"
    using assms by (cases st; cases st'; simp)+
  have s: "s' = s\<lparr>sv_in_ring := sv_in_ring s'\<rparr>" and r: "unstamp_ring (sv_in_ring s') = unstamp_ring (sv_in_ring s)"
    using assms by (cases s; cases s'; simp)+
  have p: "unstamp_ring (snd (ring_push (sv_in_ring s) (x\<lparr>im_recv_tsc := t1, im_server_push := t2\<rparr>))) =
      unstamp_ring (snd (ring_push (sv_in_ring s') x))" for x
    using r by (simp add: unstamp_push) (simp add: unstamp_def)
  obtain mi ri where e: "st' = st\<lparr>inbound := mi\<rparr>" "s' = s\<lparr>sv_in_ring := ri\<rparr>" using st s by blast
  show ?thesis using m r p unfolding e
    by (auto simp: process_frame_diag_def process_frame_def Let_def validate_unstamp push_error_def) (simp add: unstamp_def)
qed

lemma unstamp_inbound_buf: "unstamp_inbound (st, s) = unstamp_inbound (st', s') \<Longrightarrow> read_buf st' = read_buf st"
  by (cases st; cases st'; simp)

lemma unstamp_processRequest:
  assumes "unstamp_inbound (st, s) = unstamp_inbound (st', s')"
  shows "unstamp_inbound (processRequest_diag clock i st s) = unstamp_inbound (processRequest st' s')"
  using assms
proof (induction clock i st s arbitrary: st' s' rule: processRequest_diag.induct)
  case (1 clock i st s)
  note b = unstamp_inbound_buf [OF 1(2)]
  show ?case
  proof (cases "INBOUND_BSIZE \<le> buf_length (read_buf st)")
    case True
    obtain st1 s1 where d: "process_frame_diag (clock (2 * i)) (clock (2 * i + 1)) st s = (st1, s1)" by fastforce
    obtain st2 s2 where p: "process_frame st' s' = (st2, s2)" by fastforce
    have "unstamp_inbound (st1, s1) = unstamp_inbound (st2, s2)"
      using unstamp_process_frame [OF 1(2)] d p by metis
    from 1(1) [OF True d [symmetric] this] show ?thesis
      using True b d p by (simp add: processRequest_diag.simps [of clock i st s] processRequest.simps [of st' s'])
  next
    case False
    then show ?thesis using b 1(2) by (simp add: processRequest_diag.simps [of clock i st s] processRequest.simps [of st' s'])
  qed
qed

lemma erase_push_latency: "erase_out (push_latency e out) = push_latency (erase_pending e) (erase_out out)"
  by (simp add: erase_out_def push_latency_def map_update)

lemma erase_out_selects [simp]:
  "write_buf (erase_out out) = write_buf out" "staging (erase_out out) = staging out"
  "latency_count (erase_out out) = latency_count out" "erase_out (out\<lparr>write_buf := b\<rparr>) = (erase_out out)\<lparr>write_buf := b\<rparr>"
  by (cases out; simp add: erase_out_def)+

lemma erase_appendResponse: "erase_out (appendResponse_diag t5 out) = appendResponse (erase_out out)"
proof -
  obtain msg out1 where p: "pop_outbound out = (msg, out1)" by fastforce
  then have "pop_outbound (erase_out out) = (msg, erase_out out1)"
    by (auto simp: pop_outbound_def erase_out_def split: option.splits prod.splits)
  with p show ?thesis
    by (simp add: appendResponse_diag_def appendResponse_def Let_def erase_push_latency) (simp add: erase_pending_def)
qed

lemma erase_append_responses: "erase_out (append_responses_diag clock i out) = append_responses (erase_out out)"
proof (induction clock i out rule: append_responses_diag.induct)
  case (1 clock i out)
  then show ?case
    by (simp add: append_responses_diag.simps [of clock i out] append_responses.simps [of "erase_out out"]
        has_pending_outbound_def erase_appendResponse)
qed

lemma erase_push_sample: "erase_handler (push_sample s h) = push_sample (erase_sample s) (erase_handler h)"
  by (cases h) (simp add: erase_handler_def push_sample_def map_update)

lemma erase_push_samples: "erase_handler (fold push_sample ss h) = fold push_sample (map erase_sample ss) (erase_handler h)"
  by (induction ss arbitrary: h) (simp_all add: erase_push_sample)

lemma erase_finishBatch:
  "map_prod erase_out erase_handler (finishBatch_diag t6 t7 out h) = finishBatch t7 (erase_out out) (erase_handler h)"
proof -
  have "map erase_sample (map (sample_of t6 t7) (filter pl_record es)) =
      map (\<lambda>e. LatencySample_zero\<lparr>ls_t0 := pl_read_begin_tsc e, ls_t7 := t7\<rparr>) (filter pl_record (map erase_pending es))" for es
    by (induction es) (simp_all add: erase_sample_def sample_of_def erase_pending_def)
  then show ?thesis
    by (simp add: finishBatch_diag_def finishBatch_def Let_def erase_push_samples clear_latency_batch_def take_map)
      (simp add: erase_out_def take_map)
qed

lemma erase_sendResponse:
  "(case sendResponse_diag t6 k f out s of (good, sent, out', s') \<Rightarrow> (good, sent, erase_out out', erase_server s')) =
   sendResponse k f (erase_out out) (erase_server s)"
proof -
  obtain status sent b where l: "send_loop (sc_errno k) (sc_sends k) (write_buf out) = (status, sent, b)" by (metis prod.exhaust)
  obtain out' h where f: "finishBatch_diag t6 (sc_tsc k) (out\<lparr>write_buf := b\<rparr>) (latency_handler s) = (out', h)" by fastforce
  have g: "finishBatch (sc_tsc k) ((erase_out out)\<lparr>write_buf := b\<rparr>) (erase_handler (latency_handler s)) = (erase_out out', erase_handler h)"
    using erase_finishBatch [of t6 "sc_tsc k" "out\<lparr>write_buf := b\<rparr>" "latency_handler s"] f by simp
  show ?thesis
    by (cases status) (simp_all add: sendResponse_diag_def sendResponse_def l f g erase_server_def split: prod.splits)
qed

section \<open>Stamps in order\<close>

text \<open>
  What is known of the stamps at a time \<open>now\<close> by which they have all been taken: of a request in the
  inbound ring, of an answer, and of an entry of the latency batch. Answers and entries that are not
  recorded, errors and matches, carry other stamps.
\<close>

definition in_stamped :: "Timestamp \<Rightarrow> InboundMessage \<Rightarrow> bool" where
  "in_stamped now m \<longleftrightarrow> sorted (map uint [im_read_begin_tsc m, im_recv_tsc m, im_server_push m, now])"

definition out_stamped :: "Timestamp \<Rightarrow> OutboundMessage \<Rightarrow> bool" where
  "out_stamped now m \<longleftrightarrow> (om_server_error m = NONE \<and> om_message_type m \<noteq> MATCH \<longrightarrow>
     sorted (map uint [om_read_begin_tsc m, om_recv_tsc m, om_server_push_tsc m, om_engine_pop_tsc m, om_engine_push_tsc m, now]))"

definition entry_stamped :: "Timestamp \<Rightarrow> PendingLatency \<Rightarrow> bool" where
  "entry_stamped now e \<longleftrightarrow> (pl_record e \<longrightarrow>
     sorted (map uint [pl_read_begin_tsc e, pl_recv_tsc e, pl_server_push_tsc e, pl_engine_pop_tsc e, pl_engine_push_tsc e,
       pl_server_pop e, now]))"

definition batch_stamped :: "Timestamp \<Rightarrow> OutboundState \<Rightarrow> bool" where
  "batch_stamped now out \<longleftrightarrow> (\<forall>m \<in> set (ring_contents (staging out)). out_stamped now m)
     \<and> (\<forall>e \<in> set (take (latency_count out) (latency_batch out)). entry_stamped now e)"

lemma stamped_later:
  assumes "uint now \<le> uint (later :: Timestamp)"
  shows "in_stamped now m \<Longrightarrow> in_stamped later m" "out_stamped now r \<Longrightarrow> out_stamped later r"
    "entry_stamped now e \<Longrightarrow> entry_stamped later e" "batch_stamped now out \<Longrightarrow> batch_stamped later out"
  using assms by (auto simp: in_stamped_def out_stamped_def entry_stamped_def batch_stamped_def)

text \<open>The engine's acknowledgement of a request it popped by \<open>t3\<close>.\<close>

lemma ack_stamped:
  "in_stamped t3 m \<Longrightarrow> uint t3 \<le> uint t4 \<Longrightarrow> out_stamped t4 (ack_of_diag t3 t4 oid m st)"
  by (auto simp: in_stamped_def out_stamped_def ack_of_diag_def)

text \<open>The counter never runs backwards: its readings lie in order between \<open>from\<close> and \<open>to\<close>.\<close>

definition ticking :: "Timestamp \<Rightarrow> (nat \<Rightarrow> Timestamp) \<Rightarrow> Timestamp \<Rightarrow> bool" where
  "ticking from clock to \<longleftrightarrow> (\<forall>j k. j \<le> k \<longrightarrow> uint from \<le> uint (clock j) \<and> uint (clock j) \<le> uint (clock k) \<and> uint (clock k) \<le> uint to)"

lemma tickingD:
  assumes "ticking from clock to"
  shows "uint from \<le> uint (clock j)" "uint (clock j) \<le> uint to" "j \<le> k \<Longrightarrow> uint (clock j) \<le> uint (clock k)"
  using assms unfolding ticking_def by blast+

lemma process_frame_stamped:
  assumes "ring_inv (sv_in_ring s)" and "\<forall>m \<in> set (ring_contents (sv_in_ring s)). in_stamped now m"
    and "sorted (map uint [is_read_begin_tsc st, t1, t2, now])"
  shows "ring_inv (sv_in_ring (snd (process_frame_diag t1 t2 st s)))
     \<and> (\<forall>m \<in> set (ring_contents (sv_in_ring (snd (process_frame_diag t1 t2 st s)))). in_stamped now m)"
proof -
  have p: "ring_inv (snd (ring_push (sv_in_ring s) m)) \<and> (\<forall>x \<in> set (ring_contents (snd (ring_push (sv_in_ring s) m))). in_stamped now x)"
    if "in_stamped now m" for m
    using that assms(1,2) ring.inv_push [OF assms(1), of m] ring.contents_push [OF assms(1), of m]
    by (metis Un_iff empty_iff empty_set in_set_takeD set_ConsD set_append)
  have "sv_in_ring (snd (process_frame_diag t1 t2 st s)) = sv_in_ring s
     \<or> (\<exists>m. sv_in_ring (snd (process_frame_diag t1 t2 st s)) = snd (ring_push (sv_in_ring s)
            (m\<lparr>im_read_begin_tsc := is_read_begin_tsc st, im_recv_tsc := t1, im_server_push := t2\<rparr>)))"
    by (auto simp: process_frame_diag_def Let_def push_error_def)
  moreover have "in_stamped now (m\<lparr>im_read_begin_tsc := is_read_begin_tsc st, im_recv_tsc := t1, im_server_push := t2\<rparr>)" for m
    using assms(3) by (simp add: in_stamped_def)
  ultimately show ?thesis using assms(1,2) p by metis
qed

lemma processRequest_stamped:
  assumes "ring_inv (sv_in_ring s)" and "\<forall>m \<in> set (ring_contents (sv_in_ring s)). in_stamped now m"
    and "ticking (is_read_begin_tsc st) clock now"
  shows "ring_inv (sv_in_ring (snd (processRequest_diag clock i st s)))
     \<and> (\<forall>m \<in> set (ring_contents (sv_in_ring (snd (processRequest_diag clock i st s)))). in_stamped now m)"
  using assms
proof (induction clock i st s rule: processRequest_diag.induct)
  case (1 clock i st s)
  show ?case
  proof (cases "INBOUND_BSIZE \<le> buf_length (read_buf st)")
    case True
    obtain st1 s1 where d: "process_frame_diag (clock (2 * i)) (clock (2 * i + 1)) st s = (st1, s1)" by fastforce
    have t: "sorted (map uint [is_read_begin_tsc st, clock (2 * i), clock (2 * i + 1), now])"
      using tickingD [OF 1(4), of "2 * i"] tickingD [OF 1(4), of "2 * i + 1"] tickingD(3) [OF 1(4), of "2 * i" "2 * i + 1"] by auto
    have "is_read_begin_tsc st1 = is_read_begin_tsc st" using d by (metis fst_conv read_buf_process_frame_diag(2))
    with process_frame_stamped [OF 1(2,3) t] 1(1) [OF True d [symmetric]] 1(4) d True show ?thesis
      by (simp add: processRequest_diag.simps [of clock i st s])
  next
    case False
    then show ?thesis using 1(2,3) by (simp add: processRequest_diag.simps [of clock i st s])
  qed
qed

lemma batch_inv_erase [simp]: "batch_inv (erase_out out) \<longleftrightarrow> batch_inv out"
  by (simp add: batch_inv_def out_inv_def erase_out_def)

lemma appendResponse_stamped:
  assumes "batch_inv out" and "batch_stamped now out" and "uint now \<le> uint t5" and "has_pending_outbound out"
    and "has_room OUTBOUND_BSIZE (write_buf out)"
  shows "batch_inv (appendResponse_diag t5 out)" and "batch_stamped t5 (appendResponse_diag t5 out)"
proof -
  have "batch_inv (erase_out (appendResponse_diag t5 out))"
    using appendResponse_batch [of "erase_out out"] assms by (simp add: erase_appendResponse has_pending_outbound_def)
  then show "batch_inv (appendResponse_diag t5 out)" by simp
  have I: "out_inv out" using assms(1) by (simp add: batch_inv_def)
  then obtain msg msgs where c: "ring_contents (staging out) = msg # msgs"
    using has_pending_iff assms(4) by (cases "ring_contents (staging out)") auto
  obtain out1 where p: "pop_outbound out = (msg, out1)" "ring_contents (staging out1) = msgs"
    "latency_count out1 = latency_count out" "latency_batch out1 = latency_batch out"
    using pop_outbound_front [OF I c] by blast
  have B: "batch_stamped t5 out" using stamped_later(4) [OF assms(3,2)] .
  have m: "out_stamped now msg" using assms(2) c by (simp add: batch_stamped_def)
  show "batch_stamped t5 (appendResponse_diag t5 out)"
    using B c p m assms(3) by (auto simp: appendResponse_diag_def Let_def push_latency_def batch_stamped_def
        take_Suc_conv_app_nth entry_stamped_def out_stamped_def)
qed

lemma append_responses_stamped:
  assumes "batch_inv out" and "batch_stamped now out" and "ticking from clock to" and "uint now \<le> uint (clock i)"
  shows "batch_inv (append_responses_diag clock i out) \<and> batch_stamped to (append_responses_diag clock i out)"
  using assms
proof (induction clock i out arbitrary: now rule: append_responses_diag.induct)
  case (1 clock i out)
  show ?case
  proof (cases "has_pending_outbound out \<and> has_room OUTBOUND_BSIZE (write_buf out)")
    case True
    note a = appendResponse_stamped [OF 1(2,3,5)]
    from 1(1) [OF True a 1(4)] tickingD(3) [OF 1(4), of i "i + 1"] True show ?thesis
      by (simp add: append_responses_diag.simps [of clock i out])
  next
    case False
    have "uint now \<le> uint to" using 1(5) tickingD(2) [OF 1(4), of i] by linarith
    then show ?thesis using False 1(2) stamped_later(4) [OF _ 1(3)]
      by (auto simp: append_responses_diag.simps [of clock i out])
  qed
qed

lemma finishBatch_stamped:
  assumes "batch_stamped t6 out" and "uint t6 \<le> uint t7" and "lat_inv h" and "\<forall>x \<in> set (taken h). in_order x"
    and "finishBatch_diag t6 t7 out h = (out', h')"
  shows "lat_inv h' \<and> (\<forall>x \<in> set (taken h'). in_order x)"
proof -
  define ss where "ss = map (sample_of t6 t7) (filter pl_record (take (latency_count out) (latency_batch out)))"
  have "\<forall>x \<in> set ss. in_order x"
    using assms(1,2) by (auto simp: ss_def batch_stamped_def entry_stamped_def in_order_def stamps_def sample_of_def)
  moreover have "h' = fold push_sample ss h" using assms(5) by (auto simp: finishBatch_diag_def Let_def ss_def)
  ultimately show ?thesis using push_samples_taken [OF assms(3), of ss] assms(4) by (auto dest: in_set_takeD)
qed

lemma sendResponse_stamped:
  assumes "batch_stamped t6 out" and "uint t6 \<le> uint (sc_tsc k)" and "lat_inv (latency_handler s)"
    and "\<forall>x \<in> set (taken (latency_handler s)). in_order x" and "sendResponse_diag t6 k f out s = (good, sent, out', s')"
  shows "lat_inv (latency_handler s') \<and> (\<forall>x \<in> set (taken (latency_handler s')). in_order x)"
proof -
  obtain status sn b where l: "send_loop (sc_errno k) (sc_sends k) (write_buf out) = (status, sn, b)" by (metis prod.exhaust)
  obtain o2 h where f: "finishBatch_diag t6 (sc_tsc k) (out\<lparr>write_buf := b\<rparr>) (latency_handler s) = (o2, h)" by fastforce
  have "batch_stamped t6 (out\<lparr>write_buf := b\<rparr>)" using assms(1) by (simp add: batch_stamped_def)
  note g = finishBatch_stamped [OF this assms(2,3,4) f]
  show ?thesis using assms(3,4,5) g
    by (cases status) (auto simp: sendResponse_diag_def l f split: prod.splits if_splits)
qed

section \<open>Properties\<close>

text \<open>
  C38: the stamps are all that a \<^verbatim>\<open>DIAGNOSTICS\<close> build adds. With them erased, the inbound loop, the
  acknowledgement, the filling of the write buffer and the send do what the shipped build does: the
  same messages and errors, the same bytes, the same buffers, the same samples in \<^verbatim>\<open>t0\<close> and \<^verbatim>\<open>t7\<close>.
\<close>

theorem diagnostics_transparent:
  "unstamp_inbound (processRequest_diag clock i st s) = unstamp_inbound (processRequest st s)
   \<and> unstamp_out (ack_of_diag t3 t4 oid msg res) = ack_of oid msg res
   \<and> erase_out (append_responses_diag clock i out) = append_responses (erase_out out)
   \<and> (case sendResponse_diag t6 k f out s of (good, sent, out', s') \<Rightarrow> (good, sent, erase_out out', erase_server s')) =
      sendResponse k f (erase_out out) (erase_server s)"
  using unstamp_processRequest [OF refl] erase_append_responses erase_sendResponse
  by (simp add: unstamp_out_def ack_of_diag_def ack_of_def OutboundMessage_zero_def)


text \<open>A request read at 10, 11 and 12, popped at 20, acknowledged at 21, appended at 30 and sent at 40.\<close>

definition request11 :: InboundMessage where
  "request11 = InboundMessage_zero\<lparr>im_read_begin_tsc := 10, im_recv_tsc := 11, im_server_push := 12\<rparr>"

definition gateway11 :: Server where
  "gateway11 = server5\<lparr>sv_in_ring := snd (ring_push (ring_of InboundMessage_zero) request11)\<rparr>"

definition answers11 :: OutboundState where
  "answers11 = push_outbound (ack_of_diag 20 21 0 request11 SUCCESS) OutboundState_new"

definition calls11 :: send_calls where
  "calls11 = \<lparr>sc_errno = EAGAIN, sc_sends = [Sent 32], sc_epoll_ok = True, sc_tsc = 41\<rparr>"

lemma gateway11_ring:
  "ring_inv (sv_in_ring gateway11)" "ring_contents (sv_in_ring gateway11) = [request11]"
  using ring.inv_push [OF ring_of_inv, of InboundMessage_zero request11]
    ring.contents_push [OF ring_of_inv, of InboundMessage_zero request11]
  by (simp_all add: gateway11_def ring_of_contents) (simp add: ring_of_def ring_cap_def)

lemma acked11: "\<exists>t3 t4 oid res. ack_of_diag 20 21 0 request11 SUCCESS = ack_of_diag t3 t4 oid request11 res
    \<and> sorted (map uint [15, t3, t4, 25])"
  by (rule exI [of _ 20], rule exI [of _ 21], rule exI [of _ 0], rule exI [of _ SUCCESS]) simp

definition entry11 :: PendingLatency where
  "entry11 = \<lparr>pl_read_begin_tsc = 10, pl_recv_tsc = 11, pl_server_push_tsc = 12, pl_engine_pop_tsc = 20,
     pl_engine_push_tsc = 21, pl_server_pop = 30, pl_record = True\<rparr>"

lemma appended11:
  defines "A \<equiv> append_responses_diag (\<lambda>_. 30) 0 answers11"
  shows "latency_count A = 1" "take 1 (latency_batch A) = [entry11]" "remaining_to_send (write_buf A) = 32"
proof -
  let ?m = "ack_of_diag 20 21 0 request11 SUCCESS"
  have I: "out_inv answers11" unfolding answers11_def by (rule push_outbound_inv [OF OutboundState_new_inv])
  have c: "ring_contents (staging answers11) = [?m]"
    using push_outbound_contents [OF OutboundState_new_inv, of ?m] staging_new by (simp add: answers11_def)
  obtain out1 where p: "pop_outbound answers11 = (?m, out1)" "out_inv out1" "ring_contents (staging out1) = []"
    "write_buf out1 = write_buf answers11" "latency_count out1 = latency_count answers11" "latency_batch out1 = latency_batch answers11"
    using pop_outbound_front [OF I c] by blast
  have w: "write_buf answers11 = Buffer_new 1024" "latency_count answers11 = 0" "latency_batch answers11 = replicate 32 PendingLatency_zero"
    by (simp_all add: answers11_def push_outbound_def OutboundState_new_def PIPELINE_DEPTH_def OUTBOUND_BSIZE_def)
  have e: "appendResponse_diag 30 answers11 = push_latency entry11 (out1\<lparr>write_buf := snd (buf_append (response_frame ?m) (Buffer_new 1024))\<rparr>)"
    using p(1,4) w(1) by (simp add: appendResponse_diag_def Let_def)
      (simp add: entry11_def ack_of_diag_def OutboundMessage_zero_def request11_def InboundMessage_zero_def enum_defs)
  have "\<not> has_pending_outbound (appendResponse_diag 30 answers11)"
    using has_pending_iff [OF p(2)] p(3) unfolding e by (simp add: push_latency_def has_pending_outbound_def)
  moreover have "has_pending_outbound answers11" using has_pending_iff [OF I] c by simp
  moreover have "has_room OUTBOUND_BSIZE (write_buf answers11)" by (simp add: w Buffer_new_def has_room_def OUTBOUND_BSIZE_def)
  ultimately have A: "A = appendResponse_diag 30 answers11"
    by (simp add: A_def append_responses_diag.simps [of _ 0] append_responses_diag.simps [of _ "Suc 0"])
  show "latency_count A = 1" "take 1 (latency_batch A) = [entry11]" "remaining_to_send (write_buf A) = 32"
    unfolding A e using p(5,6) w
    by (simp_all add: push_latency_def buf_append_def Buffer_new_def has_room_def remaining_to_send_def take_Suc_conv_app_nth OUTBOUND_BSIZE_def)
qed

lemma send_loop11:
  "remaining_to_send b = 32 \<Longrightarrow>
   send_loop EAGAIN [Sent 32] b = (Send_Done, kernel_takes (Sent 32) b, b\<lparr>bytes_written := bytes_written b + 32\<rparr>)"
  by (simp add: write_to_def) (simp add: remaining_to_send_def)


end
