(* ===== verification/Spec2Isabelle.thy ===== *)
theory Spec2Isabelle
  imports Book_Properties Book_Observers Exchange Exchange_App Client_Main Client_Descriptors Ring_Concurrent Trade_Log Diagnostics
begin

text \<open>
  A verification library for the Client-Exchange-Simulation: a matching engine with a TCP gateway
  (\<^verbatim>\<open>src/exchange\<close>), the load generator that drives it (\<^verbatim>\<open>src/client\<close>), and the types and wire
  format they share (\<^verbatim>\<open>src/infra\<close>).

  \<^bold>\<open>The program.\<close> A client connection keeps up to 32 requests in flight. The server's inbound thread
  reads its bytes, cuts them into 72-byte frames, validates each and pushes it onto a ring; the
  engine's matching thread pops requests from that ring, assigns order ids, executes them on a
  limit order book with price-time priority and pushes acknowledgements and MATCH messages onto a
  second ring; the server's outbound thread routes these to the connection each client was last
  seen on, frames them in 32 bytes and sends them. A connection is closed in two phases, because
  each thread owns half of its state. The rings are bounded, single-producer, single-consumer.

  \<^bold>\<open>The theories and the code they model.\<close>

  \<^item> \<open>Exchange_Prelude\<close>: faults and results. A computation is an \<open>option\<close> (\<open>None\<close>: a loop that does not
    return) of a sum (\<open>Inl\<close>: undefined behaviour or an exception). Step relations with an invariant, as a
    locale. Facts on words and lists.
  \<^item> \<open>Order_Types\<close>: \<^verbatim>\<open>infra/order_types.hpp\<close>, \<^verbatim>\<open>infra/communication_types.hpp\<close>. Words of the source's widths;
    wire enums are bytes, since any byte can arrive.
  \<^item> \<open>Ring_Buffer\<close>: \<^verbatim>\<open>exchange/include/ring_buffer.hpp\<close>. The contract of a bounded queue is a locale,
    interpreted on the ring. \<open>Ring_Concurrent\<close> takes \<^verbatim>\<open>push\<close> and \<^verbatim>\<open>pop\<close> apart into their memory accesses, with stale
    index values as the acquire and release orders allow, and shows that they are atomic.
  \<^item> \<open>Order_Pool\<close>, \<open>Price_Level_Queue\<close>: \<^verbatim>\<open>order.hpp\<close>, \<^verbatim>\<open>order_request.hpp\<close>, \<^verbatim>\<open>order_pool.hpp\<close>,
    \<^verbatim>\<open>price_level_queue.hpp\<close>. Pointers are slots of an arena; a level is a doubly linked list in it.
  \<^item> \<open>Orderbook\<close>: \<^verbatim>\<open>orderbook.hpp\<close> and \<^verbatim>\<open>orderbook.cpp\<close>, every operation, over the arena. The matching
    loops are partial functions.
  \<^item> \<open>Orderbook_Spec\<close>, \<open>Price_Time_Laws\<close>, \<open>Book_Contract\<close>: the abstract price-time-priority book on
    sorted lists, its laws, and the contract of a book as a locale.
  \<^item> \<open>Orderbook_Rep\<close>, \<open>Orderbook_Refine\<close>, \<open>Orderbook_Match\<close>, \<open>Orderbook_Process\<close>: the representation relation
    between arena and lists (levels, index, pool, cached best prices), and the refinement of each
    operation; \<open>Orderbook_Process\<close> interprets the contract on the program's book.
  \<^item> \<open>Book_Properties\<close>: the properties of the book. \<open>Book_Observers\<close>: the accessors of a \<^verbatim>\<open>TESTING\<close> build, against the
    abstract book. \<open>Trade_Log\<close>: \<^verbatim>\<open>trade.hpp\<close>, and what \<^verbatim>\<open>LOGGING\<close> adds: every function of the book that can
    trade, with the log of its trades, and the thread of the engine that prints them.
  \<^item> \<open>Validation\<close>: \<^verbatim>\<open>server/include/validation.hpp\<close>.
  \<^item> \<open>Engine\<close>: \<^verbatim>\<open>engine.hpp\<close>, \<^verbatim>\<open>engine.cpp\<close>. The matching thread with its one-ahead pipeline is a step
    relation interleaved with the gateway's pushes.
  \<^item> \<open>Buffer\<close>, \<open>Protocol\<close>: \<^verbatim>\<open>infra/buffer.hpp\<close>, \<^verbatim>\<open>infra/protocol.hpp\<close> and the byte layouts of
    \<^verbatim>\<open>frame_message\<close>, \<^verbatim>\<open>processRequest\<close>, \<^verbatim>\<open>appendResponse\<close> and \<^verbatim>\<open>handleReadable\<close>. The byte queue is a locale
    with two interpretations, the read and the write path of a buffer.
  \<^item> \<open>Latency\<close>, \<open>Latency_Report\<close>, \<open>Connection\<close>: \<^verbatim>\<open>server/include/latency.hpp\<close> from the calibration to the printed
    percentiles, \<^verbatim>\<open>connection_info.hpp\<close>, \<^verbatim>\<open>connection_info.cpp\<close>. \<open>Diagnostics\<close>: what \<^verbatim>\<open>DIAGNOSTICS\<close> adds to \<^verbatim>\<open>server.cpp\<close> and
    \<^verbatim>\<open>engine.cpp\<close>, the time stamps a request collects on its way.
  \<^item> \<open>Server_State\<close>, \<open>Server_Inbound\<close>, \<open>Server_Outbound\<close>: \<^verbatim>\<open>server.hpp\<close>, \<^verbatim>\<open>server.cpp\<close>. The first has the
    members, \<^verbatim>\<open>epoll_ctrl\<close>, \<^verbatim>\<open>condemnConnection\<close> and both disconnect scans (a locale of scans,
    interpreted on each); the others have one thread each, from the system calls to the event loop.
  \<^item> \<open>Server_Threads\<close>, \<open>Server_Loops\<close>: the interleavings of the two threads and the properties of the
    server; the event loops as runs of the step relation.
  \<^item> \<open>Socket\<close>: \<^verbatim>\<open>socket.hpp\<close>, over a kernel that has a table of open descriptors and interest lists. The owner
    of a descriptor is a locale, interpreted on sockets, server slots, epoll instances and clients.
    \<open>Server_Setup\<close>: the server from its constructor to its destructor, seen from its descriptors.
  \<^item> \<open>Order_Factory\<close>, \<open>Load_Generator\<close>: \<^verbatim>\<open>order_factory.hpp\<close>, \<^verbatim>\<open>client_state.hpp\<close>, \<^verbatim>\<open>load_generator.hpp\<close>,
    \<^verbatim>\<open>load_generator.cpp\<close>.
  \<^item> \<open>Client_Pipeline\<close>, \<open>Client_Loop\<close>: the pipeline of a connection as a queue and the properties of the
    client; the event loop over all clients. \<open>Client_Descriptors\<close>: its sockets. \<open>Client_Main\<close>: \<^verbatim>\<open>client/app/main.cpp\<close> and the life of the generator.
  \<^item> \<open>Exchange\<close>: \<^verbatim>\<open>app/exchange.hpp\<close>, \<^verbatim>\<open>app/exchange.cpp\<close>: engine and server around the shared rings, and
    the end-to-end property. \<open>Exchange_App\<close>: \<^verbatim>\<open>app/main.cpp\<close>, \<^verbatim>\<open>run\<close> and \<^verbatim>\<open>stop\<close>, the start and the end of all
    threads, \<^verbatim>\<open>lib.hpp\<close>.
  \<^item> this theory: the properties of the engine, which span the book, the rings and the validation.

  \<^bold>\<open>What is shown.\<close> The order book refines the abstract book, so price and time priority, conservation
  of volume, uniqueness of ids and the accounting of the pool hold of the linked lists; matching
  terminates; a book fed with ladder prices never faults and is never crossed. The matching thread
  executes every accepted request exactly once, in order. The bytes a client sends are cut into
  frames independently of how the network cuts them, and the bytes it gets are the response frames
  in order, whatever the partial sends; the two-phase close never leaves a half-open slot behind
  and completes; the client keeps its pipeline inside its bounds and attributes responses to
  requests in order. The event loops of the server threads and of the load generator return from
  every round, without a fault, for every sequence of kernel answers. \<open>requests_answered_end_to_end\<close> composes server, engine and book: a batch of frames off
  the wire becomes exactly the response frames of the abstract engine. The rings' accesses are free of data races; no
  descriptor leaks or is closed twice, in the server or in the client, whichever system call fails; a signal ends the
  exchange. Neither of the optional builds changes what the program does: logging leaves trading alone and
  records exactly the trades that are reported to the clients, and the diagnostics build does the same as the shipped
  one but for its stamps, which are in the order of the pipeline, so that its seven stage latencies add up to the
  end-to-end latency. A group of lemmas shows where the code
  falls short of its intent: prices above the ladder pass validation, market orders of quantity
  zero go unanswered, an exhausted pool is reported as success, a failed request is reported as OK
  on the wire, an end of stream is recognised by a stale \<^verbatim>\<open>errno\<close>, MATCH answers leak pipeline slots, a
  failed set-up leaves the main thread asleep, the client prints its requests in flight negated.

  \<^bold>\<open>The environment.\<close> Results of system calls, clock readings, random draws, the functions of the
  histogram library and the iteration order of hash sets are arguments. What the code relies on is stated where it is
  used: \<open>recv_ok\<close>, \<open>recvs_ok\<close>, \<open>send_ok\<close>, \<open>sends_ok\<close> (the kernel transfers between one byte and the bytes
  asked for), and a descriptor returned by \<^verbatim>\<open>accept\<close> is not open already (\<open>accepts_fresh\<close>).

  \<^bold>\<open>Bounds and fuel.\<close> \<open>engine_step\<close> takes fuel; more fuel than the ring has messages is shown to
  be enough. Every other loop is a total function or a partial function shown to return. The pool
  size is a parameter, \<^verbatim>\<open>PREALLOCATION_COUNT\<close> in the program. Doubles are rationals. The configuration is
  the shipped one, \<^verbatim>\<open>LOGGING\<close>, \<^verbatim>\<open>DIAGNOSTICS\<close> and \<^verbatim>\<open>TESTING\<close> off, in every theory but \<open>Trade_Log\<close>, \<open>Diagnostics\<close> and
  \<open>Book_Observers\<close>, which have one of them on. Each push and pop of a ring is one atomic step
  in every theory but \<open>Ring_Concurrent\<close>, whose theorems justify it. The destructor of the server is modelled for
  threads that have returned; the members are declared in an order that does not ensure it.

  \<^bold>\<open>Not modelled.\<close> Prefetch hints, which have no effect; the random engine and the inside of the histogram library
  (parameters); in a diagnostics build, the two further stamps of a resting order, which only reach MATCH
  messages, whose stamps nobody reads; the commented-out generation of malformed frames; the unsynchronised
  access of the two server threads to the hash map of clients, which has no defined behaviour to model. What is
  left of the sources are declarations, deleted members and accessors that are record fields here.
\<close>

section \<open>The engine\<close>

definition in_ring4 :: "InboundMessage RingBuffer" where
  "in_ring4 = \<lparr>write_idx = 0, read_idx = 0, buffer = replicate 4 InboundMessage_zero, rb_mask = 3\<rparr>"

definition msg_at :: "MessageType \<Rightarrow> OrderId \<Rightarrow> Side \<Rightarrow> OrderType \<Rightarrow> Price \<Rightarrow> Quantity \<Rightarrow> InboundMessage" where
  "msg_at t oid s ty p q = InboundMessage_zero
     \<lparr>im_order_id := oid, im_client_id := 1, im_price := p, im_quantity := q, im_message_type := t,
      im_side := s, im_order_type := ty\<rparr>"

definition engine4 :: Engine where "engine4 = Engine_new 4 in_ring4 ring8"

lemma in_ring4_inv: "ring_inv in_ring4" and in_ring4_contents: "ring_contents in_ring4 = []"
proof -
  have "ring_log in_ring4 2" by (simp add: ring_log_def in_ring4_def mask_eq_pow)
  then show "ring_inv in_ring4" by (auto simp: ring_inv_def)
  show "ring_contents in_ring4 = []" by (simp add: ring_contents_def ring_used_def in_ring4_def)
qed

lemma engine4_as: "engine_as engine4 empty4 0"
  unfolding engine4_def empty4_def by (rule Engine_new_as)

text \<open>The run that pushes one message and lets the thread pop and execute it.\<close>

lemma sample_run:
  assumes "msg_ok msg"
  shows "\<exists>m. matching_run (Matching_new engine4) [msg] [msg] m"
proof -
  let ?m0 = "Matching_new engine4"
  obtain okp r where p: "ring_push (in_ring (engine ?m0)) msg = (okp, r)" by fastforce
  have in4: "in_ring (engine ?m0) = in_ring4" by (simp add: Matching_new_def engine4_def Engine_new_def)
  have "length (ring_contents in_ring4) < ring_cap in_ring4"
    unfolding in_ring4_contents by (simp add: ring_cap_def in_ring4_def)
  from ring.push_room [OF in_ring4_inv this, of msg] ring.inv_push [OF in_ring4_inv, of msg]
  have r: "okp" "ring_contents r = [msg]" "ring_inv r" using p in_ring4_contents unfolding in4 by simp_all
  have 1: "matching_run ?m0 [msg] [] (set_in_ring r ?m0)"
    using matching_run.gateway [OF matching_run.start p] r(1) by simp
  define m1 where "m1 = loop_head False (set_in_ring r ?m0)"
  have 2: "matching_run ?m0 [msg] [] m1"
    unfolding m1_def by (rule matching_run.head [OF 1]) (simp add: Matching_new_def)
  obtain r1 where r1: "ring_pop r = (Some msg, r1)" "ring_contents r1 = []" "ring_inv r1"
    using ring.pop_front [OF r(3,2)] ring.inv_pop [OF r(3)] by (metis prod.collapse)
  have m1: "pc_at m1 = Fetch_Next" "cur m1 = msg" "in_ring (engine m1) = r1" "book (engine m1) = book engine4"
    "next_id (engine m1) = next_id engine4"
    using r1 by (simp_all add: m1_def loop_head_def Matching_new_def)
  define m2 where "m2 = fetch_next m1"
  have 3: "matching_run ?m0 [msg] [] m2" unfolding m2_def by (rule matching_run.fetch [OF 2 m1(1)])
  have "ring_pop r1 = (None, r1)" using ring.pop_empty [OF r1(3,2)] .
  then have m2: "pc_at m2 = Run_Current False" "cur m2 = msg" "engine_as (engine m2) empty4 0"
    using m1 engine4_as by (simp_all add: m2_def fetch_next_def engine_as_def)
  obtain m3 where m3: "run_current False m2 = ok m3" using run_current_ok [OF m2(3)] m2(2) assms by auto
  have "matching_run ?m0 [msg] ([] @ [cur m2]) m3" by (rule matching_run.run [OF 3 m2(1) m3])
  then show ?thesis unfolding m2(2) by auto
qed

text \<open>
  C5: requests are executed exactly once and in the order of arrival. However the gateway's pushes
  interleave with the matching thread and its one-ahead pipeline, the messages the inbound ring
  accepted are those executed so far, followed by what the thread holds (at most two), followed by
  what is still in the ring.
\<close>

theorem requests_executed_in_order:
  assumes "matching_run m0 acc exe m" and "matching_inv m0" and "pc_at m0 = Loop_Head"
    and "held m0 = []" and "ring_contents (in_ring (engine m0)) = []"
  shows "acc = exe @ held m @ ring_contents (in_ring (engine m)) \<and> length (held m) \<le> 2"
  using matching_fifo [OF assms(1-3)] assms(4,5) by (simp add: held_def)

theorem requests_executed_in_order_witness:
  "\<exists>m. matching_run (Matching_new engine4) [msg_at NEW 0 BID LIMIT 100 5] [msg_at NEW 0 BID LIMIT 100 5] m
     \<and> ring_contents (in_ring (engine m)) = []"
proof -
  have "msg_ok (msg_at NEW 0 BID LIMIT 100 5)" by code_simp
  from sample_run [OF this] obtain m where
    m: "matching_run (Matching_new engine4) [msg_at NEW 0 BID LIMIT 100 5] [msg_at NEW 0 BID LIMIT 100 5] m" by blast
  have "matching_inv (Matching_new engine4)" "pc_at (Matching_new engine4) = Loop_Head" "held (Matching_new engine4) = []"
    "ring_contents (in_ring (engine (Matching_new engine4))) = []"
    using in_ring4_inv in_ring4_contents by (simp_all add: matching_inv_def Matching_new_def engine4_def Engine_new_def held_def)
  from requests_executed_in_order [OF m this] m show ?thesis by auto
qed

text \<open>
  C4: the matching thread implements the abstract engine. After any run, the book and the id counter
  are those of executing the requests one by one in order, and the outbound ring has received
  exactly their replies: the trades of each request followed by its acknowledgement.
\<close>

theorem matching_thread_refines:
  assumes "matching_run m0 acc exe m" and "engine_as (engine m0) B nid" and "\<forall>msg \<in> set exe. msg_ok msg"
    and "pt_execute_all B nid exe = (B', nid', ms)"
  shows "refines (book (engine m)) B' \<and> next_id (engine m) = nid'
     \<and> out_ring (book (engine m)) = ring_push_all (out_ring (book (engine m0))) ms"
  using matching_refines [OF assms] by (simp add: engine_as_def)

theorem matching_thread_refines_witness:
  "\<exists>m. matching_run (Matching_new engine4) [msg_at NEW 0 BID LIMIT 100 5] [msg_at NEW 0 BID LIMIT 100 5] m
     \<and> next_id (engine m) = 1"
proof -
  let ?msg = "msg_at NEW 0 BID LIMIT 100 5"
  have ok: "msg_ok ?msg" by code_simp
  from sample_run [OF this] obtain m where m: "matching_run (Matching_new engine4) [?msg] [?msg] m" by blast
  have e: "engine_as (engine (Matching_new engine4)) empty4 0" using engine4_as by (simp add: Matching_new_def)
  have x: "fst (snd (pt_execute_all empty4 0 [?msg])) = 1" by code_simp
  obtain B' nid' ms where p: "pt_execute_all empty4 0 [?msg] = (B', nid', ms)" by (metis prod.exhaust)
  from matching_thread_refines [OF m e _ p] ok p x m show ?thesis by auto
qed

text \<open>
  C20: order ids. As long as the 64-bit counter has not wrapped, the id the engine assigns to a NEW
  order belongs to no resting order, so \<^verbatim>\<open>addOrder\<close> never drops an order as a duplicate.
\<close>

theorem assigned_ids_fresh:
  assumes "matching_run (Matching_new (Engine_new n inr outr)) acc exe m"
    and "\<forall>msg \<in> set exe. msg_ok msg" and "length exe < 2 ^ 64"
  shows "orders (book (engine m)) (next_id (engine m)) = None
     \<and> (\<forall>oid. orders (book (engine m)) oid \<noteq> None \<longrightarrow> oid < next_id (engine m))"
proof -
  let ?E = "\<lparr>pt_bids = [], pt_asks = [], pt_cap = n\<rparr>"
  obtain B' nid' ms where p: "pt_execute_all ?E 0 exe = (B', nid', ms)" by (metis prod.exhaust)
  have "engine_as (engine (Matching_new (Engine_new n inr outr))) ?E 0" by (simp add: Matching_new_def Engine_new_as)
  from matching_refines [OF assms(1) this assms(2) p]
  have R: "refines (book (engine m)) B'" "next_id (engine m) = nid'" by (simp_all add: engine_as_def)
  have "ids_below 0 ?E" by (simp add: ids_below_def pt_orders_def)
  from pt_execute_all_ids [OF this _ p] assms(3) have i: "ids_below nid' B'" by simp
  have f: "orders (book (engine m)) oid = None \<longleftrightarrow> pt_find B' oid = None" for oid
    using refines_find [OF R(1), of oid] by simp
  have "oid < nid'" if "pt_find B' oid \<noteq> None" for oid
    using that i by (auto simp: ids_below_def pt_find_None)
  then show ?thesis using ids_below_fresh [OF i] unfolding f R(2) by blast
qed

theorem assigned_ids_fresh_witness:
  "\<exists>m. matching_run (Matching_new engine4) [msg_at NEW 0 BID LIMIT 100 5] [msg_at NEW 0 BID LIMIT 100 5] m
     \<and> orders (book (engine m)) (next_id (engine m)) = None"
proof -
  let ?msg = "msg_at NEW 0 BID LIMIT 100 5"
  have ok: "msg_ok ?msg" by code_simp
  from sample_run [OF this] obtain m where m: "matching_run (Matching_new engine4) [?msg] [?msg] m" by blast
  from assigned_ids_fresh [OF m [unfolded engine4_def]] ok m show ?thesis by auto
qed

text \<open>
  \<^verbatim>\<open>step()\<close>, the test interface, executes everything the inbound ring holds and returns; one
  iteration more than there are messages is enough.
\<close>

theorem step_drains_ring:
  assumes "engine_as e B nid" and "ring_inv (in_ring e)" and "\<forall>msg \<in> set (ring_contents (in_ring e)). msg_ok msg"
    and "pt_execute_all B nid (ring_contents (in_ring e)) = (B', nid', ms)"
  shows "\<exists>e'. engine_step (length (ring_contents (in_ring e)) + 1) e = ok e' \<and> refines (book e') B' \<and> next_id e' = nid'
     \<and> ring_contents (in_ring e') = [] \<and> out_ring (book e') = ring_push_all (out_ring (book e)) ms"
  using engine_step_executes [OF assms, of "length (ring_contents (in_ring e)) + 1"]
  by (auto simp: engine_as_def)

theorem step_drains_ring_witness:
  "\<exists>e'. engine_step 1 engine4 = ok e' \<and> refines (book e') empty4 \<and> ring_contents (in_ring e') = []"
proof -
  have i: "in_ring engine4 = in_ring4" by (simp add: engine4_def Engine_new_def)
  have "ring_inv (in_ring engine4)" "\<forall>msg \<in> set (ring_contents (in_ring engine4)). msg_ok msg"
    "pt_execute_all empty4 0 (ring_contents (in_ring engine4)) = (empty4, 0, [])"
    unfolding i in_ring4_contents by (simp_all add: in_ring4_inv)
  from step_drains_ring [OF engine4_as this] show ?thesis unfolding i in_ring4_contents by auto
qed

section \<open>Gateway checks and the book\<close>

text \<open>
  What the gateway lets through, the engine can execute, with one gap: a limit price above
  \<^verbatim>\<open>MAX_PRICE\<close>. Every validated message without that gap is executed without a fault from every
  represented state.
\<close>

theorem validated_messages_execute:
  assumes "validate_message msg" and "im_order_type msg = LIMIT \<longrightarrow> im_price msg \<le> MAX_PRICE"
    and "engine_as e B nid"
  shows "\<exists>e'. executeRequest e msg = ok e' \<and> engine_as e' (fst (pt_execute B nid msg)) (fst (snd (pt_execute B nid msg)))"
proof -
  have "msg_ok msg" using assms(1,2) by (auto simp: validate_message_iff msg_ok_def valid_price_def)
  from executeRequest_simulates [OF assms(3) this, of "fst (pt_execute B nid msg)" "fst (snd (pt_execute B nid msg))"
      "snd (snd (pt_execute B nid msg))"] show ?thesis by auto
qed

theorem validated_messages_execute_witness:
  "\<exists>e'. executeRequest engine4 (msg_at NEW 0 BID LIMIT 100000 5) = ok e'"
proof -
  have "validate_message (msg_at NEW 0 BID LIMIT 100000 5)"
    "im_order_type (msg_at NEW 0 BID LIMIT 100000 5) = LIMIT \<longrightarrow> im_price (msg_at NEW 0 BID LIMIT 100000 5) \<le> MAX_PRICE"
    by code_simp+
  from validated_messages_execute [OF this engine4_as] show ?thesis by blast
qed

text \<open>
  C21: the gap is real. A validated NEW limit order priced just above the ladder makes a fresh engine
  index its level array out of range.
\<close>

theorem validated_price_gap:
  "validate_message (msg_at NEW 0 BID LIMIT 100001 5)
   \<and> executeRequest (Engine_new (Suc n) inr outr) (msg_at NEW 0 BID LIMIT 100001 5) = fail Index_Out_Of_Range"
proof
  let ?msg = "msg_at NEW 0 BID LIMIT 100001 5" and ?b = "Orderbook_new (Suc n) outr"
  show "validate_message ?msg" by code_simp
  have "process ?b (request_of 0 ?msg) = fail Index_Out_Of_Range"
    by (rule off_ladder) (simp_all add: request_of_def msg_at_def Orderbook_new_def available_def OrderPool_new_def
        valid_price_def MIN_PRICE_def MAX_PRICE_def)
  then show "executeRequest (Engine_new (Suc n) inr outr) ?msg = fail Index_Out_Of_Range"
    by (simp add: executeRequest_def Engine_new_def Let_def assigned_id_def bump_id_def msg_at_def)
qed

text \<open>
  The prefetch of the next request's level never leaves the level array, whatever price the
  message carries.
\<close>

theorem prefetch_in_bounds:
  assumes "prefetch msg = Some (s, i)"
  shows "i < MAX_PRICE - MIN_PRICE + 1 \<and> level_get l (im_price msg) = ok (l i)"
  using assms by (auto simp: prefetch_def index_in_range valid_price_def level_get_def not_less split: if_splits)

theorem prefetch_in_bounds_witness: "(4 :: 32 word) < MAX_PRICE - MIN_PRICE + 1"
proof -
  have "prefetch (msg_at NEW 0 BID LIMIT 5 1) = Some (Bids, 4)" by code_simp
  from prefetch_in_bounds [OF this] show ?thesis by blast
qed

end
